(* ===== verification/Prelude.thy ===== *)
theory Prelude
  imports Main "HOL-Library.Word"
begin

text \<open>
  Shared vocabulary of the development: the machine integers and bytes of the C++ code, the
  faults that undefined behaviour and failed assertions are modelled by, the in-place update of
  a byte buffer (\<^verbatim>\<open>memcpy\<close> and stores through a cast pointer), little-endian loads and stores,
  and the loop that calls an allocator \<open>n\<close> times.  The collection \<open>mem_simps\<close> gathers the
  read-over-write facts of buffers; components add their own read-over-write facts to it.
\<close>

unbundle bit_operations_syntax

named_theorems mem_simps \<open>reads of a buffer or a state after a write\<close>

type_synonym byte = "8 word"
type_synonym u16 = "16 word"
type_synonym u32 = "32 word"
type_synonym u64 = "64 word"

section \<open>Faults\<close>

text \<open>
  A C++ execution that dereferences a null pointer, indexes outside an array, fails a
  \<^verbatim>\<open>VERIFY\<close> (\<^verbatim>\<open>lang/verify.h\<close>), lets \<^verbatim>\<open>std::out_of_range\<close> escape or loops forever has no result;
  the model returns the fault on the left of a sum.
\<close>

datatype fault = Null_Deref | Out_Of_Bounds | Verify_Failed | Out_Of_Range | No_Return

type_synonym 'a res = "fault + 'a"

definition rbind :: "'a res \<Rightarrow> ('a \<Rightarrow> 'b res) \<Rightarrow> 'b res" where
  "rbind m f = (case m of Inl e \<Rightarrow> Inl e | Inr x \<Rightarrow> f x)"

lemma rbind_simps [simp]:
  "rbind (Inl e) f = Inl e"
  "rbind (Inr x) f = f x"
  by (simp_all add: rbind_def)

lemma rbind_Inr_iff: "rbind m f = Inr y \<longleftrightarrow> (\<exists>x. m = Inr x \<and> f x = Inr y)"
  by (cases m) auto

text \<open>Operations on a state that may fault, and their sequencing.\<close>

type_synonym ('s, 'a) op = "'s \<Rightarrow> ('a \<times> 's) res"

definition ret :: "'a \<Rightarrow> ('s, 'a) op" where
  "ret x s = Inr (x, s)"

definition andthen :: "('s, 'a) op \<Rightarrow> ('a \<Rightarrow> ('s, 'b) op) \<Rightarrow> ('s, 'b) op" where
  "andthen m f s = rbind (m s) (\<lambda>(x, s). f x s)"

lemma andthen_Inr: "m s = Inr (x, s') \<Longrightarrow> andthen m f s = f x s'"
  by (simp add: andthen_def)

lemma andthen_Inl: "m s = Inl e \<Longrightarrow> andthen m f s = Inl e"
  by (simp add: andthen_def)

lemma andthen_Inr_iff: "andthen m f s = Inr (y, s'') \<longleftrightarrow> (\<exists>x s'. m s = Inr (x, s') \<and> f x s' = Inr (y, s''))"
  by (auto simp: andthen_def rbind_def split: sum.splits)

section \<open>Bytes and characters\<close>

definition byte_of_char :: "char \<Rightarrow> byte" where
  "byte_of_char c = of_nat (of_char c)"

definition char_of_byte :: "byte \<Rightarrow> char" where
  "char_of_byte b = char_of (unat b)"

lemma char_of_byte_of_char [simp]: "char_of_byte (byte_of_char c) = c"
proof -
  have "(of_char c :: nat) < 256" by simp
  then have "unat (of_nat (of_char c) :: byte) = of_char c"
    by (simp add: unat_of_nat)
  then show ?thesis by (simp add: char_of_byte_def byte_of_char_def)
qed

lemma byte_of_char_of_byte [simp]: "byte_of_char (char_of_byte b) = b"
proof -
  have "unat b < 256" using unsigned_less [of b, where ?'a = nat] by simp
  then show ?thesis by (simp add: char_of_byte_def byte_of_char_def)
qed

lemma char_of_byte_comp [simp]:
  "char_of_byte \<circ> byte_of_char = id" "byte_of_char \<circ> char_of_byte = id"
  by (auto simp: fun_eq_iff)

abbreviation bytes_of_string :: "string \<Rightarrow> byte list" where
  "bytes_of_string \<equiv> map byte_of_char"

abbreviation string_of_bytes :: "byte list \<Rightarrow> string" where
  "string_of_bytes \<equiv> map char_of_byte"

section \<open>Uninitialised memory\<close>

text \<open>
  The contents of a local array before its first store, or of a fresh \<^verbatim>\<open>malloc\<close> block, are not
  determined by the program.  Operations that declare such a buffer take a parameter
  \<open>junk :: nat \<Rightarrow> byte\<close>, the bytes found there.
\<close>

definition uninit :: "(nat \<Rightarrow> byte) \<Rightarrow> nat \<Rightarrow> byte list" where
  "uninit junk n = map junk [0..<n]"

lemma length_uninit [simp]: "length (uninit junk n) = n"
  by (simp add: uninit_def)

section \<open>Stores into a buffer\<close>

definition overlay :: "'a list \<Rightarrow> nat \<Rightarrow> 'a list \<Rightarrow> 'a list" where
  "overlay xs i ys = take i xs @ ys @ drop (i + length ys) xs"

lemma length_overlay [simp]:
  "i + length ys \<le> length xs \<Longrightarrow> length (overlay xs i ys) = length xs"
  by (simp add: overlay_def)

lemma overlay_same [mem_simps]:
  "i + length ys \<le> length xs \<Longrightarrow> take (length ys) (drop i (overlay xs i ys)) = ys"
  by (simp add: overlay_def)

lemma nth_overlay:
  assumes "i + length ys \<le> length xs" "k < length xs"
  shows "overlay xs i ys ! k = (if i \<le> k \<and> k < i + length ys then ys ! (k - i) else xs ! k)"
  using assms by (auto simp: overlay_def nth_append min_def)

lemma take_drop_nth: "take n (drop i xs) = map (\<lambda>k. xs ! (i + k)) [0..<min n (length xs - i)]"
  by (rule nth_equalityI) auto

lemma overlay_other [mem_simps]:
  assumes "i + length ys \<le> length xs" "j + n \<le> i \<or> i + length ys \<le> j"
  shows "take n (drop j (overlay xs i ys)) = take n (drop j xs)"
  using assms by (auto simp: take_drop_nth nth_overlay intro!: map_cong)

section \<open>Little-endian loads and stores\<close>

text \<open>The programs run on x86; a struct or an array written to disk is its little-endian image.\<close>

definition le16 :: "u16 \<Rightarrow> byte list" where
  "le16 w = [ucast w, ucast (drop_bit 8 w)]"

definition le32 :: "u32 \<Rightarrow> byte list" where
  "le32 w = [ucast w, ucast (drop_bit 8 w), ucast (drop_bit 16 w), ucast (drop_bit 24 w)]"

definition of_le16 :: "byte list \<Rightarrow> u16" where
  "of_le16 bs = ucast (bs ! 0) OR push_bit 8 (ucast (bs ! 1))"

definition of_le32 :: "byte list \<Rightarrow> u32" where
  "of_le32 bs = ucast (bs ! 0) OR push_bit 8 (ucast (bs ! 1))
     OR push_bit 16 (ucast (bs ! 2)) OR push_bit 24 (ucast (bs ! 3))"

lemma length_le [simp]: "length (le16 w) = 2" "length (le32 v) = 4"
  by (simp_all add: le16_def le32_def)

text \<open>The byte of a word that starts at bit \<open>k\<close>, put back at bit \<open>k\<close>.\<close>

lemma bit_byte_at:
  fixes w :: "'a::len word"
  assumes "n < LENGTH('a)"
  shows "bit (push_bit k (ucast (ucast (drop_bit k w) :: byte)) :: 'a word) n
    \<longleftrightarrow> k \<le> n \<and> n < k + 8 \<and> bit w n"
  using assms by (auto simp: bit_push_bit_iff bit_drop_bit_eq bit_ucast_iff)

lemma bit_byte_0:
  fixes w :: "'a::len word"
  shows "bit (ucast (ucast w :: byte) :: 'a word) n \<longleftrightarrow> n < 8 \<and> bit w n"
  by (auto simp: bit_ucast_iff dest: bit_imp_le_length)

lemmas nth_small = nth_Cons_0 nth_Cons_Suc numeral_2_eq_2 numeral_3_eq_3 One_nat_def

lemma of_le16_le16 [simp]: "of_le16 (le16 w) = w"
proof (rule bit_word_eqI)
  fix n assume n: "n < LENGTH(16)"
  have "of_le16 (le16 w) = ucast (ucast w :: byte) OR push_bit 8 (ucast (ucast (drop_bit 8 w) :: byte))"
    by (simp only: of_le16_def le16_def nth_small)
  with n show "bit (of_le16 (le16 w)) n = bit w n"
    by (simp only: bit_or_iff bit_byte_0 bit_byte_at) auto
qed

lemma of_le32_le32 [simp]: "of_le32 (le32 w) = w"
proof (rule bit_word_eqI)
  fix n assume n: "n < LENGTH(32)"
  have "of_le32 (le32 w) = ucast (ucast w :: byte) OR push_bit 8 (ucast (ucast (drop_bit 8 w) :: byte))
      OR push_bit 16 (ucast (ucast (drop_bit 16 w) :: byte)) OR push_bit 24 (ucast (ucast (drop_bit 24 w) :: byte))"
    by (simp only: of_le32_def le32_def nth_small)
  with n show "bit (of_le32 (le32 w)) n = bit w n"
    by (simp only: bit_or_iff bit_byte_0 bit_byte_at) auto
qed

definition load16 :: "byte list \<Rightarrow> nat \<Rightarrow> u16" where
  "load16 b off = of_le16 (take 2 (drop off b))"

definition load32 :: "byte list \<Rightarrow> nat \<Rightarrow> u32" where
  "load32 b off = of_le32 (take 4 (drop off b))"

definition load32s :: "byte list \<Rightarrow> nat \<Rightarrow> nat \<Rightarrow> u32 list" where
  "load32s b off n = map (\<lambda>k. load32 b (off + 4 * k)) [0..<n]"

lemma length_load32s [simp]: "length (load32s b off n) = n"
  by (simp add: load32s_def)

lemma nth_load32s [simp]: "k < n \<Longrightarrow> load32s b off n ! k = load32 b (off + 4 * k)"
  by (simp add: load32s_def)

definition le32s :: "u32 list \<Rightarrow> byte list" where
  "le32s ws = concat (map le32 ws)"

lemma length_le32s [simp]: "length (le32s ws) = 4 * length ws"
  by (induction ws) (simp_all add: le32s_def)

lemma take_drop_le32s: "k < length ws \<Longrightarrow> take 4 (drop (4 * k) (le32s ws)) = le32 (ws ! k)"
proof (induction ws arbitrary: k)
  case Nil
  then show ?case by simp
next
  case (Cons w ws)
  then show ?case by (cases k) (auto simp: le32s_def)
qed

lemma load32_overlay_le32s:
  assumes "off + 4 * length ws \<le> length b" "k < length ws"
  shows "load32 (overlay b off (le32s ws)) (off + 4 * k) = ws ! k"
proof -
  have "drop (off + 4 * k) (overlay b off (le32s ws))
      = drop (4 * k) (le32s ws) @ drop (off + 4 * length ws) b"
    using assms by (simp add: overlay_def min_def)
  moreover have "4 * k + 4 \<le> length (le32s ws)" using assms by simp
  ultimately have "take 4 (drop (off + 4 * k) (overlay b off (le32s ws)))
      = take 4 (drop (4 * k) (le32s ws))"
    by simp
  then show ?thesis using assms by (simp add: load32_def take_drop_le32s)
qed

lemma load32s_overlay_le32s [mem_simps]:
  assumes "off + 4 * length ws \<le> length b" "n \<le> length ws"
  shows "load32s (overlay b off (le32s ws)) off n = take n ws"
  using assms by (intro nth_equalityI) (auto simp: load32_overlay_le32s)

lemma load_overlay_other [mem_simps]:
  assumes "i + length ys \<le> length b"
  shows "j + 2 \<le> i \<or> i + length ys \<le> j \<Longrightarrow> load16 (overlay b i ys) j = load16 b j"
    and "j + 4 \<le> i \<or> i + length ys \<le> j \<Longrightarrow> load32 (overlay b i ys) j = load32 b j"
  using assms by (simp_all add: load16_def load32_def overlay_other)

lemma load16_overlay_le16 [mem_simps]:
  "i + 2 \<le> length b \<Longrightarrow> load16 (overlay b i (le16 w)) i = w"
  using overlay_same [of i "le16 w" b] by (simp add: load16_def)

lemma load16_zeros [simp]: "off + 2 \<le> n \<Longrightarrow> load16 (replicate n 0) off = 0"
  by (simp add: load16_def of_le16_def)

lemma load32_zeros [simp]: "off + 4 \<le> n \<Longrightarrow> load32 (replicate n 0) off = 0"
  by (simp add: load32_def of_le32_def)

section \<open>Calling an allocator in a loop\<close>

text \<open>
  \<^verbatim>\<open>for (i = 0; i < n; ++i) x[i] = alloc();\<close> threads the state through \<open>n\<close> calls and collects
  the values.
\<close>

fun repeat_alloc :: "('s \<Rightarrow> 'a \<times> 's) \<Rightarrow> nat \<Rightarrow> 's \<Rightarrow> 'a list \<times> 's" where
  "repeat_alloc f 0 s = ([], s)"
| "repeat_alloc f (Suc n) s =
     (let (x, s1) = f s; (xs, s2) = repeat_alloc f n s1 in (x # xs, s2))"

lemma length_repeat_alloc: "repeat_alloc f n s = (xs, s') \<Longrightarrow> length xs = n"
  by (induction n arbitrary: s xs) (auto split: prod.splits)

section \<open>Words as bounded naturals\<close>

lemma unat_of_nat_u32 [simp]: "n < 4294967296 \<Longrightarrow> unat (of_nat n :: u32) = n"
  by (simp add: unat_of_nat)

lemma unat_mem_image [simp]: "unat (b :: 'a::len word) \<in> unat ` S \<longleftrightarrow> b \<in> S"
  by (auto simp: word_unat_eq_iff [symmetric])

text \<open>The simplifier writes the mask \<open>1 << k\<close> as a power of two.\<close>

lemma word_and_bit_eq_0:
  "k < LENGTH('a) \<Longrightarrow> ((w :: 'a::len word) AND 2 ^ k = 0) = (\<not> bit w k)"
proof -
  assume k: "k < LENGTH('a)"
  have "bit (w AND 2 ^ k) k = bit w k"
    using k by (simp add: bit_simps)
  moreover have "w AND 2 ^ k = 0" if "\<not> bit w k"
    by (rule bit_word_eqI) (use that in \<open>auto simp: bit_simps\<close>)
  ultimately show ?thesis by auto
qed

lemma bit_or_mask: "k < LENGTH('a) \<Longrightarrow> bit ((w :: 'a::len word) OR 2 ^ k) j = (bit w j \<or> j = k)"
  by (auto simp: bit_simps dest: bit_imp_le_length)

lemma bit_and_not_mask: "bit ((w :: 'a::len word) AND NOT (2 ^ k)) j = (bit w j \<and> j \<noteq> k)"
  by (auto simp: bit_simps dest: bit_imp_le_length)

end
