(* ===== verification/Disk.thy ===== *)
theory Disk
  imports Prelude
begin

text \<open>
  The disk and the block layer of \<^verbatim>\<open>src/inode_manager.cc\<close>: class \<^verbatim>\<open>disk\<close> (an array of
  \<open>BLOCK_NUM\<close> blocks of \<open>BLOCK_SIZE\<close> bytes) and class \<^verbatim>\<open>block_manager\<close> (allocation of blocks by
  a bitmap kept in blocks 2 to 9).  The locale \<open>block_allocator\<close> states what the inode layer
  relies on; it is interpreted on \<open>alloc_block\<close> and \<open>free_block\<close>.
\<close>

section \<open>Geometry (\<^verbatim>\<open>inode_manager.h\<close>)\<close>

abbreviation BLOCK_SIZE :: nat where "BLOCK_SIZE \<equiv> 512"
abbreviation BLOCK_NUM :: nat where "BLOCK_NUM \<equiv> 32768" \<comment> \<open>\<^verbatim>\<open>1024*1024*16/512\<close>\<close>
abbreviation INODE_NUM :: nat where "INODE_NUM \<equiv> 1024"
abbreviation BPB :: nat where "BPB \<equiv> 4096" \<comment> \<open>bitmap bits per block, \<^verbatim>\<open>BLOCK_SIZE*8\<close>\<close>

text \<open>Block containing the bit for block \<open>b\<close>.\<close>

definition BBLOCK :: "u32 \<Rightarrow> u32" where
  "BBLOCK b = b div 4096 + 2"

text \<open>Block containing inode \<open>i\<close>; \<open>IPB\<close> is 1.\<close>

definition IBLOCK :: "u32 \<Rightarrow> u32 \<Rightarrow> u32" where
  "IBLOCK i nblocks = nblocks div 4096 + i div 1 + 3"

section \<open>Class \<^verbatim>\<open>disk\<close>\<close>

record disk =
  blocks :: "nat \<Rightarrow> byte list"

definition disk_init :: disk where
  "disk_init = \<lparr>blocks = (\<lambda>_. replicate BLOCK_SIZE 0)\<rparr>"

text \<open>A null buffer is \<open>None\<close>.  The result is the buffer after the call.\<close>

definition disk_read_block :: "disk \<Rightarrow> u32 \<Rightarrow> byte list option \<Rightarrow> byte list option" where
  "disk_read_block dk bnum buf =
     (case buf of None \<Rightarrow> None
      | Some b \<Rightarrow> if bnum < 0 \<or> BLOCK_NUM \<le> unat bnum then Some b
                  else Some (overlay b 0 (blocks dk (unat bnum))))"

definition disk_write_block :: "disk \<Rightarrow> u32 \<Rightarrow> byte list option \<Rightarrow> disk" where
  "disk_write_block dk bnum buf =
     (case buf of None \<Rightarrow> dk
      | Some b \<Rightarrow> if bnum < 0 \<or> BLOCK_NUM \<le> unat bnum then dk
                  else dk\<lparr>blocks := (blocks dk)(unat bnum := take BLOCK_SIZE b)\<rparr>)"

section \<open>Class \<^verbatim>\<open>block_manager\<close>\<close>

record superblock =
  sb_size :: u32
  sb_nblocks :: u32
  sb_ninodes :: u32

text \<open>The member \<^verbatim>\<open>using_blocks\<close> of the class is never read or written and has no field here.\<close>

record block_manager =
  bm_disk :: disk
  bm_sb :: superblock

definition read_block :: "block_manager \<Rightarrow> u32 \<Rightarrow> byte list \<Rightarrow> byte list" where
  "read_block bm bnum buf =
     (case disk_read_block (bm_disk bm) bnum (Some buf) of None \<Rightarrow> buf | Some b \<Rightarrow> b)"

definition write_block :: "block_manager \<Rightarrow> u32 \<Rightarrow> byte list \<Rightarrow> block_manager" where
  "write_block bm bnum buf = bm\<lparr>bm_disk := disk_write_block (bm_disk bm) bnum (Some buf)\<rparr>"

text \<open>
  The inner loop of \<^verbatim>\<open>alloc_block\<close>: the first clear bit of a bitmap block at or after \<open>off\<close>.
  Counters stay below \<^verbatim>\<open>BLOCK_NUM\<close> and are naturals.
\<close>

function scan_bits :: "byte list \<Rightarrow> nat \<Rightarrow> nat option" where
  "scan_bits buf off =
     (if off < BPB
      then if buf ! (off div 8) AND push_bit (off mod 8) 1 = 0 then Some off
           else scan_bits buf (Suc off)
      else None)"
  by pat_completeness auto
termination
  by (relation "measure (\<lambda>(buf, off). BPB - off)") auto

declare scan_bits.simps [simp del]

function alloc_scan :: "block_manager \<Rightarrow> byte list \<Rightarrow> nat \<Rightarrow> u32 \<times> block_manager" where
  "alloc_scan bm buf bnum =
     (if bnum < BLOCK_NUM
      then let buf = read_block bm (BBLOCK (of_nat bnum)) buf in
           (case scan_bits buf 0 of
              Some off \<Rightarrow>
                (of_nat (bnum + off),
                 write_block bm (BBLOCK (of_nat bnum))
                   (buf[off div 8 := buf ! (off div 8) OR push_bit (off mod 8) 1]))
            | None \<Rightarrow> alloc_scan bm buf (bnum + BPB))
      else (0, bm))"
  by pat_completeness auto
termination
  by (relation "measure (\<lambda>(bm, buf, bnum). BLOCK_NUM - bnum)") auto

declare alloc_scan.simps [simp del]

definition alloc_block :: "(nat \<Rightarrow> byte) \<Rightarrow> block_manager \<Rightarrow> u32 \<times> block_manager" where
  "alloc_block junk bm = alloc_scan bm (uninit junk BLOCK_SIZE) 0"

definition free_block :: "(nat \<Rightarrow> byte) \<Rightarrow> block_manager \<Rightarrow> u32 \<Rightarrow> block_manager" where
  "free_block junk bm bnum =
     (if bnum \<le> BBLOCK (of_nat BLOCK_NUM) then bm
      else let buf = read_block bm (BBLOCK bnum) (uninit junk BLOCK_SIZE);
               offset = unat (bnum mod 4096)
           in write_block bm (BBLOCK bnum)
                (buf[offset div 8 := buf ! (offset div 8) AND NOT (push_bit (offset mod 8) 1)]))"

text \<open>
  The constructor formats an all-zero disk and reserves
  \<^verbatim>\<open>BLOCK_NUM / BPB + INODE_NUM / IPB + 2\<close> blocks by that many calls of \<^verbatim>\<open>alloc_block\<close>.
\<close>

definition block_manager_init :: "(nat \<Rightarrow> byte) \<Rightarrow> block_manager" where
  "block_manager_init junk =
     (let bm = \<lparr>bm_disk = disk_init,
                bm_sb = \<lparr>sb_size = 16777216, sb_nblocks = 32768, sb_ninodes = 1024\<rparr>\<rparr>
      in snd (repeat_alloc (alloc_block junk) (BLOCK_NUM div BPB + INODE_NUM div 1 + 2) bm))"

section \<open>Observations\<close>

abbreviation blk :: "block_manager \<Rightarrow> nat \<Rightarrow> byte list" where
  "blk bm b \<equiv> blocks (bm_disk bm) b"

definition used :: "block_manager \<Rightarrow> nat set" where
  "used bm = {b. b < BLOCK_NUM \<and> bit (blk bm (b div BPB + 2) ! (b mod BPB div 8)) (b mod 8)}"

text \<open>Everything but the allocation bitmap.\<close>

definition payload :: "block_manager \<Rightarrow> (nat \<Rightarrow> byte list) \<times> superblock" where
  "payload bm = ((\<lambda>b. if 2 \<le> b \<and> b < 10 then [] else blk bm b), bm_sb bm)"

definition bm_wf :: "block_manager \<Rightarrow> bool" where
  "bm_wf bm \<longleftrightarrow> (\<forall>b < BLOCK_NUM. length (blk bm b) = BLOCK_SIZE)
     \<and> sb_nblocks (bm_sb bm) = 32768 \<and> sb_ninodes (bm_sb bm) = 1024"

lemma payload_eq_iff:
  "payload bm' = payload bm \<longleftrightarrow>
     (\<forall>b. b < 2 \<or> 10 \<le> b \<longrightarrow> blk bm' b = blk bm b) \<and> bm_sb bm' = bm_sb bm"
  by (auto simp: payload_def fun_eq_iff not_less split: if_splits)

lemma unat_BBLOCK [simp]: "unat (BBLOCK b) = unat b div 4096 + 2"
proof -
  have "unat (b div 4096) = unat b div 4096" by (simp add: unat_div)
  moreover have "unat b div 4096 < 1048576"
    using unsigned_less [of b, where ?'a = nat] by simp
  ultimately show ?thesis
    by (simp add: BBLOCK_def unat_word_ariths)
qed

lemma read_block_in [simp]:
  "bm_wf bm \<Longrightarrow> unat b < BLOCK_NUM \<Longrightarrow> length buf = BLOCK_SIZE \<Longrightarrow> read_block bm b buf = blk bm (unat b)"
  by (simp add: read_block_def disk_read_block_def overlay_def bm_wf_def)

lemma blk_write_block [mem_simps]:
  "unat b < BLOCK_NUM \<Longrightarrow> blk (write_block bm b buf) c = (if c = unat b then take BLOCK_SIZE buf else blk bm c)"
  by (simp add: write_block_def disk_write_block_def)

lemma sb_write_block [simp]: "bm_sb (write_block bm b buf) = bm_sb bm"
  by (simp add: write_block_def)

lemma bm_wf_write_block [intro]:
  "bm_wf bm \<Longrightarrow> BLOCK_SIZE \<le> length buf \<Longrightarrow> bm_wf (write_block bm b buf)"
  by (auto simp: bm_wf_def write_block_def disk_write_block_def)

section \<open>Bitmap search\<close>

abbreviation bmbit :: "byte list \<Rightarrow> nat \<Rightarrow> bool" where
  "bmbit buf k \<equiv> bit (buf ! (k div 8)) (k mod 8)"

lemma scan_bits_Some:
  "scan_bits buf off = Some k \<Longrightarrow> off \<le> k \<and> k < BPB \<and> \<not> bmbit buf k \<and> (\<forall>j. off \<le> j \<and> j < k \<longrightarrow> bmbit buf j)"
proof (induction buf off rule: scan_bits.induct)
  case (1 buf off)
  show ?case
  proof (cases "off < BPB \<and> bmbit buf off")
    case True
    with "1.prems" have "scan_bits buf (Suc off) = Some k"
      by (simp add: scan_bits.simps [of buf off] word_and_bit_eq_0)
    with True "1.IH" have IH: "Suc off \<le> k \<and> k < BPB \<and> \<not> bmbit buf k \<and> (\<forall>j. Suc off \<le> j \<and> j < k \<longrightarrow> bmbit buf j)"
      by (simp add: word_and_bit_eq_0)
    have "bmbit buf j" if "off \<le> j" "j < k" for j
      using IH True that by (cases "j = off") auto
    with IH show ?thesis by simp
  next
    case False
    with "1.prems" show ?thesis
      by (auto simp: scan_bits.simps [of buf off] word_and_bit_eq_0 split: if_splits)
  qed
qed

lemma scan_bits_None:
  "scan_bits buf off = None \<Longrightarrow> off \<le> j \<Longrightarrow> j < BPB \<Longrightarrow> bmbit buf j"
proof (induction buf off rule: scan_bits.induct)
  case (1 buf off)
  then show ?case
    by (cases "j = off") (auto simp: scan_bits.simps [of buf off] word_and_bit_eq_0 split: if_splits)
qed

lemma bmbit_set:
  assumes "off < BPB" "j < BPB" "length buf = BLOCK_SIZE"
  shows "bmbit (buf[off div 8 := buf ! (off div 8) OR push_bit (off mod 8) 1]) j \<longleftrightarrow> bmbit buf j \<or> j = off"
proof (cases "j div 8 = off div 8")
  case True
  then have "j = off \<longleftrightarrow> j mod 8 = off mod 8" by (metis div_mult_mod_eq)
  with True assms show ?thesis by (simp add: bit_or_mask)
next
  case False
  then show ?thesis by auto
qed

lemma bmbit_clear:
  assumes "off < BPB" "j < BPB" "length buf = BLOCK_SIZE"
  shows "bmbit (buf[off div 8 := buf ! (off div 8) AND NOT (push_bit (off mod 8) 1)]) j \<longleftrightarrow> bmbit buf j \<and> j \<noteq> off"
proof (cases "j div 8 = off div 8")
  case True
  then have "j = off \<longleftrightarrow> j mod 8 = off mod 8" by (metis div_mult_mod_eq)
  with True assms show ?thesis by (simp add: bit_and_not_mask)
next
  case False
  then show ?thesis by auto
qed

text \<open>Block \<open>b\<close> is in group \<open>b div BPB\<close>, at bit \<open>b mod BPB\<close> of that group's bitmap block.\<close>

lemma used_iff: "b \<in> used bm \<longleftrightarrow> b < BLOCK_NUM \<and> bmbit (blk bm (b div BPB + 2)) (b mod BPB)"
proof -
  have "b mod BPB mod 8 = b mod 8" by (simp add: mod_mod_cancel)
  then show ?thesis by (simp add: used_def)
qed

lemma mem_group_iff:
  assumes "off < BPB"
  shows "b div BPB = g \<and> b mod BPB = off \<longleftrightarrow> b = g * BPB + off"
  using assms by (auto simp: mult.commute)

lemma used_group: "k < BPB \<Longrightarrow> g < 8 \<Longrightarrow> g * BPB + k \<in> used bm \<longleftrightarrow> bmbit (blk bm (g + 2)) k"
  by (simp add: used_iff)

lemma unat_BBLOCK_group: "g < 8 \<Longrightarrow> unat (BBLOCK (of_nat (g * BPB))) = g + 2"
  by (simp del: of_nat_mult)

text \<open>Storing a bitmap block changes the allocation state of that block's group only.\<close>

lemma write_bitmap:
  assumes wf: "bm_wf bm" and g: "g < 8" and w: "unat w = g + 2" and len: "length buf = BLOCK_SIZE"
  shows "b \<in> used (write_block bm w buf) \<longleftrightarrow>
           (if b div BPB = g then bmbit buf (b mod BPB) else b \<in> used bm)"
    and "payload (write_block bm w buf) = payload bm"
    and "bm_wf (write_block bm w buf)"
  using assms by (auto simp: used_iff payload_eq_iff mem_simps)

lemma mark_used:
  assumes wf: "bm_wf bm" and g: "g < 8" and w: "unat w = g + 2" and off: "off < BPB"
    and buf: "buf = blk bm (g + 2)"
    and bm': "bm' = write_block bm w (buf[off div 8 := buf ! (off div 8) OR push_bit (off mod 8) 1])"
  shows "used bm' = insert (g * BPB + off) (used bm)" "payload bm' = payload bm" "bm_wf bm'"
proof -
  have len: "length buf = BLOCK_SIZE" using wf g buf by (simp add: bm_wf_def)
  let ?buf = "buf[off div 8 := buf ! (off div 8) OR push_bit (off mod 8) 1]"
  have len': "length ?buf = BLOCK_SIZE" using len by simp
  note wb = write_bitmap [OF wf g w len', folded bm']
  show "payload bm' = payload bm" "bm_wf bm'" using wb by auto
  have "b \<in> used bm' \<longleftrightarrow> b = g * BPB + off \<or> b \<in> used bm" for b
  proof -
    have "bmbit ?buf (b mod BPB) \<longleftrightarrow> bmbit buf (b mod BPB) \<or> b mod BPB = off"
      by (rule bmbit_set [OF off _ len]) simp
    moreover have "b div BPB = g \<Longrightarrow> bmbit buf (b mod BPB) \<longleftrightarrow> b \<in> used bm"
      using buf g by (auto simp: used_iff)
    ultimately show ?thesis
      using wb(1) [of b] mem_group_iff [OF off, of b g] by auto
  qed
  then show "used bm' = insert (g * BPB + off) (used bm)" by auto
qed

lemma mark_free:
  assumes wf: "bm_wf bm" and b: "b < BLOCK_NUM" and w: "unat w = b div BPB + 2"
    and buf: "buf = blk bm (b div BPB + 2)"
    and bm': "bm' = write_block bm w (buf[b mod BPB div 8 :=
                 buf ! (b mod BPB div 8) AND NOT (push_bit (b mod BPB mod 8) 1)])"
  shows "used bm' = used bm - {b}" "payload bm' = payload bm" "bm_wf bm'"
proof -
  have g: "b div BPB < 8" using b by auto
  have len: "length buf = BLOCK_SIZE" using wf g buf by (simp add: bm_wf_def)
  let ?off = "b mod BPB"
  let ?buf = "buf[?off div 8 := buf ! (?off div 8) AND NOT (push_bit (?off mod 8) 1)]"
  have len': "length ?buf = BLOCK_SIZE" using len by simp
  have off: "?off < BPB" by simp
  note wb = write_bitmap [OF wf g w len', folded bm']
  show "payload bm' = payload bm" "bm_wf bm'" using wb by auto
  have "c \<in> used bm' \<longleftrightarrow> c \<in> used bm \<and> c \<noteq> b" for c
  proof -
    have "bmbit ?buf (c mod BPB) \<longleftrightarrow> bmbit buf (c mod BPB) \<and> c mod BPB \<noteq> ?off"
      by (rule bmbit_clear [OF off _ len]) simp
    moreover have "c div BPB = b div BPB \<Longrightarrow> bmbit buf (c mod BPB) \<longleftrightarrow> c \<in> used bm"
      using buf g by (auto simp: used_iff)
    moreover have "c = b \<longleftrightarrow> c div BPB = b div BPB \<and> c mod BPB = ?off"
      by (metis div_mult_mod_eq)
    ultimately show ?thesis using wb(1) [of c] by auto
  qed
  then show "used bm' = used bm - {b}" by auto
qed

section \<open>Allocation\<close>

text \<open>The lowest free block is taken, its bit is set, and nothing else changes.\<close>

definition allocates :: "block_manager \<Rightarrow> nat \<Rightarrow> block_manager \<Rightarrow> bool" where
  "allocates bm k bm' \<longleftrightarrow> k < BLOCK_NUM \<and> k \<notin> used bm \<and> {..<k} \<subseteq> used bm
     \<and> used bm' = insert k (used bm) \<and> payload bm' = payload bm \<and> bm_wf bm'"

lemma alloc_scan_group:
  assumes wf: "bm_wf bm" and g: "g < 8" and len: "length buf = BLOCK_SIZE"
    and below: "{..<g * BPB} \<subseteq> used bm"
    and hit: "scan_bits (blk bm (g + 2)) 0 = Some off"
  shows "\<exists>bm'. alloc_scan bm buf (g * BPB) = (of_nat (g * BPB + off), bm') \<and> allocates bm (g * BPB + off) bm'"
proof -
  let ?b = "blk bm (g + 2)"
  let ?w = "BBLOCK (of_nat (g * BPB))"
  have w: "unat ?w = g + 2" using g by (rule unat_BBLOCK_group)
  have rd: "read_block bm ?w buf = ?b" using read_block_in [OF wf _ len, of ?w] g w by simp
  have off: "off < BPB" and clear: "\<not> bmbit ?b off" and pre: "\<And>j. j < off \<Longrightarrow> bmbit ?b j"
    using scan_bits_Some [OF hit] by auto
  define bm' where "bm' = write_block bm ?w (?b[off div 8 := ?b ! (off div 8) OR push_bit (off mod 8) 1])"
  note mk = mark_used [OF wf g w off refl bm'_def]
  have "j \<in> used bm" if "j < g * BPB + off" for j
  proof (cases "j < g * BPB")
    case True
    then show ?thesis using below by auto
  next
    case False
    define k where "k = j - g * BPB"
    with False that have j: "j = g * BPB + k" and k: "k < off" by auto
    with off g pre [OF k] show ?thesis by (simp add: used_group)
  qed
  then have "{..<g * BPB + off} \<subseteq> used bm" by auto
  moreover have "g * BPB + off \<notin> used bm" "g * BPB + off < BLOCK_NUM"
    using clear off g by (auto simp: used_iff)
  ultimately have "allocates bm (g * BPB + off) bm'" using mk by (auto simp: allocates_def)
  moreover have "alloc_scan bm buf (g * BPB) = (of_nat (g * BPB + off), bm')"
    using g rd hit by (subst alloc_scan.simps) (simp add: bm'_def Let_def)
  ultimately show ?thesis by blast
qed

lemma alloc_scan_correct:
  assumes wf: "bm_wf bm"
  shows "g \<le> 8 \<Longrightarrow> length buf = BLOCK_SIZE \<Longrightarrow> {..<g * BPB} \<subseteq> used bm \<Longrightarrow>
    (used bm = {..<BLOCK_NUM} \<longrightarrow> alloc_scan bm buf (g * BPB) = (0, bm)) \<and>
    (used bm \<noteq> {..<BLOCK_NUM} \<longrightarrow>
       (\<exists>k bm'. alloc_scan bm buf (g * BPB) = (of_nat k, bm') \<and> allocates bm k bm'))"
proof (induction "8 - g" arbitrary: g buf)
  case 0
  then have g: "g = 8" by simp
  with "0.prems" have "used bm = {..<BLOCK_NUM}" by (auto simp: used_def)
  with g show ?case by (simp add: alloc_scan.simps [of bm buf])
next
  case (Suc n)
  then have g: "g < 8" by simp
  let ?b = "blk bm (g + 2)"
  have rd: "read_block bm (BBLOCK (of_nat (g * BPB))) buf = ?b"
    using read_block_in [OF wf _ Suc.prems(2), of "BBLOCK (of_nat (g * BPB))"] unat_BBLOCK_group [OF g] g
    by simp
  have len: "length ?b = BLOCK_SIZE" using wf g by (simp add: bm_wf_def)
  show ?case
  proof (cases "scan_bits ?b 0")
    case None
    have "j \<in> used bm" if "j < Suc g * BPB" "g * BPB \<le> j" for j
    proof -
      define k where "k = j - g * BPB"
      with that have "j = g * BPB + k" "k < BPB" by auto
      with scan_bits_None [OF None, of k] g show ?thesis by (simp add: used_group)
    qed
    with Suc.prems(3) have below: "{..<Suc g * BPB} \<subseteq> used bm"
      by (meson lessThan_iff not_le subsetD subsetI)
    have "alloc_scan bm buf (g * BPB) = alloc_scan bm ?b (Suc g * BPB)"
      using g None rd by (subst alloc_scan.simps) (simp add: Let_def add.commute)
    with Suc.hyps(1) [of "Suc g" ?b] Suc.hyps(2) g len below show ?thesis by simp
  next
    case (Some off)
    from alloc_scan_group [OF wf g Suc.prems(2,3) Some] obtain bm' where
      "alloc_scan bm buf (g * BPB) = (of_nat (g * BPB + off), bm')" "allocates bm (g * BPB + off) bm'"
      by blast
    moreover from this have "used bm \<noteq> {..<BLOCK_NUM}" by (auto simp: allocates_def)
    ultimately show ?thesis by blast
  qed
qed

text \<open>
  C17: on a well-formed disk with a free block, \<^verbatim>\<open>alloc_block\<close> returns the lowest-numbered free block,
  sets exactly that block's bit and changes nothing outside the bitmap; on a full disk it returns 0
  and leaves the disk as it is.
\<close>

theorem alloc_block_correct:
  assumes "bm_wf bm"
  shows "if used bm = {..<BLOCK_NUM} then alloc_block junk bm = (0, bm)
         else \<exists>k bm'. alloc_block junk bm = (of_nat k, bm') \<and> k < BLOCK_NUM \<and> k \<notin> used bm
                \<and> {..<k} \<subseteq> used bm \<and> used bm' = insert k (used bm)
                \<and> payload bm' = payload bm \<and> bm_wf bm'"
  using alloc_scan_correct [OF assms, of 0 "uninit junk BLOCK_SIZE"]
  by (auto simp: alloc_block_def allocates_def)

lemma alloc_block_cases:
  assumes "bm_wf bm"
  obtains (full) "used bm = {..<BLOCK_NUM}" "alloc_block junk bm = (0, bm)"
    | (free) k bm' where "used bm \<noteq> {..<BLOCK_NUM}" "alloc_block junk bm = (of_nat k, bm')"
        "allocates bm k bm'"
  using alloc_scan_correct [OF assms, of 0 "uninit junk BLOCK_SIZE"]
  by (auto simp: alloc_block_def)

lemma used_subset: "used bm \<subseteq> {..<BLOCK_NUM}"
  by (auto simp: used_def)

section \<open>Freeing\<close>

lemma free_block_effect:
  assumes wf: "bm_wf bm" and b: "10 < unat b" "unat b < BLOCK_NUM"
  shows "used (free_block junk bm b) = used bm - {unat b}"
    and "payload (free_block junk bm b) = payload bm"
    and "bm_wf (free_block junk bm b)"
proof -
  have gt: "\<not> b \<le> BBLOCK (of_nat BLOCK_NUM)"
    using b by (simp add: word_le_nat_alt)
  have w: "unat (BBLOCK b) = unat b div BPB + 2" by simp
  have rd: "read_block bm (BBLOCK b) (uninit junk BLOCK_SIZE) = blk bm (unat b div BPB + 2)"
    using read_block_in [OF wf, of "BBLOCK b"] b by simp
  have off: "unat (b mod 4096) = unat b mod BPB" by (simp add: unat_mod)
  have "free_block junk bm b = write_block bm (BBLOCK b) ((blk bm (unat b div BPB + 2))[unat b mod BPB div 8 :=
          blk bm (unat b div BPB + 2) ! (unat b mod BPB div 8) AND NOT (push_bit (unat b mod BPB mod 8) 1)])"
    using gt rd off by (simp only: free_block_def if_False Let_def)
  from mark_free [OF wf b(2) w refl this] show
    "used (free_block junk bm b) = used bm - {unat b}"
    "payload (free_block junk bm b) = payload bm" "bm_wf (free_block junk bm b)"
    by auto
qed

lemma free_block_protected: "unat b \<le> 10 \<Longrightarrow> free_block junk bm b = bm"
  by (simp add: free_block_def word_le_nat_alt)

section \<open>What the inode layer relies on\<close>

locale block_allocator =
  fixes alloc :: "'s \<Rightarrow> u32 \<times> 's"
    and free :: "'s \<Rightarrow> u32 \<Rightarrow> 's"
    and in_use :: "'s \<Rightarrow> nat set"
    and rest :: "'s \<Rightarrow> 'r"
    and ok :: "'s \<Rightarrow> bool"
    and lo hi :: nat
  assumes in_use_bound: "ok s \<Longrightarrow> in_use s \<subseteq> {..<hi}"
    and alloc_law: "ok s \<Longrightarrow> in_use s \<noteq> {..<hi} \<Longrightarrow> alloc s = (x, s') \<Longrightarrow>
      unat x < hi \<and> unat x \<notin> in_use s \<and> in_use s' = insert (unat x) (in_use s)
      \<and> rest s' = rest s \<and> ok s'"
    and free_law: "ok s \<Longrightarrow> lo < unat b \<Longrightarrow> unat b < hi \<Longrightarrow>
      in_use (free s b) = in_use s - {unat b} \<and> rest (free s b) = rest s \<and> ok (free s b)"
begin

lemma card_free_step:
  assumes "ok s" "in_use s \<noteq> {..<hi}" "alloc s = (x, s')"
  shows "card ({..<hi} - in_use s) = Suc (card ({..<hi} - in_use s'))"
proof -
  have "unat x \<in> {..<hi} - in_use s" and s': "in_use s' = insert (unat x) (in_use s)"
    using alloc_law [OF assms] by auto
  then have "{..<hi} - in_use s = insert (unat x) ({..<hi} - in_use s')" "unat x \<notin> {..<hi} - in_use s'"
    by auto
  then show ?thesis by simp
qed

text \<open>\<open>n\<close> allocations with at least \<open>n\<close> free blocks give \<open>n\<close> distinct blocks that were free.\<close>

lemma alloc_many:
  assumes "ok s" "n \<le> card ({..<hi} - in_use s)" "repeat_alloc alloc n s = (xs, s')"
  shows "length xs = n \<and> distinct xs \<and> unat ` set xs \<subseteq> {..<hi} - in_use s
    \<and> in_use s' = in_use s \<union> unat ` set xs \<and> rest s' = rest s \<and> ok s'
    \<and> card ({..<hi} - in_use s) = n + card ({..<hi} - in_use s')"
  using assms
proof (induction n arbitrary: s xs)
  case 0
  then show ?case by simp
next
  case (Suc n)
  obtain x s1 where a: "alloc s = (x, s1)" by force
  obtain ys where ys: "repeat_alloc alloc n s1 = (ys, s')" and xs: "xs = x # ys"
    using Suc.prems(3) a by (auto split: prod.splits)
  have nf: "in_use s \<noteq> {..<hi}"
  proof
    assume "in_use s = {..<hi}"
    then have "card ({..<hi} - in_use s) = 0" by (simp only: Diff_cancel card.empty)
    with Suc.prems(2) show False by simp
  qed
  note law = alloc_law [OF Suc.prems(1) nf a]
  have card: "card ({..<hi} - in_use s) = Suc (card ({..<hi} - in_use s1))"
    using card_free_step [OF Suc.prems(1) nf a] .
  with Suc.prems(2) have "n \<le> card ({..<hi} - in_use s1)" by simp
  from Suc.IH [OF _ this ys] law have IH: "length ys = n \<and> distinct ys \<and> unat ` set ys \<subseteq> {..<hi} - in_use s1
    \<and> in_use s' = in_use s1 \<union> unat ` set ys \<and> rest s' = rest s1 \<and> ok s'
    \<and> card ({..<hi} - in_use s1) = n + card ({..<hi} - in_use s')" by blast
  then have "x \<notin> set ys" "unat ` set xs \<subseteq> {..<hi} - in_use s" "in_use s' = in_use s \<union> unat ` set xs"
    using law by (auto simp: xs)
  moreover have "card ({..<hi} - in_use s) = Suc n + card ({..<hi} - in_use s')"
    using IH card by linarith
  ultimately show ?case using IH law by (simp only: xs length_Cons distinct.simps) blast
qed

lemmas alloc_manyD =
  alloc_many [THEN conjunct1]
  alloc_many [THEN conjunct2, THEN conjunct1]
  alloc_many [THEN conjunct2, THEN conjunct2, THEN conjunct1]
  alloc_many [THEN conjunct2, THEN conjunct2, THEN conjunct2, THEN conjunct1]
  alloc_many [THEN conjunct2, THEN conjunct2, THEN conjunct2, THEN conjunct2, THEN conjunct1]
  alloc_many [THEN conjunct2, THEN conjunct2, THEN conjunct2, THEN conjunct2, THEN conjunct2, THEN conjunct1]
  alloc_many [THEN conjunct2, THEN conjunct2, THEN conjunct2, THEN conjunct2, THEN conjunct2, THEN conjunct2]

lemma free_many:
  assumes "ok s" "\<forall>b \<in> set bs. lo < unat b \<and> unat b < hi"
  shows "in_use (foldl free s bs) = in_use s - unat ` set bs
    \<and> rest (foldl free s bs) = rest s \<and> ok (foldl free s bs)"
  using assms
proof (induction bs arbitrary: s)
  case Nil
  then show ?case by simp
next
  case (Cons b bs)
  then have law: "in_use (free s b) = in_use s - {unat b}" "rest (free s b) = rest s" "ok (free s b)"
    using free_law [of s b] by auto
  from Cons.IH [OF law(3)] Cons.prems(2) law(1,2) show ?case by auto
qed

end

interpretation ba: block_allocator "alloc_block junk" "free_block junk" used payload bm_wf 10 BLOCK_NUM
  for junk
proof unfold_locales
  show "used s \<subseteq> {..<BLOCK_NUM}" for s by (rule used_subset)
  show "unat x < BLOCK_NUM \<and> unat x \<notin> used s \<and> used s' = insert (unat x) (used s)
      \<and> payload s' = payload s \<and> bm_wf s'"
    if "bm_wf s" "used s \<noteq> {..<BLOCK_NUM}" "alloc_block junk s = (x, s')" for s x s'
    using that(1) by (cases rule: alloc_block_cases [where junk = junk])
      (use that in \<open>auto simp: allocates_def\<close>)
  show "used (free_block junk s b) = used s - {unat b} \<and> payload (free_block junk s b) = payload s
      \<and> bm_wf (free_block junk s b)"
    if "bm_wf s" "10 < unat b" "unat b < BLOCK_NUM" for s b
    using free_block_effect [OF that] by auto
qed

section \<open>Formatting\<close>

lemma repeat_alloc_prefix:
  assumes "bm_wf bm" "used bm = {..<m}" "m + n \<le> BLOCK_NUM"
    "repeat_alloc (alloc_block junk) n bm = (xs, bm')"
  shows "used bm' = {..<m + n} \<and> payload bm' = payload bm \<and> bm_wf bm'"
  using assms
proof (induction n arbitrary: m bm xs)
  case 0
  then show ?case by simp
next
  case (Suc n)
  obtain x bm1 where a: "alloc_block junk bm = (x, bm1)" by force
  obtain ys where ys: "repeat_alloc (alloc_block junk) n bm1 = (ys, bm')"
    using Suc.prems(4) a by (auto split: prod.splits)
  have nf: "used bm \<noteq> {..<BLOCK_NUM}" using Suc.prems(2,3) by simp
  from Suc.prems(1) obtain k where al: "allocates bm k bm1"
    by (cases rule: alloc_block_cases [where junk = junk]) (use nf a in auto)
  then have "\<not> k < m" "k \<le> m" using Suc.prems(2) by (simp_all add: allocates_def)
  then have "k = m" by simp
  with al Suc.prems(2) have "used bm1 = {..<Suc m}" "bm_wf bm1" "payload bm1 = payload bm"
    by (simp_all add: allocates_def lessThan_Suc)
  with Suc.IH [OF _ _ _ ys, of "Suc m"] Suc.prems(3) show ?case by simp
qed

lemma format_effect:
  "used (block_manager_init junk) = {..<1034}"
  "b < 2 \<or> 10 \<le> b \<Longrightarrow> blk (block_manager_init junk) b = replicate BLOCK_SIZE 0"
  "bm_wf (block_manager_init junk)"
proof -
  define bm where "bm = \<lparr>bm_disk = disk_init,
    bm_sb = \<lparr>sb_size = 16777216, sb_nblocks = 32768, sb_ninodes = 1024\<rparr>\<rparr>"
  have wf: "bm_wf bm" by (simp add: bm_def bm_wf_def disk_init_def)
  have u: "used bm = {..<0}" by (auto simp: used_def bm_def disk_init_def)
  obtain xs bm' where r: "repeat_alloc (alloc_block junk) 1034 bm = (xs, bm')" by force
  have i: "block_manager_init junk = bm'"
    using r by (simp add: block_manager_init_def bm_def [symmetric])
  have *: "used bm' = {..<1034} \<and> payload bm' = payload bm \<and> bm_wf bm'"
    using repeat_alloc_prefix [OF wf u _ r] by simp
  show "used (block_manager_init junk) = {..<1034}" "bm_wf (block_manager_init junk)"
    using * i by simp_all
  show "blk (block_manager_init junk) b = replicate BLOCK_SIZE 0" if "b < 2 \<or> 10 \<le> b"
    using * i that by (simp add: payload_eq_iff) (auto simp: bm_def disk_init_def)
qed

theorem alloc_block_correct_witness:
  "\<exists>bm'. alloc_block (\<lambda>_. 7) (block_manager_init (\<lambda>_. 7)) = (1034, bm')
    \<and> used bm' = insert 1034 {..<1034} \<and> bm_wf bm'"
proof -
  have u: "used (block_manager_init (\<lambda>_. 7)) = {..<1034}" by (rule format_effect)
  have "{..<1034 :: nat} \<noteq> {..<BLOCK_NUM}" by simp
  then obtain k bm' where k: "alloc_block (\<lambda>_. 7) (block_manager_init (\<lambda>_. 7)) = (of_nat k, bm')"
    "k \<notin> {..<1034}" "{..<k} \<subseteq> {..<1034}" "used bm' = insert k {..<1034}" "bm_wf bm'"
    using alloc_block_correct [OF format_effect(3), of "\<lambda>_. 7" "\<lambda>_. 7"] unfolding u by (simp only: if_False) blast
  moreover have "k = 1034" using k(2,3) by auto
  ultimately show ?thesis by auto
qed

end
