(* ===== verification/Inode_Manager.thy ===== *)
theory Inode_Manager
  imports Disk
begin

text \<open>
  The inode layer of \<^verbatim>\<open>src/inode_manager.cc\<close>: the on-disk image of \<^verbatim>\<open>struct inode\<close>, allocation
  and release of inodes, and reading, writing and removing whole files through direct and
  indirect blocks.  The state is the block manager; the current time \<^verbatim>\<open>std::time(0)\<close>, truncated
  to 32 bits as the code does, is a parameter \<open>now\<close>.
\<close>

abbreviation NDIRECT :: nat where "NDIRECT \<equiv> 32"
abbreviation NINDIRECT :: nat where "NINDIRECT \<equiv> 128" \<comment> \<open>\<^verbatim>\<open>BLOCK_SIZE / sizeof(uint)\<close>\<close>

text \<open>Blocks needed to contain \<open>b\<close> bytes, in \<^verbatim>\<open>uint\<close> arithmetic.\<close>

definition BLOCKS :: "u32 \<Rightarrow> u32" where
  "BLOCKS b = (b + 512 - 1) div 512"

section \<open>\<^verbatim>\<open>struct inode\<close> and its image in a block\<close>

record inode =
  i_type :: u16
  i_size :: u32
  i_atime :: u32
  i_mtime :: u32
  i_ctime :: u32
  i_blocks :: "u32 list" \<comment> \<open>\<^verbatim>\<open>NDIRECT + 1\<close> entries\<close>

definition zero_inode :: inode where
  "zero_inode = \<lparr>i_type = 0, i_size = 0, i_atime = 0, i_mtime = 0, i_ctime = 0,
     i_blocks = replicate (NDIRECT + 1) 0\<rparr>"

text \<open>
  \<^verbatim>\<open>(struct inode *) buf\<close>: \<^verbatim>\<open>type\<close> is at offset 0, two bytes of padding follow, then 37 words.
\<close>

definition load_inode :: "byte list \<Rightarrow> inode" where
  "load_inode b = \<lparr>i_type = load16 b 0, i_size = load32 b 4, i_atime = load32 b 8,
     i_mtime = load32 b 12, i_ctime = load32 b 16, i_blocks = load32s b 20 (NDIRECT + 1)\<rparr>"

definition store_inode :: "inode \<Rightarrow> byte list \<Rightarrow> byte list" where
  "store_inode ino b =
     overlay (overlay b 0 (le16 (i_type ino))) 4
       (le32s (i_size ino # i_atime ino # i_mtime ino # i_ctime ino # i_blocks ino))"

section \<open>Inodes\<close>

definition get_inode :: "(nat \<Rightarrow> byte) \<Rightarrow> block_manager \<Rightarrow> u32 \<Rightarrow> inode option" where
  "get_inode junk bm inum =
     (if inum < 0 \<or> INODE_NUM \<le> unat inum then None
      else let buf = read_block bm (IBLOCK inum (sb_nblocks (bm_sb bm))) (uninit junk BLOCK_SIZE);
               ino_disk = load_inode buf
           in if i_type ino_disk = 0 then None else Some ino_disk)"

text \<open>There is no range check on \<open>inum\<close> here; a null inode is \<open>None\<close>.\<close>

definition put_inode :: "(nat \<Rightarrow> byte) \<Rightarrow> block_manager \<Rightarrow> u32 \<Rightarrow> inode option \<Rightarrow> block_manager" where
  "put_inode junk bm inum inode =
     (case inode of None \<Rightarrow> bm
      | Some ino \<Rightarrow>
          let b = IBLOCK inum (sb_nblocks (bm_sb bm));
              buf = read_block bm b (uninit junk BLOCK_SIZE)
          in write_block bm b (store_inode ino buf))"

text \<open>
  With \<^verbatim>\<open>IPB\<close> equal to 1 the offset \<^verbatim>\<open>(inum - 1) % IPB\<close> is always 0, so the block is re-read at
  every iteration and the inode starts at the beginning of the buffer.
\<close>

function alloc_inode_from :: "u32 \<Rightarrow> u32 \<Rightarrow> block_manager \<Rightarrow> byte list \<Rightarrow> nat \<Rightarrow> u32 \<times> block_manager" where
  "alloc_inode_from type now bm buf inum =
     (if inum < unat (sb_ninodes (bm_sb bm))
      then let b = IBLOCK (of_nat inum) (sb_nblocks (bm_sb bm));
               buf = (if (inum - 1) mod 1 = 0 then read_block bm b buf else buf);
               inode = load_inode buf
           in if i_type inode = 0
              then (of_nat inum,
                    write_block bm b (store_inode (inode\<lparr>i_type := ucast type, i_ctime := now\<rparr>) buf))
              else alloc_inode_from type now bm buf (Suc inum)
      else (1, bm))"
  by pat_completeness auto
termination
  by (relation "measure (\<lambda>(type, now, bm, buf, inum). unat (sb_ninodes (bm_sb bm)) - inum)") auto

declare alloc_inode_from.simps [simp del]

definition alloc_inode :: "(nat \<Rightarrow> byte) \<Rightarrow> u32 \<Rightarrow> block_manager \<Rightarrow> u32 \<Rightarrow> u32 \<times> block_manager" where
  "alloc_inode junk now bm type = alloc_inode_from type now bm (uninit junk BLOCK_SIZE) 1"

text \<open>\<^verbatim>\<open>if (!inode->type)\<close> is evaluated on the result of \<^verbatim>\<open>get_inode\<close> without a null check.\<close>

definition free_inode :: "(nat \<Rightarrow> byte) \<Rightarrow> block_manager \<Rightarrow> u32 \<Rightarrow> block_manager res" where
  "free_inode junk bm inum =
     (case get_inode junk bm inum of
        None \<Rightarrow> Inl Null_Deref
      | Some inode \<Rightarrow> if i_type inode = 0 then Inr bm
                      else Inr (put_inode junk bm inum (Some zero_inode)))"

text \<open>The constructor; \<open>None\<close> is \<^verbatim>\<open>exit(0)\<close>, taken when the first inode is not number 1.\<close>

definition inode_manager_init :: "(nat \<Rightarrow> byte) \<Rightarrow> u32 \<Rightarrow> block_manager option" where
  "inode_manager_init junk now =
     (let bm = block_manager_init junk;
          (root_dir, bm) = alloc_inode junk now bm 1 \<comment> \<open>\<^verbatim>\<open>extent_protocol::T_DIR\<close>\<close>
      in if root_dir \<noteq> 1 then None else Some bm)"

section \<open>Files\<close>

text \<open>
  The two loops of \<^verbatim>\<open>read_file\<close> have the same body; \<open>read_loop\<close> runs it over a list of block
  numbers.  \<open>rsize\<close> never exceeds 160 blocks, so the \<^verbatim>\<open>uint\<close> sums do not wrap.
\<close>

fun read_loop :: "block_manager \<Rightarrow> u32 list \<Rightarrow> nat \<Rightarrow> nat \<Rightarrow> byte list \<Rightarrow> byte list \<Rightarrow> nat \<times> byte list" where
  "read_loop bm [] fsize rsize res buf = (rsize, res)"
| "read_loop bm (b # bs) fsize rsize res buf =
     (if rsize < fsize
      then let toread = min BLOCK_SIZE (fsize - rsize) in
           if rsize + BLOCK_SIZE < fsize
           then let res = overlay res rsize (read_block bm b (take BLOCK_SIZE (drop rsize res)))
                in read_loop bm bs fsize (rsize + toread) res buf
           else let buf = read_block bm b buf;
                    res = overlay res rsize (take (fsize - rsize) buf)
                in read_loop bm bs fsize (rsize + toread) res buf
      else (rsize, res))"

text \<open>\<open>None\<close> is the early return, which leaves \<^verbatim>\<open>*buf_out\<close> and \<^verbatim>\<open>*size\<close> untouched.\<close>

definition read_file :: "(nat \<Rightarrow> byte) \<Rightarrow> u32 \<Rightarrow> block_manager \<Rightarrow> u32 \<Rightarrow> byte list option \<times> block_manager" where
  "read_file junk now bm inum =
     (case get_inode junk bm inum of
        None \<Rightarrow> (None, bm)
      | Some inode \<Rightarrow>
          let fsize = unat (i_size inode);
              buf = uninit junk BLOCK_SIZE;
              (rsize, res) = read_loop bm (take NDIRECT (i_blocks inode)) fsize 0 (uninit junk fsize) buf;
              res = (if rsize < fsize
                     then let indnum = load32s (read_block bm (i_blocks inode ! NDIRECT) (uninit junk BLOCK_SIZE)) 0 NINDIRECT
                          in snd (read_loop bm indnum fsize rsize res buf)
                     else res)
          in (Some res, put_inode junk bm inum (Some (inode\<lparr>i_atime := now, i_ctime := now\<rparr>))))"

text \<open>
  \<^verbatim>\<open>write_file\<close> in its three phases.  An indirect count above \<^verbatim>\<open>NINDIRECT\<close> indexes past the
  512-byte array \<^verbatim>\<open>indnum\<close>.
\<close>

definition free_file_blocks :: "(nat \<Rightarrow> byte) \<Rightarrow> block_manager \<Rightarrow> inode \<Rightarrow> block_manager res" where
  "free_file_blocks junk bm inode =
     (let osize = unat (BLOCKS (i_size inode));
          bm = foldl (free_block junk) bm (take (min osize NDIRECT) (i_blocks inode))
      in if NDIRECT < osize
         then let ind = osize - NDIRECT;
                  indnum = load32s (read_block bm (i_blocks inode ! NDIRECT) (uninit junk BLOCK_SIZE)) 0 NINDIRECT
              in if NINDIRECT < ind then Inl Out_Of_Bounds
                 else Inr (free_block junk (foldl (free_block junk) bm (take ind indnum)) (i_blocks inode ! NDIRECT))
         else Inr bm)"

definition alloc_file_blocks :: "(nat \<Rightarrow> byte) \<Rightarrow> block_manager \<Rightarrow> u32 list \<Rightarrow> nat \<Rightarrow> (u32 list \<times> block_manager) res" where
  "alloc_file_blocks junk bm bs nsize =
     (let (ds, bm) = repeat_alloc (alloc_block junk) (min nsize NDIRECT) bm;
          bs = overlay bs 0 ds
      in if NDIRECT < nsize
         then let (ib, bm) = alloc_block junk bm;
                  bs = bs[NDIRECT := ib];
                  indnum = replicate BLOCK_SIZE 0;
                  ind = nsize - NDIRECT
              in if NINDIRECT < ind then Inl Out_Of_Bounds
                 else let (xs, bm) = repeat_alloc (alloc_block junk) ind bm;
                          indnum = overlay indnum 0 (le32s xs)
                      in Inr (bs, write_block bm ib indnum)
         else Inr (bs, bm))"

fun write_loop :: "block_manager \<Rightarrow> u32 list \<Rightarrow> byte list \<Rightarrow> nat \<Rightarrow> nat \<Rightarrow> byte list \<Rightarrow> nat \<times> byte list \<times> block_manager" where
  "write_loop bm [] buf sz rsize block = (rsize, block, bm)"
| "write_loop bm (b # bs) buf sz rsize block =
     (if rsize < sz
      then let towrite = min BLOCK_SIZE (sz - rsize) in
           if BLOCK_SIZE < sz - rsize
           then write_loop (write_block bm b (take BLOCK_SIZE (drop rsize buf))) bs buf sz (rsize + towrite) block
           else let block = overlay block 0 (take (sz - rsize) (drop rsize buf))
                in write_loop (write_block bm b block) bs buf sz (rsize + towrite) block
      else (rsize, block, bm))"

definition write_file_blocks :: "(nat \<Rightarrow> byte) \<Rightarrow> block_manager \<Rightarrow> u32 list \<Rightarrow> byte list \<Rightarrow> nat \<Rightarrow> block_manager" where
  "write_file_blocks junk bm bs buf sz =
     (let (rsize, block, bm) = write_loop bm (take NDIRECT bs) buf sz 0 (uninit junk BLOCK_SIZE)
      in if rsize < sz
         then let indnum = load32s (read_block bm (bs ! NDIRECT) (uninit junk BLOCK_SIZE)) 0 NINDIRECT
              in snd (snd (write_loop bm indnum buf sz rsize block))
         else bm)"

text \<open>
  \<^verbatim>\<open>size\<close> is the length of the buffer (an \<^verbatim>\<open>int\<close>; buffers come from RPC messages, whose size is
  an \<^verbatim>\<open>int\<close> as well).
\<close>

definition write_file :: "(nat \<Rightarrow> byte) \<Rightarrow> u32 \<Rightarrow> block_manager \<Rightarrow> u32 \<Rightarrow> byte list \<Rightarrow> nat \<Rightarrow> block_manager res" where
  "write_file junk now bm inum buf sz =
     (case get_inode junk bm inum of
        None \<Rightarrow> Inl Null_Deref
      | Some inode \<Rightarrow>
          rbind (free_file_blocks junk bm inode) (\<lambda>bm.
          rbind (alloc_file_blocks junk bm (i_blocks inode) (unat (BLOCKS (of_nat sz)))) (\<lambda>(bs, bm).
          let bm = write_file_blocks junk bm bs buf sz
          in Inr (put_inode junk bm inum (Some (inode\<lparr>i_blocks := bs, i_size := of_nat sz,
                                                       i_mtime := now, i_ctime := now\<rparr>))))))"

definition remove_file :: "(nat \<Rightarrow> byte) \<Rightarrow> block_manager \<Rightarrow> u32 \<Rightarrow> block_manager res" where
  "remove_file junk bm inum =
     (case get_inode junk bm inum of
        None \<Rightarrow> Inr bm
      | Some inode \<Rightarrow>
          let bnum = unat (BLOCKS (i_size inode)) in
          rbind (if NDIRECT < bnum
                 then let indnum = load32s (read_block bm (i_blocks inode ! NDIRECT) (uninit junk BLOCK_SIZE)) 0 NINDIRECT
                      in if NINDIRECT < bnum - NDIRECT then Inl Out_Of_Bounds
                         else Inr (free_block junk (foldl (free_block junk) bm (take (bnum - NDIRECT) indnum))
                                     (i_blocks inode ! NDIRECT))
                 else Inr bm) (\<lambda>bm.
          free_inode junk (foldl (free_block junk) bm (take (min bnum NDIRECT) (i_blocks inode))) inum))"

text \<open>\<^verbatim>\<open>extent_protocol::attr\<close>; a missing inode leaves the caller's \<^verbatim>\<open>a\<close> as it was.\<close>

record attr =
  a_type :: u32
  a_atime :: u32
  a_mtime :: u32
  a_ctime :: u32
  a_size :: u32

definition im_getattr :: "(nat \<Rightarrow> byte) \<Rightarrow> block_manager \<Rightarrow> u32 \<Rightarrow> attr \<Rightarrow> attr" where
  "im_getattr junk bm inum a =
     (case get_inode junk bm inum of
        None \<Rightarrow> a
      | Some inode \<Rightarrow> \<lparr>a_type = scast (i_type inode), a_atime = i_atime inode,
                       a_mtime = i_mtime inode, a_ctime = i_ctime inode, a_size = i_size inode\<rparr>)"

section \<open>The image of an inode\<close>

lemma length_store_inode [simp]:
  "length b = BLOCK_SIZE \<Longrightarrow> length (i_blocks ino) = 33 \<Longrightarrow> length (store_inode ino b) = BLOCK_SIZE"
  by (simp add: store_inode_def)

lemma length_i_blocks_load [simp]: "length (i_blocks (load_inode b)) = 33"
  by (simp add: load_inode_def)

text \<open>An inode written to a block is read back unchanged.\<close>

lemma load_store_inode [mem_simps]:
  assumes "length b = BLOCK_SIZE" "length (i_blocks ino) = 33"
  shows "load_inode (store_inode ino b) = ino"
proof -
  define ws where "ws = i_size ino # i_atime ino # i_mtime ino # i_ctime ino # i_blocks ino"
  define b1 where "b1 = overlay b 0 (le16 (i_type ino))"
  have len: "length b1 = BLOCK_SIZE" "length ws = 37" using assms by (simp_all add: b1_def ws_def)
  have st: "store_inode ino b = overlay b1 4 (le32s ws)" by (simp add: store_inode_def b1_def ws_def)
  have w: "load32 (overlay b1 4 (le32s ws)) (4 + 4 * k) = ws ! k" if "k < 37" for k
    using that len by (simp add: load32_overlay_le32s)
  have t: "load16 (overlay b1 4 (le32s ws)) 0 = i_type ino"
    using len assms by (simp add: load_overlay_other) (simp add: b1_def load16_overlay_le16)
  have bl: "load32s (overlay b1 4 (le32s ws)) 20 33 = i_blocks ino"
  proof (rule nth_equalityI)
    fix k assume "k < length (load32s (overlay b1 4 (le32s ws)) 20 33)"
    then have k: "k < 33" by simp
    then have "load32s (overlay b1 4 (le32s ws)) 20 33 ! k = load32 (overlay b1 4 (le32s ws)) (4 + 4 * (k + 4))"
      by (simp add: add.commute)
    also have "\<dots> = ws ! (k + 4)" using k by (intro w) simp
    also have "\<dots> = i_blocks ino ! k" by (simp add: ws_def numeral_eq_Suc)
    finally show "load32s (overlay b1 4 (le32s ws)) 20 33 ! k = i_blocks ino ! k" .
  qed (use assms in simp)
  show ?thesis
    using w [of 0] w [of 1] w [of 2] w [of 3] t bl
    by (simp add: st load_inode_def) (simp add: ws_def)
qed

lemma load_zeros [simp]: "load_inode (replicate BLOCK_SIZE 0) = zero_inode"
  by (simp add: load_inode_def zero_inode_def load32s_def map_replicate_const)
     (auto simp: list_eq_iff_nth_eq)

end
