(* ===== verification/Inode_Files.thy ===== *)
theory Inode_Files
  imports Inode_Manager
begin

text \<open>
  Correctness of the inode layer.  The on-disk state is related to an abstract table of files
  (type, attributes and contents by inode number): the invariant \<open>fs_inv\<close> says that the blocks of
  the files are pairwise disjoint, lie in the data area and are exactly the allocated blocks, and
  each operation keeps it and acts on the table as its comment says.  Inode 1023 is outside the
  table: its block is the first block of the data area (see \<open>inode_table_overlap\<close>).
\<close>

section \<open>Observations\<close>

text \<open>Inode \<open>i\<close> lives in block \<open>i + 11\<close>.\<close>

abbreviation inode_at :: "block_manager \<Rightarrow> nat \<Rightarrow> inode" where
  "inode_at bm i \<equiv> load_inode (blk bm (i + 11))"

definition nblk :: "nat \<Rightarrow> nat" where
  "nblk n = (n + 511) div 512"

definition data_blocks :: "block_manager \<Rightarrow> inode \<Rightarrow> u32 list" where
  "data_blocks bm ino = take (nblk (unat (i_size ino)))
     (take NDIRECT (i_blocks ino) @ load32s (blk bm (unat (i_blocks ino ! NDIRECT))) 0 NINDIRECT)"

definition meta_blocks :: "inode \<Rightarrow> u32 list" where
  "meta_blocks ino = (if NDIRECT < nblk (unat (i_size ino)) then [i_blocks ino ! NDIRECT] else [])"

definition owned :: "block_manager \<Rightarrow> inode \<Rightarrow> u32 list" where
  "owned bm ino = data_blocks bm ino @ meta_blocks ino"

definition contents :: "block_manager \<Rightarrow> inode \<Rightarrow> byte list" where
  "contents bm ino = take (unat (i_size ino)) (concat (map (\<lambda>b. blk bm (unat b)) (data_blocks bm ino)))"

definition inum_ok :: "nat \<Rightarrow> bool" where
  "inum_ok i \<longleftrightarrow> 1 \<le> i \<and> i < 1023"

definition live :: "block_manager \<Rightarrow> nat \<Rightarrow> bool" where
  "live bm i \<longleftrightarrow> inum_ok i \<and> i_type (inode_at bm i) \<noteq> 0"

definition MAXFILE :: nat where
  "MAXFILE = (NDIRECT + NINDIRECT) * BLOCK_SIZE"

definition fs_inv :: "block_manager \<Rightarrow> bool" where
  "fs_inv bm \<longleftrightarrow> bm_wf bm
     \<and> (\<forall>i. live bm i \<longrightarrow> unat (i_size (inode_at bm i)) \<le> MAXFILE
          \<and> distinct (owned bm (inode_at bm i))
          \<and> unat ` set (owned bm (inode_at bm i)) \<subseteq> {1034..<BLOCK_NUM})
     \<and> (\<forall>i j. live bm i \<longrightarrow> live bm j \<longrightarrow> i \<noteq> j \<longrightarrow>
          set (owned bm (inode_at bm i)) \<inter> set (owned bm (inode_at bm j)) = {})
     \<and> used bm = {..<1034} \<union> (\<Union>i \<in> {i. live bm i}. unat ` set (owned bm (inode_at bm i)))
     \<and> (\<forall>i. inum_ok i \<longrightarrow> \<not> live bm i \<longrightarrow> inode_at bm i = zero_inode)"

text \<open>The abstract table of files.\<close>

record fentry =
  f_type :: u16
  f_atime :: u32
  f_mtime :: u32
  f_ctime :: u32
  f_data :: "byte list"

definition files :: "block_manager \<Rightarrow> nat \<Rightarrow> fentry option" where
  "files bm i = (if live bm i
     then Some \<lparr>f_type = i_type (inode_at bm i), f_atime = i_atime (inode_at bm i),
                f_mtime = i_mtime (inode_at bm i), f_ctime = i_ctime (inode_at bm i),
                f_data = contents bm (inode_at bm i)\<rparr>
     else None)"

definition free_count :: "block_manager \<Rightarrow> nat" where
  "free_count bm = card ({..<BLOCK_NUM} - used bm)"

text \<open>Blocks a file of \<open>n\<close> bytes occupies, its indirect block included.\<close>

definition blocks_needed :: "nat \<Rightarrow> nat" where
  "blocks_needed n = nblk n + (if NDIRECT < nblk n then 1 else 0)"

section \<open>Addresses\<close>

lemma unat_IBLOCK:
  assumes "unat i < INODE_NUM"
  shows "unat (IBLOCK i 32768) = unat i + 11"
proof -
  have "IBLOCK i 32768 = i + 11" by (simp add: IBLOCK_def)
  moreover have "unat i + 11 < 4294967296" using assms by simp
  ultimately show ?thesis by (simp add: unat_word_ariths)
qed

lemma unat_BLOCKS:
  assumes "n \<le> MAXFILE"
  shows "unat (BLOCKS (of_nat n)) = nblk n"
proof -
  have n: "n \<le> 81920" using assms by (simp add: MAXFILE_def)
  have "of_nat n + 512 - 1 = (of_nat (n + 511) :: u32)" by simp
  moreover have "unat (of_nat (n + 511) :: u32) = n + 511" using n by (simp del: of_nat_add)
  ultimately have "unat ((of_nat n + 512 - 1) :: u32) = n + 511" by (simp del: of_nat_add)
  then show ?thesis by (simp add: BLOCKS_def nblk_def unat_div)
qed

lemma unat_BLOCKS_word:
  "unat (w :: u32) \<le> MAXFILE \<Longrightarrow> unat (BLOCKS w) = nblk (unat w)"
  using unat_BLOCKS [of "unat w"] by simp

lemma nblk_le: "n \<le> MAXFILE \<Longrightarrow> nblk n \<le> 160"
  by (simp add: MAXFILE_def nblk_def)

lemma nblk_simps [simp]: "nblk 0 = 0" "0 < n \<Longrightarrow> n \<le> BLOCK_SIZE \<Longrightarrow> nblk n = 1"
  "BLOCK_SIZE < n \<Longrightarrow> nblk n = Suc (nblk (n - BLOCK_SIZE))"
  by (simp_all add: nblk_def)

lemma nblk_bound: "n \<le> BLOCK_SIZE * nblk n" "BLOCK_SIZE * nblk n < n + BLOCK_SIZE"
  by (simp_all add: nblk_def)

lemma fs_invD:
  assumes "fs_inv bm"
  shows "bm_wf bm"
    and "live bm i \<Longrightarrow> unat (i_size (inode_at bm i)) \<le> MAXFILE"
    and "live bm i \<Longrightarrow> distinct (owned bm (inode_at bm i))"
    and "live bm i \<Longrightarrow> unat ` set (owned bm (inode_at bm i)) \<subseteq> {1034..<BLOCK_NUM}"
    and "live bm i \<Longrightarrow> live bm j \<Longrightarrow> i \<noteq> j \<Longrightarrow>
          set (owned bm (inode_at bm i)) \<inter> set (owned bm (inode_at bm j)) = {}"
    and "used bm = {..<1034} \<union> (\<Union>i \<in> {i. live bm i}. unat ` set (owned bm (inode_at bm i)))"
    and "inum_ok i \<Longrightarrow> \<not> live bm i \<Longrightarrow> inode_at bm i = zero_inode"
  using assms unfolding fs_inv_def by simp_all

lemma bm_wf_len: "bm_wf bm \<Longrightarrow> b < BLOCK_NUM \<Longrightarrow> length (blk bm b) = BLOCK_SIZE"
  by (simp add: bm_wf_def)

lemma get_inode_at:
  assumes "bm_wf bm" "unat i < INODE_NUM"
  shows "get_inode junk bm i = (if i_type (inode_at bm (unat i)) = 0 then None else Some (inode_at bm (unat i)))"
proof -
  have "sb_nblocks (bm_sb bm) = 32768" using assms(1) by (simp add: bm_wf_def)
  moreover have "read_block bm (IBLOCK i 32768) (uninit junk BLOCK_SIZE) = blk bm (unat i + 11)"
    using read_block_in [OF assms(1), of "IBLOCK i 32768"] assms(2) by (simp add: unat_IBLOCK)
  ultimately show ?thesis using assms(2) by (simp add: get_inode_def Let_def)
qed

lemma get_inode_live:
  assumes "bm_wf bm" "live bm (unat i)"
  shows "get_inode junk bm i = Some (inode_at bm (unat i))"
  using assms get_inode_at [OF assms(1), of i] by (simp add: live_def inum_ok_def)

lemma put_inode_effect:
  assumes wf: "bm_wf bm" and i: "unat i < INODE_NUM" and len: "length (i_blocks ino) = 33"
  shows "blk (put_inode junk bm i (Some ino)) b =
           (if b = unat i + 11 then store_inode ino (blk bm b) else blk bm b)"
    and "bm_wf (put_inode junk bm i (Some ino))"
    and "used (put_inode junk bm i (Some ino)) = used bm"
    and "bm_sb (put_inode junk bm i (Some ino)) = bm_sb bm"
proof -
  have w: "unat (IBLOCK i 32768) = unat i + 11" using i by (rule unat_IBLOCK)
  have rd: "read_block bm (IBLOCK i 32768) (uninit junk BLOCK_SIZE) = blk bm (unat i + 11)"
    using read_block_in [OF wf, of "IBLOCK i 32768"] i w by simp
  have "sb_nblocks (bm_sb bm) = 32768" using wf by (simp add: bm_wf_def)
  with rd have eq: "put_inode junk bm i (Some ino) =
      write_block bm (IBLOCK i 32768) (store_inode ino (blk bm (unat i + 11)))"
    by (simp add: put_inode_def Let_def)
  have l: "length (store_inode ino (blk bm (unat i + 11))) = BLOCK_SIZE"
    using wf i len by (simp add: bm_wf_def)
  show "blk (put_inode junk bm i (Some ino)) b =
           (if b = unat i + 11 then store_inode ino (blk bm b) else blk bm b)" for b
    using eq w i l by (simp add: blk_write_block)
  show "bm_wf (put_inode junk bm i (Some ino))" using eq wf l by auto
  show "bm_sb (put_inode junk bm i (Some ino)) = bm_sb bm" using eq by simp
  have "blk (put_inode junk bm i (Some ino)) (b div BPB + 2) = blk bm (b div BPB + 2)" if "b < BLOCK_NUM" for b
  proof -
    have "b div BPB < 8" using that by auto
    then have "b div BPB + 2 \<noteq> unat i + 11" by simp
    then show ?thesis using eq w i l by (simp add: blk_write_block)
  qed
  then show "used (put_inode junk bm i (Some ino)) = used bm" by (auto simp: used_def)
qed

section \<open>Frame\<close>

text \<open>What is read of a file depends on its inode block and the blocks it owns only.\<close>

lemma data_blocks_cong:
  assumes "length (i_blocks ino) = 33"
    and "\<And>b. b \<in> set (meta_blocks ino) \<Longrightarrow> blk bm' (unat b) = blk bm (unat b)"
  shows "data_blocks bm' ino = data_blocks bm ino" "owned bm' ino = owned bm ino"
proof -
  show "data_blocks bm' ino = data_blocks bm ino"
    using assms by (cases "NDIRECT < nblk (unat (i_size ino))") (simp_all add: data_blocks_def meta_blocks_def)
  then show "owned bm' ino = owned bm ino" by (simp add: owned_def)
qed

lemma owned_cong:
  assumes "length (i_blocks ino) = 33"
    and "\<And>b. b \<in> set (owned bm ino) \<Longrightarrow> blk bm' (unat b) = blk bm (unat b)"
  shows "owned bm' ino = owned bm ino" "data_blocks bm' ino = data_blocks bm ino"
    "contents bm' ino = contents bm ino"
proof -
  show o: "owned bm' ino = owned bm ino" and d: "data_blocks bm' ino = data_blocks bm ino"
    using assms by (auto simp: owned_def intro!: data_blocks_cong)
  have "map (\<lambda>b. blk bm' (unat b)) (data_blocks bm ino) = map (\<lambda>b. blk bm (unat b)) (data_blocks bm ino)"
    using assms(2) by (simp add: owned_def)
  with d show "contents bm' ino = contents bm ino" by (simp only: contents_def)
qed

section \<open>Reading the blocks of a file\<close>

lemma read_loop_effect:
  assumes "bm_wf bm" "\<forall>b \<in> set bs. unat b < BLOCK_NUM" "length res = fsize" "length buf = BLOCK_SIZE"
    "rsize \<le> fsize"
  shows "\<exists>res'. read_loop bm bs fsize rsize res buf = (min fsize (rsize + BLOCK_SIZE * length bs), res')
    \<and> length res' = fsize
    \<and> take (min fsize (rsize + BLOCK_SIZE * length bs)) res' =
        take rsize res @ take (fsize - rsize) (concat (map (\<lambda>b. blk bm (unat b)) bs))"
  using assms
proof (induction bs arbitrary: rsize res buf)
  case Nil
  then show ?case by simp
next
  case (Cons b bs)
  have len: "length (blk bm (unat b)) = BLOCK_SIZE" and b: "unat b < BLOCK_NUM"
    using Cons.prems by (simp_all add: bm_wf_def)
  show ?case
  proof (cases "rsize < fsize")
    case False
    with Cons.prems(5) have "rsize = fsize" by simp
    with Cons.prems(3) show ?thesis by simp
  next
    case True
    define chunk where "chunk = take (fsize - rsize) (blk bm (unat b))"
    define r' where "r' = rsize + min BLOCK_SIZE (fsize - rsize)"
    define res1 where "res1 = overlay res rsize chunk"
    have lc: "length chunk = min BLOCK_SIZE (fsize - rsize)" using len by (simp add: chunk_def)
    have l1: "length res1 = fsize" using lc Cons.prems(3,5) by (simp add: res1_def)
    have t1: "take r' res1 = take rsize res @ chunk"
      using lc Cons.prems(3,5) True by (simp add: res1_def r'_def overlay_def)
    have step: "\<exists>buf'. length buf' = BLOCK_SIZE \<and>
        read_loop bm (b # bs) fsize rsize res buf = read_loop bm bs fsize r' res1 buf'"
    proof (cases "rsize + BLOCK_SIZE < fsize")
      case True
      then have "read_block bm b (take BLOCK_SIZE (drop rsize res)) = chunk"
        using Cons.prems(1,3) b len by (simp add: chunk_def)
      with True Cons.prems(4) show ?thesis
        by (intro exI [of _ buf]) (simp add: res1_def r'_def Let_def)
    next
      case False
      have "read_block bm b buf = blk bm (unat b)" using Cons.prems(1,4) b by simp
      with False True len show ?thesis
        by (intro exI [of _ "blk bm (unat b)"]) (simp add: res1_def r'_def chunk_def Let_def)
    qed
    then obtain buf' where b': "length buf' = BLOCK_SIZE"
      and eq: "read_loop bm (b # bs) fsize rsize res buf = read_loop bm bs fsize r' res1 buf'" by blast
    have r: "r' \<le> fsize" "min fsize (r' + BLOCK_SIZE * length bs) = min fsize (rsize + BLOCK_SIZE * length (b # bs))"
      using True by (auto simp: r'_def min_def)
    have c: "chunk @ take (fsize - r') (concat (map (\<lambda>b. blk bm (unat b)) bs))
        = take (fsize - rsize) (concat (map (\<lambda>b. blk bm (unat b)) (b # bs)))"
      using len by (simp add: chunk_def r'_def min_def)
    have bs: "\<forall>b \<in> set bs. unat b < BLOCK_NUM" using Cons.prems(2) by simp
    from Cons.IH [OF Cons.prems(1) bs l1 b' r(1)] show ?thesis
      unfolding eq r(2) t1 append_assoc c .
  qed
qed

section \<open>Writing the blocks of a file\<close>

text \<open>The blocks \<open>ds\<close> hold the bytes \<open>buf\<close>, the last one followed by leftovers.\<close>

fun holds_data :: "block_manager \<Rightarrow> u32 list \<Rightarrow> byte list \<Rightarrow> bool" where
  "holds_data bm [] buf \<longleftrightarrow> buf = []"
| "holds_data bm (d # ds) buf \<longleftrightarrow> buf \<noteq> [] \<and> take (length buf) (blk bm (unat d)) = take BLOCK_SIZE buf
     \<and> holds_data bm ds (drop BLOCK_SIZE buf)"

lemma holds_data_length: "holds_data bm ds buf \<Longrightarrow> length ds = nblk (length buf)"
proof (induction bm ds buf rule: holds_data.induct)
  case (2 bm d ds buf)
  then have "length ds = nblk (length buf - BLOCK_SIZE)" "0 < length buf" by simp_all
  then show ?case by (cases "length buf \<le> BLOCK_SIZE") simp_all
qed simp

lemma holds_data_concat:
  assumes "holds_data bm ds buf" "\<forall>d \<in> set ds. length (blk bm (unat d)) = BLOCK_SIZE"
  shows "take (length buf) (concat (map (\<lambda>b. blk bm (unat b)) ds)) = buf"
  using assms
proof (induction bm ds buf rule: holds_data.induct)
  case (2 bm d ds buf)
  then have IH: "take (length buf - BLOCK_SIZE) (concat (map (\<lambda>b. blk bm (unat b)) ds)) = drop BLOCK_SIZE buf"
    and "take (length buf) (blk bm (unat d)) = take BLOCK_SIZE buf" "length (blk bm (unat d)) = BLOCK_SIZE"
    by simp_all
  then have "take (length buf) (concat (map (\<lambda>b. blk bm (unat b)) (d # ds))) = take BLOCK_SIZE buf @ drop BLOCK_SIZE buf"
    by simp
  then show ?case by (simp only: append_take_drop_id)
qed simp

lemma holds_data_cong:
  "holds_data bm ds buf \<Longrightarrow> (\<And>d. d \<in> set ds \<Longrightarrow> blk bm' (unat d) = blk bm (unat d)) \<Longrightarrow> holds_data bm' ds buf"
  by (induction bm ds buf rule: holds_data.induct) auto

lemma used_write_block:
  assumes "10 \<le> unat d" "unat d < BLOCK_NUM"
  shows "used (write_block bm d b) = used bm"
proof -
  have "blk (write_block bm d b) (c div BPB + 2) = blk bm (c div BPB + 2)" if "c < BLOCK_NUM" for c
  proof -
    have "c div BPB < 8" using that by auto
    then show ?thesis using assms by (simp add: blk_write_block)
  qed
  then show ?thesis by (auto simp: used_def)
qed

text \<open>One iteration stores the next chunk and moves on.\<close>

lemma write_loop_step:
  assumes "rsize < length buf" "length block = BLOCK_SIZE"
  shows "\<exists>block1 img. length block1 = BLOCK_SIZE \<and> length img = BLOCK_SIZE
    \<and> take (length buf - rsize) img = take BLOCK_SIZE (drop rsize buf)
    \<and> write_loop bm (d # ds) buf (length buf) rsize block =
       write_loop (write_block bm d img) ds buf (length buf) (rsize + min BLOCK_SIZE (length buf - rsize)) block1"
proof (cases "BLOCK_SIZE < length buf - rsize")
  case True
  then show ?thesis using assms
    by (intro exI [of _ block] exI [of _ "take BLOCK_SIZE (drop rsize buf)"]) (simp add: Let_def)
next
  case False
  let ?b = "overlay block 0 (take (length buf - rsize) (drop rsize buf))"
  from False assms have "length ?b = BLOCK_SIZE" "take (length buf - rsize) ?b = take BLOCK_SIZE (drop rsize buf)"
    by (simp_all add: overlay_def)
  with False assms show ?thesis
    by (intro exI [of _ ?b]) (simp add: Let_def)
qed

lemma write_loop_effect:
  assumes "bm_wf bm" "distinct ds" "\<forall>d \<in> set ds. 10 \<le> unat d \<and> unat d < BLOCK_NUM"
    "length block = BLOCK_SIZE" "rsize \<le> length buf"
  shows "\<exists>block' bm'. write_loop bm ds buf (length buf) rsize block =
        (min (length buf) (rsize + BLOCK_SIZE * length ds), block', bm')
    \<and> bm_wf bm' \<and> bm_sb bm' = bm_sb bm \<and> used bm' = used bm \<and> length block' = BLOCK_SIZE
    \<and> (\<forall>b. b \<notin> unat ` set ds \<longrightarrow> blk bm' b = blk bm b)
    \<and> holds_data bm' (take (nblk (length buf - rsize)) ds) (take (BLOCK_SIZE * length ds) (drop rsize buf))"
  using assms
proof (induction ds arbitrary: bm rsize block)
  case Nil
  then show ?case by simp
next
  case (Cons d ds)
  show ?case
  proof (cases "rsize < length buf")
    case False
    with Cons.prems(5) have "rsize = length buf" by simp
    with Cons.prems(1,4) show ?thesis by simp
  next
    case True
    define r1 where "r1 = rsize + min BLOCK_SIZE (length buf - rsize)"
    define rem where "rem = drop rsize buf"
    obtain block1 img where b1: "length block1 = BLOCK_SIZE" and img: "length img = BLOCK_SIZE"
      "take (length rem) img = take BLOCK_SIZE rem"
      and eq: "write_loop bm (d # ds) buf (length buf) rsize block =
        write_loop (write_block bm d img) ds buf (length buf) r1 block1"
      using write_loop_step [OF True Cons.prems(4), of bm d ds] by (auto simp: r1_def rem_def)
    have d: "10 \<le> unat d" "unat d < BLOCK_NUM" "unat d \<notin> unat ` set ds" using Cons.prems(2,3) by simp_all
    have r1: "r1 \<le> length buf" "min (length buf) (r1 + BLOCK_SIZE * length ds) = min (length buf) (rsize + BLOCK_SIZE * length (d # ds))"
      using True by (auto simp: r1_def min_def)
    have nb: "take (nblk (length buf - rsize)) (d # ds) = d # take (nblk (length buf - r1)) ds"
      using True by (cases "length buf - rsize \<le> BLOCK_SIZE") (simp_all add: r1_def)
    have rm: "drop r1 buf = drop BLOCK_SIZE rem" by (auto simp: r1_def rem_def min_def add.commute)
    have wf: "bm_wf (write_block bm d img)" using Cons.prems(1) img by auto
    from Cons.IH [OF wf _ _ b1 r1(1)] Cons.prems(2,3) obtain block' bm' where
      res: "write_loop (write_block bm d img) ds buf (length buf) r1 block1 =
        (min (length buf) (r1 + BLOCK_SIZE * length ds), block', bm')"
      and post: "bm_wf bm'" "bm_sb bm' = bm_sb bm" "used bm' = used (write_block bm d img)" "length block' = BLOCK_SIZE"
      and fr: "\<forall>b. b \<notin> unat ` set ds \<longrightarrow> blk bm' b = blk (write_block bm d img) b"
      and hd: "holds_data bm' (take (nblk (length buf - r1)) ds) (take (BLOCK_SIZE * length ds) (drop BLOCK_SIZE rem))"
      by (auto simp: rm)
    have "blk bm' (unat d) = img" using fr d img by (simp add: blk_write_block)
    then have "take (min (BLOCK_SIZE * length (d # ds)) (length rem)) (blk bm' (unat d)) = take BLOCK_SIZE rem"
      using img by (cases "length rem \<le> BLOCK_SIZE") (auto simp: min_def)
    with True hd have "holds_data bm' (d # take (nblk (length buf - r1)) ds) (take (BLOCK_SIZE * length (d # ds)) rem)"
      by (simp add: rem_def drop_take min.commute)
    moreover have "\<forall>b. b \<notin> unat ` set (d # ds) \<longrightarrow> blk bm' b = blk bm b"
      using fr d by (simp add: blk_write_block)
    ultimately show ?thesis
      using eq res post r1(2) nb used_write_block [OF d(1,2)] by (simp add: rem_def)
  qed
qed

text \<open>The loops look at no more block numbers than the size needs.\<close>

lemma write_loop_take:
  "write_loop bm ds buf sz rsize block = write_loop bm (take (nblk (sz - rsize)) ds) buf sz rsize block"
proof (induction bm ds buf sz rsize block rule: write_loop.induct)
  case (2 bm b bs buf sz rsize block)
  show ?case
  proof (cases "rsize < sz")
    case True
    then show ?thesis
      using "2.IH" by (cases "BLOCK_SIZE < sz - rsize") (simp_all add: Let_def)
  qed simp
qed simp

lemma read_loop_take:
  "read_loop bm ds fsize rsize res buf = read_loop bm (take (nblk (fsize - rsize)) ds) fsize rsize res buf"
proof (induction bm ds fsize rsize res buf rule: read_loop.induct)
  case (2 bm b bs fsize rsize res buf)
  show ?case
  proof (cases "rsize < fsize")
    case True
    then show ?thesis
      using "2.IH" by (cases "rsize + BLOCK_SIZE < fsize") (simp_all add: Let_def)
  qed simp
qed simp

section \<open>The blocks of a file\<close>

lemma owned_small:
  assumes "length (i_blocks ino) = 33" "nblk (unat (i_size ino)) \<le> NDIRECT"
  shows "data_blocks bm ino = take (nblk (unat (i_size ino))) (i_blocks ino)" "meta_blocks ino = []"
  using assms by (simp_all add: data_blocks_def meta_blocks_def)

lemma owned_large:
  assumes "length (i_blocks ino) = 33" "NDIRECT < nblk (unat (i_size ino))"
  shows "data_blocks bm ino = take NDIRECT (i_blocks ino) @
           take (nblk (unat (i_size ino)) - NDIRECT) (load32s (blk bm (unat (i_blocks ino ! NDIRECT))) 0 NINDIRECT)"
    "meta_blocks ino = [i_blocks ino ! NDIRECT]"
  using assms by (simp_all add: data_blocks_def meta_blocks_def)

lemma payload_blk: "payload bm' = payload bm \<Longrightarrow> 10 \<le> b \<Longrightarrow> blk bm' b = blk bm b"
  by (simp add: payload_eq_iff)

lemma free_file_blocks_effect:
  assumes wf: "bm_wf bm" and sz: "unat (i_size ino) \<le> MAXFILE" and len: "length (i_blocks ino) = 33"
    and own: "unat ` set (owned bm ino) \<subseteq> {1034..<BLOCK_NUM}"
  shows "\<exists>bm'. free_file_blocks junk bm ino = Inr bm' \<and> used bm' = used bm - unat ` set (owned bm ino)
    \<and> payload bm' = payload bm \<and> bm_wf bm'"
proof -
  define n where "n = nblk (unat (i_size ino))"
  have n: "unat (BLOCKS (i_size ino)) = n" "n \<le> 160" using sz by (simp_all add: n_def unat_BLOCKS_word nblk_le)
  define bm1 where "bm1 = foldl (free_block junk) bm (take (min n NDIRECT) (i_blocks ino))"
  have r: "10 < unat b \<and> unat b < BLOCK_NUM" if "b \<in> set (owned bm ino)" for b
    using own that by auto
  show ?thesis
  proof (cases "NDIRECT < n")
    case False
    then have o: "owned bm ino = take n (i_blocks ino)"
      using owned_small [OF len] by (simp add: owned_def n_def)
    with False have "free_file_blocks junk bm ino = Inr (foldl (free_block junk) bm (owned bm ino))"
      using n by (simp add: free_file_blocks_def)
    then show ?thesis using ba.free_many [OF wf, of "owned bm ino" junk] r by simp
  next
    case True
    let ?ib = "i_blocks ino ! NDIRECT"
    let ?xs = "take (n - NDIRECT) (load32s (blk bm (unat ?ib)) 0 NINDIRECT)"
    have o: "owned bm ino = take NDIRECT (i_blocks ino) @ ?xs @ [?ib]"
      using owned_large [OF len] True by (simp add: owned_def n_def)
    have ib: "1034 \<le> unat ?ib" "unat ?ib < BLOCK_NUM" using own o by auto
    have f1: "used bm1 = used bm - unat ` set (take NDIRECT (i_blocks ino))" "payload bm1 = payload bm" "bm_wf bm1"
      using ba.free_many [OF wf, of "take NDIRECT (i_blocks ino)" junk] r True by (simp_all add: bm1_def o)
    have rd: "read_block bm1 ?ib (uninit junk BLOCK_SIZE) = blk bm (unat ?ib)"
      using read_block_in [OF f1(3) ib(2)] payload_blk [OF f1(2)] ib by simp
    have bm1: "foldl (free_block junk) bm (take NDIRECT (i_blocks ino)) = bm1" "\<not> NINDIRECT < n - NDIRECT"
      using True n by (simp_all add: bm1_def)
    then have "free_file_blocks junk bm ino = Inr (foldl (free_block junk) bm1 (?xs @ [?ib]))"
      using True n(1) rd by (simp add: free_file_blocks_def Let_def)
    then show ?thesis
      using ba.free_many [OF f1(3), of "?xs @ [?ib]" junk] r f1 by (auto simp: o)
  qed
qed

lemma alloc_file_blocks_small:
  assumes wf: "bm_wf bm" and len: "length bs = 33" and n: "n \<le> NDIRECT" "n \<le> free_count bm"
  shows "\<exists>bm' ds. alloc_file_blocks junk bm bs n = Inr (overlay bs 0 ds, bm') \<and> length ds = n \<and> distinct ds
    \<and> unat ` set ds \<subseteq> {..<BLOCK_NUM} - used bm \<and> used bm' = used bm \<union> unat ` set ds
    \<and> payload bm' = payload bm \<and> bm_wf bm'"
proof -
  obtain ds bm' where r: "repeat_alloc (alloc_block junk) n bm = (ds, bm')" by force
  from ba.alloc_many [OF wf _ r] n show ?thesis
    by (intro exI [of _ bm'] exI [of _ ds]) (simp add: alloc_file_blocks_def free_count_def r)
qed

lemma alloc_file_blocks_large:
  assumes wf: "bm_wf bm" and len: "length bs = 33" and n: "NDIRECT < n" "n \<le> 160" "Suc n \<le> free_count bm"
    and res: "{..<1034} \<subseteq> used bm"
  shows "\<exists>bm' ds ib xs. alloc_file_blocks junk bm bs n = Inr ((overlay bs 0 ds)[NDIRECT := ib], bm')
    \<and> length ds = NDIRECT \<and> length xs = n - NDIRECT \<and> distinct (ds @ xs @ [ib])
    \<and> unat ` set (ds @ xs @ [ib]) \<subseteq> {..<BLOCK_NUM} - used bm
    \<and> used bm' = used bm \<union> unat ` set (ds @ xs @ [ib])
    \<and> (\<forall>b. b < 2 \<or> 10 \<le> b \<longrightarrow> b \<noteq> unat ib \<longrightarrow> blk bm' b = blk bm b)
    \<and> take (n - NDIRECT) (load32s (blk bm' (unat ib)) 0 NINDIRECT) = xs
    \<and> bm_sb bm' = bm_sb bm \<and> bm_wf bm'"
proof -
  have c: "n + 1 \<le> card ({..<BLOCK_NUM} - used bm)" using n by (simp add: free_count_def)
  obtain ds bm1 where r1: "repeat_alloc (alloc_block junk) NDIRECT bm = (ds, bm1)" by force
  obtain ib bm2 where r2: "alloc_block junk bm1 = (ib, bm2)" by force
  obtain xs bm3 where r3: "repeat_alloc (alloc_block junk) (n - NDIRECT) bm2 = (xs, bm3)" by force
  have "NDIRECT \<le> card ({..<BLOCK_NUM} - used bm)" using c n by linarith
  note a1 = ba.alloc_manyD [OF wf this r1]
  have r2': "repeat_alloc (alloc_block junk) 1 bm1 = ([ib], bm2)" using r2 by simp
  have "1 \<le> card ({..<BLOCK_NUM} - used bm1)" using c n a1(7) by linarith
  note a2 = ba.alloc_manyD [OF a1(6) this r2']
  have "n - NDIRECT \<le> card ({..<BLOCK_NUM} - used bm2)" using c n a1(7) a2(7) by linarith
  note a3 = ba.alloc_manyD [OF a2(6) this r3]
  define img where "img = overlay (replicate BLOCK_SIZE 0) 0 (le32s xs)"
  define bm' where "bm' = write_block bm3 ib img"
  have img: "length img = BLOCK_SIZE" using a3(1) n by (simp add: img_def)
  have "\<not> unat ib < 1034" "unat ib < BLOCK_NUM" using a2(3) a1(4) res by auto
  then have ib: "10 \<le> unat ib" "unat ib < BLOCK_NUM" by simp_all
  have "alloc_file_blocks junk bm bs n = Inr ((overlay bs 0 ds)[NDIRECT := ib], bm')"
    using n r1 r2 r3 by (simp add: alloc_file_blocks_def bm'_def img_def Let_def)
  moreover have "distinct (ds @ xs @ [ib])"
    using a1(2,4) a2(3,4) a3(2,3) by auto
  moreover have "unat ` set (ds @ xs @ [ib]) \<subseteq> {..<BLOCK_NUM} - used bm"
    using a1(3,4) a2(3,4) a3(3) by auto
  moreover have "used bm' = used bm \<union> unat ` set (ds @ xs @ [ib])"
    using used_write_block [OF ib] a1(4) a2(4) a3(4) by (auto simp: bm'_def)
  moreover have "\<forall>b. b < 2 \<or> 10 \<le> b \<longrightarrow> b \<noteq> unat ib \<longrightarrow> blk bm' b = blk bm b"
    using a1(5) a2(5) a3(5) ib by (simp add: bm'_def blk_write_block payload_eq_iff)
  moreover have "load32s (blk bm' (unat ib)) 0 (n - NDIRECT) = xs"
    using ib img a3(1) n by (simp add: bm'_def blk_write_block) (simp add: img_def load32s_overlay_le32s)
  then have "take (n - NDIRECT) (load32s (blk bm' (unat ib)) 0 NINDIRECT) = xs"
    using n by (simp add: load32s_def take_map)
  moreover have "bm_sb bm' = bm_sb bm" using a1(5) a2(5) a3(5) by (simp add: bm'_def payload_eq_iff)
  moreover have "bm_wf bm'" using a3(6) img by (auto simp: bm'_def)
  ultimately show ?thesis using a1(1) a3(1)
    by (intro exI [of _ bm'] exI [of _ ds] exI [of _ ib] exI [of _ xs] conjI) assumption+
qed

lemma alloc_file_blocks_effect:
  assumes wf: "bm_wf bm" and res: "{..<1034} \<subseteq> used bm" and len: "length (i_blocks ino) = 33"
    and sz: "sz \<le> MAXFILE" "blocks_needed sz \<le> free_count bm"
  shows "\<exists>bs bm'. alloc_file_blocks junk bm (i_blocks ino) (nblk sz) = Inr (bs, bm') \<and> length bs = 33
    \<and> bm_wf bm' \<and> bm_sb bm' = bm_sb bm
    \<and> (\<forall>ino'. i_blocks ino' = bs \<longrightarrow> i_size ino' = of_nat sz \<longrightarrow>
         distinct (owned bm' ino') \<and> unat ` set (owned bm' ino') \<subseteq> {..<BLOCK_NUM} - used bm
         \<and> used bm' = used bm \<union> unat ` set (owned bm' ino')
         \<and> (\<forall>b. b < 2 \<or> 10 \<le> b \<longrightarrow> b \<notin> unat ` set (meta_blocks ino') \<longrightarrow> blk bm' b = blk bm b))"
proof -
  have n: "nblk sz \<le> 160" using sz(1) by (rule nblk_le)
  have u: "unat (of_nat sz :: u32) = sz" using sz(1) by (simp add: MAXFILE_def)
  show ?thesis
  proof (cases "NDIRECT < nblk sz")
    case False
    then obtain bm' ds where a: "alloc_file_blocks junk bm (i_blocks ino) (nblk sz) = Inr (overlay (i_blocks ino) 0 ds, bm')"
      and d: "length ds = nblk sz" "distinct ds" "unat ` set ds \<subseteq> {..<BLOCK_NUM} - used bm"
        "used bm' = used bm \<union> unat ` set ds" "payload bm' = payload bm" "bm_wf bm'"
      using alloc_file_blocks_small [OF wf len, of "nblk sz" junk] sz(2) by (auto simp: blocks_needed_def not_less)
    have "owned bm' ino' = ds \<and> meta_blocks ino' = []"
      if "i_blocks ino' = overlay (i_blocks ino) 0 ds" "i_size ino' = of_nat sz" for ino'
      using that d(1) False len u owned_small(1) [of ino' bm'] owned_small(2) [of ino'] by (simp add: owned_def) (simp add: overlay_def)
    with a d len False show ?thesis
      by (intro exI [of _ "overlay (i_blocks ino) 0 ds"] exI [of _ bm']) (simp add: payload_eq_iff)
  next
    case True
    then have "Suc (nblk sz) \<le> free_count bm" using sz(2) by (simp add: blocks_needed_def)
    from alloc_file_blocks_large [OF wf len True n this res, of junk] obtain bm' ds ib xs where
      a: "alloc_file_blocks junk bm (i_blocks ino) (nblk sz) = Inr ((overlay (i_blocks ino) 0 ds)[NDIRECT := ib], bm')"
      and d: "length ds = NDIRECT" "length xs = nblk sz - NDIRECT" "distinct (ds @ xs @ [ib])"
        "unat ` set (ds @ xs @ [ib]) \<subseteq> {..<BLOCK_NUM} - used bm"
        "used bm' = used bm \<union> unat ` set (ds @ xs @ [ib])"
        "\<forall>b. b < 2 \<or> 10 \<le> b \<longrightarrow> b \<noteq> unat ib \<longrightarrow> blk bm' b = blk bm b"
        "take (nblk sz - NDIRECT) (load32s (blk bm' (unat ib)) 0 NINDIRECT) = xs"
        "bm_sb bm' = bm_sb bm" "bm_wf bm'"
      by (elim exE conjE) (rule that)
    define bs where "bs = (overlay (i_blocks ino) 0 ds)[NDIRECT := ib]"
    have bs: "length bs = 33" "take NDIRECT bs = ds" "bs ! NDIRECT = ib"
      using d(1) len by (simp_all add: bs_def overlay_def)
    have "owned bm' ino' = ds @ xs @ [ib] \<and> meta_blocks ino' = [ib]"
      if "i_blocks ino' = bs" "i_size ino' = of_nat sz" for ino'
      using that d(7) True bs u owned_large(1) [of ino' bm'] owned_large(2) [of ino'] by (simp add: owned_def)
    with a d bs show ?thesis
      by (intro exI [of _ bs] exI [of _ bm']) (simp add: bs_def [symmetric])
  qed
qed

lemma holds_data_append:
  "holds_data bm ds1 (take (BLOCK_SIZE * length ds1) buf) \<Longrightarrow> BLOCK_SIZE * length ds1 \<le> length buf \<Longrightarrow>
   \<forall>d \<in> set ds1. length (blk bm (unat d)) = BLOCK_SIZE \<Longrightarrow>
   holds_data bm ds2 (drop (BLOCK_SIZE * length ds1) buf) \<Longrightarrow> holds_data bm (ds1 @ ds2) buf"
proof (induction ds1 arbitrary: buf)
  case (Cons d ds1)
  let ?b = "drop BLOCK_SIZE buf"
  have "drop BLOCK_SIZE (take (BLOCK_SIZE * length (d # ds1)) buf) = take (BLOCK_SIZE * length ds1) ?b"
    by (simp add: drop_take)
  with Cons.prems have "holds_data bm (ds1 @ ds2) ?b"
    by (intro Cons.IH) (simp_all add: add.commute)
  moreover have "take (length buf) (blk bm (unat d)) = take BLOCK_SIZE buf"
    using Cons.prems by (auto simp: min_def split: if_splits)
  ultimately show ?case using Cons.prems(2) by auto
qed simp

lemma write_file_blocks_effect:
  assumes wf: "bm_wf bm" and len: "length (i_blocks ino) = 33" and sz: "i_size ino = of_nat (length buf)"
    "length buf \<le> MAXFILE"
    and own: "distinct (owned bm ino)" "unat ` set (owned bm ino) \<subseteq> {1034..<BLOCK_NUM}"
    and bm': "bm' = write_file_blocks junk bm (i_blocks ino) buf (length buf)"
  shows "bm_wf bm' \<and> bm_sb bm' = bm_sb bm \<and> used bm' = used bm
    \<and> (\<forall>b. b \<notin> unat ` set (data_blocks bm ino) \<longrightarrow> blk bm' b = blk bm b)
    \<and> holds_data bm' (data_blocks bm ino) buf"
proof -
  define n where "n = nblk (length buf)"
  have u: "unat (i_size ino) = length buf" using sz by (simp add: MAXFILE_def)
  have dr: "\<forall>d \<in> set (data_blocks bm ino). 10 \<le> unat d \<and> unat d < BLOCK_NUM" and dd: "distinct (data_blocks bm ino)"
    using own by (auto simp: owned_def)
  define ds1 where "ds1 = take (min n NDIRECT) (i_blocks ino)"
  have tk: "take (nblk (length buf - 0)) (take NDIRECT (i_blocks ino)) = ds1"
    by (simp add: ds1_def n_def)
  have l1: "length ds1 = min n NDIRECT" using len by (simp add: ds1_def)
  show ?thesis
  proof (cases "NDIRECT < n")
    case False
    then have d1: "ds1 = data_blocks bm ino" using owned_small(1) [OF len, of bm] u by (simp add: ds1_def n_def)
    have full: "min (length buf) (0 + BLOCK_SIZE * length ds1) = length buf"
      using l1 False nblk_bound(1) [of "length buf"] by (simp add: n_def)
    from write_loop_effect [OF wf dd dr, of "uninit junk BLOCK_SIZE" 0 buf] full d1 obtain block1 bm1 where
      w: "write_loop bm ds1 buf (length buf) 0 (uninit junk BLOCK_SIZE) = (length buf, block1, bm1)"
      and post: "bm_wf bm1" "bm_sb bm1 = bm_sb bm" "used bm1 = used bm" "length block1 = BLOCK_SIZE"
        "\<forall>b. b \<notin> unat ` set ds1 \<longrightarrow> blk bm1 b = blk bm b"
        "holds_data bm1 (take (nblk (length buf)) ds1) (take (BLOCK_SIZE * length ds1) buf)"
      by auto
    have "bm' = bm1"
      unfolding bm' write_file_blocks_def write_loop_take [of bm "take NDIRECT (i_blocks ino)"] tk
      by (simp add: w)
    moreover have "take (nblk (length buf)) ds1 = ds1" "take (BLOCK_SIZE * length ds1) buf = buf"
      using l1 False full by (simp_all add: n_def)
    ultimately show ?thesis using post d1 by simp
  next
    case True
    define ds2 where "ds2 = take (n - NDIRECT) (load32s (blk bm (unat (i_blocks ino ! NDIRECT))) 0 NINDIRECT)"
    have o: "data_blocks bm ino = ds1 @ ds2" "meta_blocks ino = [i_blocks ino ! NDIRECT]"
      using owned_large(1) [OF len, of bm] owned_large(2) [OF len] True u by (simp_all add: ds1_def ds2_def n_def)
    have ib: "unat (i_blocks ino ! NDIRECT) < BLOCK_NUM" "i_blocks ino ! NDIRECT \<notin> set ds1"
      using own o by (auto simp: owned_def)
    have l2: "length ds2 = n - NDIRECT" using nblk_le [OF sz(2)] by (simp add: ds2_def n_def)
    have b1: "BLOCK_SIZE * length ds1 = 16384" "16384 < length buf"
      using l1 True nblk_bound(2) [of "length buf"] by (simp_all add: n_def)
    then have full: "min (length buf) (0 + BLOCK_SIZE * length ds1) = 16384" by simp
    have r1: "\<forall>d \<in> set ds1. 10 \<le> unat d \<and> unat d < BLOCK_NUM" "distinct ds1"
      and r2: "\<forall>d \<in> set ds2. 10 \<le> unat d \<and> unat d < BLOCK_NUM" "distinct ds2" "set ds1 \<inter> set ds2 = {}"
      using dr dd by (simp_all add: o)
    from write_loop_effect [OF wf r1(2,1), of "uninit junk BLOCK_SIZE" 0 buf] full obtain block1 bm1 where
      w: "write_loop bm ds1 buf (length buf) 0 (uninit junk BLOCK_SIZE) = (16384, block1, bm1)"
      and post1: "bm_wf bm1" "bm_sb bm1 = bm_sb bm" "used bm1 = used bm" "length block1 = BLOCK_SIZE"
        "\<forall>b. b \<notin> unat ` set ds1 \<longrightarrow> blk bm1 b = blk bm b"
        "holds_data bm1 (take (nblk (length buf)) ds1) (take (BLOCK_SIZE * length ds1) buf)"
      by auto
    have n2: "nblk (length buf - 16384) = n - NDIRECT" using b1 by (simp add: n_def nblk_def)
    have rd: "read_block bm1 (i_blocks ino ! NDIRECT) (uninit junk BLOCK_SIZE) = blk bm (unat (i_blocks ino ! NDIRECT))"
      using read_block_in [OF post1(1) ib(1)] post1(5) ib by simp
    have le: "16384 \<le> length buf" using b1 by simp
    have full2: "min (length buf) (16384 + BLOCK_SIZE * length ds2) = length buf"
      using l2 True nblk_bound(1) [of "length buf"] by (simp add: n_def)
    from write_loop_effect [OF post1(1) r2(2,1) post1(4) le] full2 obtain block2 bm2 where
      w2: "write_loop bm1 ds2 buf (length buf) 16384 block1 = (length buf, block2, bm2)"
      and post2: "bm_wf bm2" "bm_sb bm2 = bm_sb bm1" "used bm2 = used bm1"
        "\<forall>b. b \<notin> unat ` set ds2 \<longrightarrow> blk bm2 b = blk bm1 b"
        "holds_data bm2 (take (nblk (length buf - 16384)) ds2) (take (BLOCK_SIZE * length ds2) (drop 16384 buf))"
      by auto
    have "write_loop bm1 (load32s (blk bm (unat (i_blocks ino ! NDIRECT))) 0 NINDIRECT) buf (length buf) 16384 block1
        = (length buf, block2, bm2)"
      unfolding write_loop_take [of bm1 "load32s _ _ _"] n2 ds2_def [symmetric] by (rule w2)
    then have "bm' = bm2"
      unfolding bm' write_file_blocks_def write_loop_take [of bm "take NDIRECT (i_blocks ino)"] tk
      using b1(2) by (simp add: w rd)
    moreover have "holds_data bm2 ds1 (take (BLOCK_SIZE * length ds1) buf)"
    proof (rule holds_data_cong)
      show "holds_data bm1 ds1 (take (BLOCK_SIZE * length ds1) buf)" using post1(6) l1 by (simp add: n_def)
      show "blk bm2 (unat d) = blk bm1 (unat d)" if "d \<in> set ds1" for d
      proof -
        have "unat d \<notin> unat ` set ds2" using that r2(3) by auto
        with post2(4) show ?thesis by blast
      qed
    qed
    then have "holds_data bm2 (ds1 @ ds2) buf"
    proof (rule holds_data_append)
      show "\<forall>d \<in> set ds1. length (blk bm2 (unat d)) = BLOCK_SIZE" using post2(1) r1 by (simp add: bm_wf_def)
      show "holds_data bm2 ds2 (drop (BLOCK_SIZE * length ds1) buf)"
        using post2(5) n2 l2 full2 b1 by simp
    qed (use b1 in simp)
    moreover have "blk bm2 b = blk bm b" if "b \<notin> unat ` set (data_blocks bm ino)" for b
      using that post1(5) post2(4) by (simp add: o image_Un)
    ultimately show ?thesis using post1(2,3) post2(1-3) by (simp add: o)
  qed
qed

end
