(* ===== verification/Inode_Correct.thy ===== *)
theory Inode_Correct
  imports Inode_Files
begin

text \<open>
  Each operation of the inode manager as a function on the abstract table of files, under the
  invariant \<open>fs_inv\<close>: allocation, writing, reading, removal, attributes and formatting.
\<close>

section \<open>Changing one inode\<close>

definition others :: "block_manager \<Rightarrow> nat \<Rightarrow> nat set" where
  "others bm i = (\<Union>j \<in> {j. live bm j \<and> j \<noteq> i}. unat ` set (owned bm (inode_at bm j)))"

text \<open>The blocks owned through inode \<open>i\<close>: none if the inode is free.\<close>

definition owns :: "block_manager \<Rightarrow> nat \<Rightarrow> nat set" where
  "owns bm i = (if live bm i then unat ` set (owned bm (inode_at bm i)) else {})"

lemma UN_live: "(\<Union>j \<in> {j. live bm j}. unat ` set (owned bm (inode_at bm j))) = others bm i \<union> owns bm i"
  by (auto simp: others_def owns_def)

lemma used_split: "fs_inv bm \<Longrightarrow> used bm = {..<1034} \<union> others bm i \<union> owns bm i"
  using fs_invD(6) [of bm] UN_live [of bm i] by (metis Un_assoc)

lemma others_owns_disjoint: "fs_inv bm \<Longrightarrow> others bm i \<inter> owns bm i = {}"
  using fs_invD(5) [of bm _ i] by (auto simp: others_def owns_def disjoint_iff word_unat_eq_iff [symmetric])

lemma others_bound: "fs_inv bm \<Longrightarrow> others bm i \<subseteq> {1034..<BLOCK_NUM}"
  using fs_invD(4) [of bm] by (auto simp: others_def)

text \<open>
  An operation on inode \<open>i\<close> that leaves every other inode block and every block owned by another
  inode as it was: the invariant is re-established from facts about \<open>i\<close> alone, and all other files
  are unchanged.
\<close>

lemma fs_inv_change:
  assumes inv: "fs_inv bm" and wf: "bm_wf bm'" and i: "inum_ok i"
    and tab: "\<And>j. inum_ok j \<Longrightarrow> j \<noteq> i \<Longrightarrow> blk bm' (j + 11) = blk bm (j + 11)"
    and dat: "\<And>b. b \<in> others bm i \<Longrightarrow> blk bm' b = blk bm b"
    and us: "used bm' = {..<1034} \<union> others bm i \<union> owns bm' i"
    and dj: "others bm i \<inter> owns bm' i = {}"
    and alive: "live bm' i \<Longrightarrow> unat (i_size (inode_at bm' i)) \<le> MAXFILE \<and> distinct (owned bm' (inode_at bm' i))
         \<and> owns bm' i \<subseteq> {1034..<BLOCK_NUM}"
    and dead: "\<not> live bm' i \<Longrightarrow> inode_at bm' i = zero_inode"
  shows "fs_inv bm' \<and> (\<forall>j. j \<noteq> i \<longrightarrow> files bm' j = files bm j)"
proof -
  have at: "inum_ok j \<Longrightarrow> inode_at bm' j = inode_at bm j" if "j \<noteq> i" for j using tab that by simp
  have lv: "live bm' j = live bm j" if "j \<noteq> i" for j
    using at [OF that] by (auto simp: live_def)
  have same: "owned bm' (inode_at bm j) = owned bm (inode_at bm j)"
      "contents bm' (inode_at bm j) = contents bm (inode_at bm j)" "inode_at bm' j = inode_at bm j"
    if "j \<noteq> i" "live bm j" for j
  proof -
    have a: "inode_at bm' j = inode_at bm j" using at that by (simp add: live_def)
    have "blk bm' (unat b) = blk bm (unat b)" if "b \<in> set (owned bm (inode_at bm j))" for b
      using dat \<open>j \<noteq> i\<close> \<open>live bm j\<close> that by (auto simp: others_def)
    from owned_cong [OF length_i_blocks_load this] a
    show "owned bm' (inode_at bm j) = owned bm (inode_at bm j)"
      "contents bm' (inode_at bm j) = contents bm (inode_at bm j)" "inode_at bm' j = inode_at bm j"
      by simp_all
  qed
  have oth: "others bm' i = others bm i"
    unfolding others_def by (rule SUP_cong) (auto simp: lv same)
  have fl: "files bm' j = files bm j" if "j \<noteq> i" for j
    using lv [OF that] same [OF that] by (simp add: files_def)
  have d1: "live bm' j \<Longrightarrow> unat (i_size (inode_at bm' j)) \<le> MAXFILE \<and> distinct (owned bm' (inode_at bm' j))
      \<and> unat ` set (owned bm' (inode_at bm' j)) \<subseteq> {1034..<BLOCK_NUM}" for j
    using alive fs_invD(2-4) [OF inv, of j] lv [of j] same [of j] by (cases "j = i") (simp_all add: owns_def)
  have d2: "set (owned bm' (inode_at bm' j)) \<inter> set (owned bm' (inode_at bm' k)) = {}"
    if "live bm' j" "live bm' k" "j \<noteq> k" "k \<noteq> i" for j k
  proof (cases "j = i")
    case True
    have "unat ` set (owned bm' (inode_at bm' k)) \<subseteq> others bm i"
      using that lv same by (auto simp: others_def)
    with dj True that(1) show ?thesis by (auto simp: owns_def)
  next
    case False
    with fs_invD(5) [OF inv, of j k] that lv same show ?thesis by simp
  qed
  have d3: "set (owned bm' (inode_at bm' j)) \<inter> set (owned bm' (inode_at bm' k)) = {}"
    if "live bm' j" "live bm' k" "j \<noteq> k" for j k
    using d2 [of j k] d2 [of k j] that by (cases "k = i") auto
  have d4: "inode_at bm' j = zero_inode" if "inum_ok j" "\<not> live bm' j" for j
    using dead fs_invD(7) [OF inv, of j] that lv [of j] at [of j] by (cases "j = i") simp_all
  have "fs_inv bm'"
    unfolding fs_inv_def using wf d1 d3 d4 us oth UN_live [of bm' i] by (simp add: Un_assoc)
  with fl show ?thesis by simp
qed

section \<open>Sizes\<close>

lemma length_data_blocks:
  assumes "length (i_blocks ino) = 33" "unat (i_size ino) \<le> MAXFILE"
  shows "length (data_blocks bm ino) = nblk (unat (i_size ino))"
  using assms nblk_le [OF assms(2)] by (simp add: data_blocks_def)

lemma length_owned:
  assumes "length (i_blocks ino) = 33" "unat (i_size ino) \<le> MAXFILE"
  shows "length (owned bm ino) = blocks_needed (unat (i_size ino))"
  using length_data_blocks [OF assms] by (simp add: owned_def blocks_needed_def meta_blocks_def)

lemma length_contents:
  assumes "bm_wf bm" "length (i_blocks ino) = 33" "unat (i_size ino) \<le> MAXFILE"
    "unat ` set (owned bm ino) \<subseteq> {1034..<BLOCK_NUM}"
  shows "length (contents bm ino) = unat (i_size ino)"
proof -
  have "\<forall>b \<in> set (data_blocks bm ino). length (blk bm (unat b)) = BLOCK_SIZE"
    using assms(1,4) by (auto simp: owned_def image_subset_iff intro!: bm_wf_len)
  then have "length (concat (map (\<lambda>b. blk bm (unat b)) (data_blocks bm ino))) = BLOCK_SIZE * nblk (unat (i_size ino))"
    using length_data_blocks [OF assms(2,3), of bm]
    by (simp add: length_concat comp_def sum_list_triv cong: map_cong)
  with nblk_bound(1) [of "unat (i_size ino)"] show ?thesis by (simp add: contents_def)
qed

lemma card_owns:
  assumes "fs_inv bm" "live bm i"
  shows "card (owns bm i) = blocks_needed (unat (i_size (inode_at bm i)))"
proof -
  have "inj_on (unat :: u32 \<Rightarrow> nat) (set (owned bm (inode_at bm i)))"
    by (simp add: inj_on_def word_unat_eq_iff)
  then show ?thesis
    using fs_invD(2,3) [OF assms(1), of i] assms(2) length_owned [of "inode_at bm i" bm]
    by (simp add: owns_def card_image distinct_card)
qed

lemma files_SomeD:
  assumes "fs_inv bm" "files bm i = Some f"
  shows "live bm i" "f_data f = contents bm (inode_at bm i)" "length (f_data f) = unat (i_size (inode_at bm i))"
    "card (owns bm i) = blocks_needed (length (f_data f))"
proof -
  show l: "live bm i" and d: "f_data f = contents bm (inode_at bm i)"
    using assms(2) by (auto simp: files_def split: if_splits)
  show "length (f_data f) = unat (i_size (inode_at bm i))"
    unfolding d by (rule length_contents) (use fs_invD(1,2,4) [OF assms(1)] l in simp_all)
  with card_owns [OF assms(1) l] show "card (owns bm i) = blocks_needed (length (f_data f))" by simp
qed

lemma free_count_split:
  assumes "used bm = {..<1034} \<union> X \<union> Y" "X \<subseteq> {1034..<BLOCK_NUM}" "Y \<subseteq> {1034..<BLOCK_NUM}" "X \<inter> Y = {}"
  shows "free_count bm + card Y = card ({1034..<BLOCK_NUM} - X)"
proof -
  have "{..<BLOCK_NUM} - used bm = ({1034..<BLOCK_NUM} - X) - Y" using assms by auto
  moreover have "Y \<subseteq> {1034..<BLOCK_NUM} - X" using assms by auto
  moreover have "finite Y" using assms(3) by (rule finite_subset) simp
  ultimately show ?thesis
    by (simp add: free_count_def card_Diff_subset card_mono)
qed

section \<open>Storing an inode\<close>

lemma put_inode_obs:
  assumes wf: "bm_wf bm" and i: "inum_ok (unat i)" and len: "length (i_blocks ino) = 33"
    and o: "unat ` set (owned bm ino) \<subseteq> {1034..<BLOCK_NUM}"
  shows "inode_at (put_inode junk bm i (Some ino)) (unat i) = ino"
    and "owned (put_inode junk bm i (Some ino)) ino = owned bm ino"
    and "contents (put_inode junk bm i (Some ino)) ino = contents bm ino"
    and "bm_wf (put_inode junk bm i (Some ino))"
    and "used (put_inode junk bm i (Some ino)) = used bm"
    and "\<And>b. b \<noteq> unat i + 11 \<Longrightarrow> blk (put_inode junk bm i (Some ino)) b = blk bm b"
proof -
  have i': "unat i < INODE_NUM" "unat i + 11 < 1034" using i by (simp_all add: inum_ok_def)
  note p = put_inode_effect [OF wf i'(1) len, where junk = junk]
  show "bm_wf (put_inode junk bm i (Some ino))" "used (put_inode junk bm i (Some ino)) = used bm"
    "\<And>b. b \<noteq> unat i + 11 \<Longrightarrow> blk (put_inode junk bm i (Some ino)) b = blk bm b"
    using p by simp_all
  show "inode_at (put_inode junk bm i (Some ino)) (unat i) = ino"
    using p(1) bm_wf_len [OF wf, of "unat i + 11"] i' len by (simp add: load_store_inode)
  have "blk (put_inode junk bm i (Some ino)) (unat b) = blk bm (unat b)" if "b \<in> set (owned bm ino)" for b
    using o i'(2) that p(1) [of "unat b"] by (auto simp: image_subset_iff)
  from owned_cong [OF len this]
  show "owned (put_inode junk bm i (Some ino)) ino = owned bm ino"
    "contents (put_inode junk bm i (Some ino)) ino = contents bm ino" by blast+
qed

definition entry_of :: "inode \<Rightarrow> byte list \<Rightarrow> fentry" where
  "entry_of ino d = \<lparr>f_type = i_type ino, f_atime = i_atime ino, f_mtime = i_mtime ino,
     f_ctime = i_ctime ino, f_data = d\<rparr>"

lemma files_None_iff: "files bm i = None \<longleftrightarrow> \<not> live bm i"
  by (simp add: files_def)

lemma files_live: "live bm i \<Longrightarrow> files bm i = Some (entry_of (inode_at bm i) (contents bm (inode_at bm i)))"
  by (simp add: files_def entry_of_def)

text \<open>
  The step all operations end with: from a disk \<open>bm3\<close> that differs from \<open>bm\<close> only in the blocks
  the new inode owns, storing that inode gives a good disk on which only file \<open>i\<close> has changed.
\<close>

lemma put_inode_change:
  assumes inv: "fs_inv bm" and i: "inum_ok (unat i)" and wf: "bm_wf bm3" and len: "length (i_blocks ino) = 33"
    and si: "unat (i_size ino) \<le> MAXFILE" "i_type ino = 0 \<Longrightarrow> ino = zero_inode" and di: "distinct (owned bm3 ino)"
    and o: "unat ` set (owned bm3 ino) \<subseteq> {1034..<BLOCK_NUM} - others bm (unat i)"
    and us: "used bm3 = {..<1034} \<union> others bm (unat i) \<union> unat ` set (owned bm3 ino)"
    and fr: "\<And>b. 10 \<le> b \<Longrightarrow> b \<notin> unat ` set (owned bm3 ino) \<Longrightarrow> blk bm3 b = blk bm b"
  shows "fs_inv (put_inode junk bm3 i (Some ino))" (is "fs_inv ?bm")
    and "files (put_inode junk bm3 i (Some ino)) =
      (files bm)(unat i := if i_type ino = 0 then None else Some (entry_of ino (contents bm3 ino)))"
    and "free_count (put_inode junk bm3 i (Some ino)) + blocks_needed (unat (i_size ino)) =
      card ({1034..<BLOCK_NUM} - others bm (unat i))"
proof -
  have o': "unat ` set (owned bm3 ino) \<subseteq> {1034..<BLOCK_NUM}" using o by blast
  note p = put_inode_obs [OF wf i len o', where junk = junk]
  have lv: "live ?bm (unat i) \<longleftrightarrow> i_type ino \<noteq> 0" using i p(1) by (simp add: live_def)
  have z: "owned bm3 ino = []" if "i_type ino = 0"
    using si(2) [OF that] by (simp add: owned_def data_blocks_def meta_blocks_def zero_inode_def)
  have ow: "owns ?bm (unat i) = unat ` set (owned bm3 ino)"
    using lv p(1,2) z by (simp add: owns_def)
  have c: "fs_inv ?bm \<and> (\<forall>j. j \<noteq> unat i \<longrightarrow> files ?bm j = files bm j)"
  proof (rule fs_inv_change [OF inv p(4) i])
    show "blk ?bm (j + 11) = blk bm (j + 11)" if "inum_ok j" "j \<noteq> unat i" for j
    proof -
      have "j + 11 \<notin> {1034..<BLOCK_NUM}" using that(1) by (simp add: inum_ok_def)
      with o' have "j + 11 \<notin> unat ` set (owned bm3 ino)" by blast
      then show ?thesis using p(6) [of "j + 11"] fr [of "j + 11"] that(2) by simp
    qed
    show "blk ?bm b = blk bm b" if "b \<in> others bm (unat i)" for b
    proof -
      have "1034 \<le> b" using others_bound [OF inv, of "unat i"] that by auto
      moreover have "b \<notin> unat ` set (owned bm3 ino)" using o that by blast
      ultimately show ?thesis using p(6) [of b] fr [of b] i by (simp add: inum_ok_def)
    qed
    show "used ?bm = {..<1034} \<union> others bm (unat i) \<union> owns ?bm (unat i)" using p(5) us ow by simp
    show "others bm (unat i) \<inter> owns ?bm (unat i) = {}" using o ow by blast
  qed (use si di o' ow p lv in simp_all)
  then show "fs_inv ?bm" by simp
  show "files ?bm = (files bm)(unat i := if i_type ino = 0 then None else Some (entry_of ino (contents bm3 ino)))"
    using c lv p(1,3) by (auto simp: fun_eq_iff files_def entry_of_def)
  have "inj_on (unat :: u32 \<Rightarrow> nat) (set (owned bm3 ino))" by (simp add: inj_on_def word_unat_eq_iff)
  then have "card (unat ` set (owned bm3 ino)) = blocks_needed (unat (i_size ino))"
    using di length_owned [OF len si(1), of bm3] by (simp add: card_image distinct_card)
  moreover have "others bm (unat i) \<inter> unat ` set (owned bm3 ino) = {}" using o by blast
  ultimately show "free_count ?bm + blocks_needed (unat (i_size ino)) = card ({1034..<BLOCK_NUM} - others bm (unat i))"
    using free_count_split [of ?bm, OF _ others_bound [OF inv] o'] p(5) us by simp
qed

section \<open>Writing\<close>

text \<open>The three phases together: the blocks of the new version, and what they leave alone.\<close>

lemma write_phases:
  assumes inv: "fs_inv bm" and f: "files bm (unat i) = Some f" and sz: "length buf \<le> MAXFILE"
    "blocks_needed (length buf) \<le> free_count bm + blocks_needed (length (f_data f))"
  shows "\<exists>bm1 bs bm2. free_file_blocks junk bm (inode_at bm (unat i)) = Inr bm1
    \<and> alloc_file_blocks junk bm1 (i_blocks (inode_at bm (unat i))) (nblk (length buf)) = Inr (bs, bm2)
    \<and> length bs = 33
    \<and> (let bm3 = write_file_blocks junk bm2 bs buf (length buf) in
        bm_wf bm3 \<and> (\<forall>ino. i_blocks ino = bs \<longrightarrow> i_size ino = of_nat (length buf) \<longrightarrow>
          distinct (owned bm3 ino) \<and> unat ` set (owned bm3 ino) \<subseteq> {1034..<BLOCK_NUM} - others bm (unat i)
          \<and> used bm3 = {..<1034} \<union> others bm (unat i) \<union> unat ` set (owned bm3 ino)
          \<and> (\<forall>b \<ge> 10. b \<notin> unat ` set (owned bm3 ino) \<longrightarrow> blk bm3 b = blk bm b)
          \<and> contents bm3 ino = buf))"
proof -
  let ?i = "unat i" and ?ino = "inode_at bm (unat i)"
  let ?X = "others bm ?i" and ?O = "owns bm ?i"
  note fD = files_SomeD [OF inv f]
  have O: "?O = unat ` set (owned bm ?ino)" using fD(1) by (simp add: owns_def)
  have Ob: "?O \<subseteq> {1034..<BLOCK_NUM}" using fs_invD(4) [OF inv fD(1)] O by simp
  have us: "used bm = {..<1034} \<union> ?X \<union> ?O" using inv by (rule used_split)
  have dj: "?X \<inter> ?O = {}" using inv by (rule others_owns_disjoint)
  obtain bm1 where f1: "free_file_blocks junk bm ?ino = Inr bm1" and u1: "used bm1 = used bm - ?O"
    and p1: "payload bm1 = payload bm" and w1: "bm_wf bm1"
    using free_file_blocks_effect [OF fs_invD(1) [OF inv] fs_invD(2) [OF inv fD(1)] length_i_blocks_load
        fs_invD(4) [OF inv fD(1)], of junk] O by auto
  have u1': "used bm1 = {..<1034} \<union> ?X" using u1 us dj Ob by auto
  have "free_count bm1 + card ({} :: nat set) = card ({1034..<BLOCK_NUM} - ?X)"
    using u1' others_bound [OF inv] by (intro free_count_split) auto
  moreover have "free_count bm + card ?O = card ({1034..<BLOCK_NUM} - ?X)"
    using us others_bound [OF inv] Ob dj by (rule free_count_split)
  ultimately have fc: "blocks_needed (length buf) \<le> free_count bm1" using sz(2) fD(4) by simp
  have r1: "{..<1034} \<subseteq> used bm1" using u1' by auto
  obtain bs bm2 where a2: "alloc_file_blocks junk bm1 (i_blocks ?ino) (nblk (length buf)) = Inr (bs, bm2)"
    and l2: "length bs = 33" and w2: "bm_wf bm2"
    and o2: "\<forall>ino. i_blocks ino = bs \<longrightarrow> i_size ino = of_nat (length buf) \<longrightarrow>
         distinct (owned bm2 ino) \<and> unat ` set (owned bm2 ino) \<subseteq> {..<BLOCK_NUM} - used bm1
         \<and> used bm2 = used bm1 \<union> unat ` set (owned bm2 ino)
         \<and> (\<forall>b. b < 2 \<or> 10 \<le> b \<longrightarrow> b \<notin> unat ` set (meta_blocks ino) \<longrightarrow> blk bm2 b = blk bm1 b)"
    using alloc_file_blocks_effect [where ino = ?ino and junk = junk, OF w1 r1 length_i_blocks_load sz(1) fc]
    by (elim exE conjE) (rule that)
  define bm3 where "bm3 = write_file_blocks junk bm2 bs buf (length buf)"
  have P: "distinct (owned bm3 ino) \<and> unat ` set (owned bm3 ino) \<subseteq> {1034..<BLOCK_NUM} - ?X
      \<and> used bm3 = {..<1034} \<union> ?X \<union> unat ` set (owned bm3 ino)
      \<and> (\<forall>b \<ge> 10. b \<notin> unat ` set (owned bm3 ino) \<longrightarrow> blk bm3 b = blk bm b)
      \<and> contents bm3 ino = buf \<and> bm_wf bm3"
    if bs: "i_blocks ino = bs" and si: "i_size ino = of_nat (length buf)" for ino
  proof -
    note o = o2 [THEN spec, THEN mp, THEN mp, OF bs si]
    have N: "unat ` set (owned bm2 ino) \<subseteq> {1034..<BLOCK_NUM} - ?X" using o u1' by auto
    then have Nb: "unat ` set (owned bm2 ino) \<subseteq> {1034..<BLOCK_NUM}" by auto
    have w: "bm_wf bm3" "used bm3 = used bm2" "\<And>b. b \<notin> unat ` set (data_blocks bm2 ino) \<Longrightarrow> blk bm3 b = blk bm2 b"
      "holds_data bm3 (data_blocks bm2 ino) buf"
      using write_file_blocks_effect [OF w2 _ si sz(1) _ Nb, of bm3 junk] bs l2 o by (simp_all add: bm3_def)
    have "blk bm3 (unat b) = blk bm2 (unat b)" if "b \<in> set (meta_blocks ino)" for b
      using o that by (intro w(3)) (auto simp: owned_def)
    from data_blocks_cong [OF _ this] bs l2
    have d: "data_blocks bm3 ino = data_blocks bm2 ino" "owned bm3 ino = owned bm2 ino" by simp_all
    have "take (length buf) (concat (map (\<lambda>b. blk bm3 (unat b)) (data_blocks bm2 ino))) = buf"
      using w(4)
    proof (rule holds_data_concat)
      show "\<forall>b \<in> set (data_blocks bm2 ino). length (blk bm3 (unat b)) = BLOCK_SIZE"
        using w(1) Nb by (auto simp: owned_def image_subset_iff intro!: bm_wf_len)
    qed
    then have "contents bm3 ino = buf" using d(1) si sz(1) by (simp add: contents_def MAXFILE_def)
    moreover have "blk bm3 b = blk bm b" if "10 \<le> b" "b \<notin> unat ` set (owned bm2 ino)" for b
      using that o w(3) payload_blk [OF p1] by (simp add: owned_def image_Un)
    ultimately show ?thesis using o N w(1,2) u1' d by auto
  qed
  have w3: "bm_wf bm3"
    using P [of "zero_inode\<lparr>i_blocks := bs, i_size := of_nat (length buf)\<rparr>"] by simp
  have "\<forall>ino. i_blocks ino = bs \<longrightarrow> i_size ino = of_nat (length buf) \<longrightarrow>
      distinct (owned bm3 ino) \<and> unat ` set (owned bm3 ino) \<subseteq> {1034..<BLOCK_NUM} - ?X
      \<and> used bm3 = {..<1034} \<union> ?X \<union> unat ` set (owned bm3 ino)
      \<and> (\<forall>b \<ge> 10. b \<notin> unat ` set (owned bm3 ino) \<longrightarrow> blk bm3 b = blk bm b)
      \<and> contents bm3 ino = buf"
    using P by presburger
  with f1 a2 l2 w3 show ?thesis
    unfolding Let_def bm3_def by (intro exI [of _ bm1] exI [of _ bs] exI [of _ bm2] conjI)
qed

lemma free_count_file:
  assumes inv: "fs_inv bm" and f: "files bm i = Some f"
  shows "free_count bm + blocks_needed (length (f_data f)) = card ({1034..<BLOCK_NUM} - others bm i)"
proof -
  have "owns bm i \<subseteq> {1034..<BLOCK_NUM}"
    using fs_invD(4) [OF inv files_SomeD(1) [OF inv f]] by (simp add: owns_def)
  then show ?thesis
    using free_count_split [OF used_split [OF inv, of i] others_bound [OF inv] _ others_owns_disjoint [OF inv]]
      files_SomeD(4) [OF inv f] by simp
qed

lemma write_file_effect:
  assumes inv: "fs_inv bm" and f: "files bm (unat i) = Some f" and sz: "length buf \<le> MAXFILE"
    "blocks_needed (length buf) \<le> free_count bm + blocks_needed (length (f_data f))"
  shows "\<exists>bm'. write_file junk now bm i buf (length buf) = Inr bm' \<and> fs_inv bm'
    \<and> files bm' = (files bm)(unat i \<mapsto> f\<lparr>f_data := buf, f_mtime := now, f_ctime := now\<rparr>)
    \<and> free_count bm' + blocks_needed (length buf) = free_count bm + blocks_needed (length (f_data f))"
proof -
  let ?ino = "inode_at bm (unat i)"
  note fD = files_SomeD [OF inv f]
  obtain bm1 bs bm2 bm3 where f1: "free_file_blocks junk bm ?ino = Inr bm1"
    and a2: "alloc_file_blocks junk bm1 (i_blocks ?ino) (nblk (length buf)) = Inr (bs, bm2)"
    and l2: "length bs = 33" and b3: "bm3 = write_file_blocks junk bm2 bs buf (length buf)" and w3: "bm_wf bm3"
    and P: "\<forall>ino. i_blocks ino = bs \<longrightarrow> i_size ino = of_nat (length buf) \<longrightarrow>
          distinct (owned bm3 ino) \<and> unat ` set (owned bm3 ino) \<subseteq> {1034..<BLOCK_NUM} - others bm (unat i)
          \<and> used bm3 = {..<1034} \<union> others bm (unat i) \<union> unat ` set (owned bm3 ino)
          \<and> (\<forall>b \<ge> 10. b \<notin> unat ` set (owned bm3 ino) \<longrightarrow> blk bm3 b = blk bm b)
          \<and> contents bm3 ino = buf"
    using write_phases [OF inv f sz, of junk] unfolding Let_def by (elim exE conjE) (rule that [OF _ _ _ refl])
  define ino where "ino = ?ino\<lparr>i_blocks := bs, i_size := of_nat (length buf), i_mtime := now, i_ctime := now\<rparr>"
  have si: "unat (i_size ino) = length buf" using sz(1) by (simp add: ino_def MAXFILE_def)
  have lv: "inum_ok (unat i)" "i_type ino \<noteq> 0" using fD(1) by (simp_all add: live_def ino_def)
  have l: "length (i_blocks ino) = 33" using l2 by (simp add: ino_def)
  have P': "distinct (owned bm3 ino)" "unat ` set (owned bm3 ino) \<subseteq> {1034..<BLOCK_NUM} - others bm (unat i)"
    "used bm3 = {..<1034} \<union> others bm (unat i) \<union> unat ` set (owned bm3 ino)"
    "\<And>b. 10 \<le> b \<Longrightarrow> b \<notin> unat ` set (owned bm3 ino) \<Longrightarrow> blk bm3 b = blk bm b" "contents bm3 ino = buf"
    using P [THEN spec, of ino] by (simp_all add: ino_def)
  have wr: "write_file junk now bm i buf (length buf) = Inr (put_inode junk bm3 i (Some ino))"
    using get_inode_live [OF fs_invD(1) [OF inv] fD(1)] f1 a2 unat_BLOCKS [OF sz(1)]
    by (simp add: write_file_def b3 ino_def Let_def)
  have mx: "unat (i_size ino) \<le> MAXFILE" using si sz(1) by simp
  note c = put_inode_change [OF inv lv(1) w3 l mx _ P'(1-4), of junk]
  have e: "entry_of ino buf = f\<lparr>f_data := buf, f_mtime := now, f_ctime := now\<rparr>"
    using files_live [OF fD(1)] f by (simp add: entry_of_def ino_def)
  show ?thesis
    using wr c(1) c(2) c(3) lv(2) P'(5) e free_count_file [OF inv f] si by simp
qed

section \<open>Reading\<close>

lemma put_inode_same_data:
  assumes inv: "fs_inv bm" and lv: "live bm (unat i)" and ty: "i_type ino \<noteq> 0"
    and same: "i_blocks ino = i_blocks (inode_at bm (unat i))" "i_size ino = i_size (inode_at bm (unat i))"
  shows "fs_inv (put_inode junk bm i (Some ino))"
    and "files (put_inode junk bm i (Some ino)) =
      (files bm)(unat i \<mapsto> entry_of ino (contents bm (inode_at bm (unat i))))"
proof -
  let ?ino = "inode_at bm (unat i)"
  have o: "owned bm ino = owned bm ?ino" "contents bm ino = contents bm ?ino"
    using same by (simp_all add: owned_def data_blocks_def meta_blocks_def contents_def)
  have ow: "owns bm (unat i) = unat ` set (owned bm ?ino)" using lv by (simp add: owns_def)
  have sub: "unat ` set (owned bm ino) \<subseteq> {1034..<BLOCK_NUM} - others bm (unat i)"
    using fs_invD(4) [OF inv lv] others_owns_disjoint [OF inv, of "unat i"] ow o(1) by auto
  have us: "used bm = {..<1034} \<union> others bm (unat i) \<union> unat ` set (owned bm ino)"
    using used_split [OF inv, of "unat i"] ow o(1) by simp
  have i: "inum_ok (unat i)" using lv by (simp add: live_def)
  have l: "length (i_blocks ino) = 33" and mx: "unat (i_size ino) \<le> MAXFILE"
    and d: "distinct (owned bm ino)"
    using same o(1) fs_invD(2,3) [OF inv lv] by simp_all
  note c = put_inode_change [OF inv i fs_invD(1) [OF inv] l mx _ d sub us refl, of junk]
  show "fs_inv (put_inode junk bm i (Some ino))"
    "files (put_inode junk bm i (Some ino)) = (files bm)(unat i \<mapsto> entry_of ino (contents bm ?ino))"
    using c(1,2) ty o(2) by simp_all
qed

lemma read_loop_full:
  assumes "bm_wf bm" "\<forall>b \<in> set (take (nblk (fsize - rsize)) ds). unat b < BLOCK_NUM"
    "length res = fsize" "rsize \<le> fsize" "length buf = BLOCK_SIZE" "nblk (fsize - rsize) \<le> length ds"
  shows "read_loop bm ds fsize rsize res buf =
    (fsize, take rsize res @ take (fsize - rsize) (concat (map (\<lambda>b. blk bm (unat b)) (take (nblk (fsize - rsize)) ds))))"
proof -
  let ?ds = "take (nblk (fsize - rsize)) ds"
  have m: "min fsize (rsize + BLOCK_SIZE * length ?ds) = fsize"
    using assms(4,6) nblk_bound(1) [of "fsize - rsize"] by (simp add: min_def)
  obtain res' where "read_loop bm ?ds fsize rsize res buf = (fsize, res')" "length res' = fsize"
    "take fsize res' = take rsize res @ take (fsize - rsize) (concat (map (\<lambda>b. blk bm (unat b)) ?ds))"
    using read_loop_effect [OF assms(1,2,3,5,4)] unfolding m by (elim exE conjE)
  then show ?thesis using read_loop_take [of bm ds fsize rsize res buf] by simp
qed

lemma read_loop_part:
  assumes "bm_wf bm" "\<forall>b \<in> set ds. unat b < BLOCK_NUM" "length res = fsize" "length buf = BLOCK_SIZE"
    "BLOCK_SIZE * length ds < fsize"
  shows "\<exists>res'. read_loop bm ds fsize 0 res buf = (BLOCK_SIZE * length ds, res') \<and> length res' = fsize
    \<and> take (BLOCK_SIZE * length ds) res' = concat (map (\<lambda>b. blk bm (unat b)) ds)"
proof -
  have "length (concat (map (\<lambda>b. blk bm (unat b)) ds)) = BLOCK_SIZE * length ds"
    using assms(1,2) by (simp add: length_concat comp_def sum_list_triv bm_wf_len cong: map_cong)
  with read_loop_effect [OF assms(1-4), of 0] assms(5) show ?thesis by (auto simp: min_def)
qed

lemma read_file_data:
  assumes inv: "fs_inv bm" and lv: "live bm (unat i)"
  shows "\<exists>ino. i_type ino \<noteq> 0 \<and> ino = (inode_at bm (unat i))\<lparr>i_atime := now, i_ctime := now\<rparr>
    \<and> read_file junk now bm i = (Some (contents bm (inode_at bm (unat i))), put_inode junk bm i (Some ino))"
proof -
  let ?ino = "inode_at bm (unat i)"
  let ?fs = "unat (i_size ?ino)" and ?bs = "i_blocks ?ino" and ?ib = "i_blocks ?ino ! NDIRECT"
  let ?get = "concat \<circ> map (\<lambda>b. blk bm (unat b))"
  have wf: "bm_wf bm" and mx: "?fs \<le> MAXFILE" using fs_invD(1,2) [OF inv] lv by auto
  have rng: "unat b < BLOCK_NUM" if "b \<in> set (owned bm ?ino)" for b
    using fs_invD(4) [OF inv lv] that by auto
  have g: "get_inode junk bm i = Some ?ino" by (rule get_inode_live [OF wf lv])
  show ?thesis
  proof (cases "NDIRECT < nblk ?fs")
    case False
    have o: "data_blocks bm ?ino = take (nblk ?fs) ?bs" using owned_small [OF length_i_blocks_load] False by simp
    then have "read_loop bm (take NDIRECT ?bs) ?fs 0 (uninit junk ?fs) (uninit junk BLOCK_SIZE)
        = (?fs, take ?fs (?get (take (nblk ?fs) ?bs)))"
      using read_loop_full [OF wf, of ?fs 0 "take NDIRECT ?bs"] False rng by (simp add: owned_def)
    with o show ?thesis using lv by (simp add: read_file_def g contents_def live_def Let_def)
  next
    case True
    define ind where "ind = load32s (blk bm (unat ?ib)) 0 NINDIRECT"
    have o: "data_blocks bm ?ino = take NDIRECT ?bs @ take (nblk ?fs - NDIRECT) ind"
      "?ib \<in> set (owned bm ?ino)"
      using owned_large [OF length_i_blocks_load True] by (simp_all add: ind_def owned_def)
    have big: "16384 < ?fs" using True by (simp add: nblk_def)
    have nb: "nblk (?fs - 16384) = nblk ?fs - NDIRECT" "nblk ?fs \<le> 160"
      using nblk_le [OF mx] by (simp_all add: nblk_def)
    have d: "\<forall>b \<in> set (take NDIRECT ?bs). unat b < BLOCK_NUM" using o(1) rng by (simp add: owned_def)
    obtain res where r1: "read_loop bm (take NDIRECT ?bs) ?fs 0 (uninit junk ?fs) (uninit junk BLOCK_SIZE) = (16384, res)"
      and l: "length res = ?fs" and t: "take 16384 res = ?get (take NDIRECT ?bs)"
      using read_loop_part [OF wf d, of "uninit junk ?fs" ?fs "uninit junk BLOCK_SIZE"] big by auto
    have rd: "read_block bm ?ib (uninit junk BLOCK_SIZE) = blk bm (unat ?ib)"
      using read_block_in [OF wf rng [OF o(2)]] by simp
    have i2: "\<forall>b \<in> set (take (nblk (?fs - 16384)) ind). unat b < BLOCK_NUM"
      unfolding nb(1) using o(1) rng by (simp add: owned_def)
    have li: "nblk (?fs - 16384) \<le> length ind" using nb by (simp add: ind_def)
    have r2: "read_loop bm ind ?fs 16384 res (uninit junk BLOCK_SIZE)
        = (?fs, take 16384 res @ take (?fs - 16384) (?get (take (nblk ?fs - NDIRECT) ind)))"
      using read_loop_full [OF wf i2 l less_imp_le [OF big] _ li, of "uninit junk BLOCK_SIZE"]
      unfolding nb(1) by simp
    have lt: "length (?get (take NDIRECT ?bs)) = 16384" unfolding t [symmetric] using l big by simp
    have "read_file junk now bm i = (Some (snd (read_loop bm ind ?fs 16384 res (uninit junk BLOCK_SIZE))),
        put_inode junk bm i (Some (?ino\<lparr>i_atime := now, i_ctime := now\<rparr>)))"
      unfolding read_file_def g option.case Let_def r1 prod.case rd ind_def [symmetric] using big by simp
    moreover have "snd (read_loop bm ind ?fs 16384 res (uninit junk BLOCK_SIZE)) = contents bm ?ino"
      unfolding r2 snd_conv contents_def o(1) t using lt big by simp
    ultimately show ?thesis using lv by (simp add: live_def)
  qed
qed

lemma read_file_effect:
  assumes inv: "fs_inv bm" and f: "files bm (unat i) = Some f"
  shows "\<exists>bm'. read_file junk now bm i = (Some (f_data f), bm') \<and> fs_inv bm'
    \<and> files bm' = (files bm)(unat i \<mapsto> f\<lparr>f_atime := now, f_ctime := now\<rparr>) \<and> free_count bm' = free_count bm"
proof -
  note fD = files_SomeD [OF inv f]
  obtain ino where ino: "i_type ino \<noteq> 0" "ino = (inode_at bm (unat i))\<lparr>i_atime := now, i_ctime := now\<rparr>"
    and r: "read_file junk now bm i = (Some (f_data f), put_inode junk bm i (Some ino))"
    using read_file_data [OF inv fD(1), of now junk] fD(2) by auto
  have same: "i_blocks ino = i_blocks (inode_at bm (unat i))" "i_size ino = i_size (inode_at bm (unat i))"
    using ino(2) by simp_all
  note c = put_inode_same_data [OF inv fD(1) ino(1) same, of junk]
  have e: "entry_of ino (contents bm (inode_at bm (unat i))) = f\<lparr>f_atime := now, f_ctime := now\<rparr>"
    using files_live [OF fD(1)] f by (simp add: entry_of_def ino(2))
  have "unat i < INODE_NUM" using fD(1) by (simp add: live_def inum_ok_def)
  then have "free_count (put_inode junk bm i (Some ino)) = free_count bm"
    using put_inode_effect(3) [OF fs_invD(1) [OF inv], of i ino junk] same(1) by (simp add: free_count_def)
  then show ?thesis using r c(1) c(2) e by simp
qed

section \<open>Creating\<close>

lemma alloc_inode_from_effect:
  assumes wf: "bm_wf bm" and j: "inum_ok j" "\<not> live bm j" and n: "1 \<le> n" "n \<le> j"
    and before: "\<forall>k. n \<le> k \<longrightarrow> k < j \<longrightarrow> live bm k" and len: "length buf = BLOCK_SIZE"
  shows "alloc_inode_from type now bm buf n =
    (of_nat j, put_inode junk bm (of_nat j) (Some ((inode_at bm j)\<lparr>i_type := ucast type, i_ctime := now\<rparr>)))"
  using n before len
proof (induction "j - n" arbitrary: n buf)
  have sb: "unat (sb_ninodes (bm_sb bm)) = 1024" "sb_nblocks (bm_sb bm) = 32768"
    using wf by (simp_all add: bm_wf_def)
  have rd: "read_block bm (IBLOCK (of_nat n) 32768) buf = blk bm (n + 11)"
    if "n \<le> j" "length buf = BLOCK_SIZE" for n buf
  proof -
    have u: "unat (of_nat n :: u32) = n" using that(1) j(1) by (simp add: inum_ok_def)
    have "unat (IBLOCK (of_nat n) 32768) = n + 11" using unat_IBLOCK [of "of_nat n"] u that(1) j(1) by (simp add: inum_ok_def)
    then show ?thesis using read_block_in [OF wf, of "IBLOCK (of_nat n) 32768"] that j(1) by (simp add: inum_ok_def)
  qed
  {
    case 0
    then have n: "n = j" by simp
    have "read_block bm (IBLOCK (of_nat j) 32768) (uninit junk BLOCK_SIZE) = blk bm (j + 11)"
      using rd [of j] by simp
    moreover have "i_type (inode_at bm j) = 0" "j < 1024" using j by (simp_all add: live_def inum_ok_def)
    ultimately show ?case
      using 0 n sb rd [of j buf] by (subst alloc_inode_from.simps) (simp add: put_inode_def Let_def)
  next
    case (Suc d)
    then have n: "n < j" by simp
    then have "i_type (inode_at bm n) \<noteq> 0" using Suc.prems by (simp add: live_def)
    moreover have "length (blk bm (n + 11)) = BLOCK_SIZE" using n j(1) by (intro bm_wf_len [OF wf]) (simp add: inum_ok_def)
    moreover have "n < 1024" using n j(1) by (simp add: inum_ok_def)
    ultimately show ?case
      using Suc.hyps(1) [of "Suc n" "blk bm (n + 11)"] Suc.hyps(2) Suc.prems n sb rd [of n buf]
      by (subst alloc_inode_from.simps) (simp add: Let_def)
  }
qed

lemma alloc_inode_effect:
  assumes inv: "fs_inv bm" and j: "inum_ok j" "files bm j = None" and before: "\<forall>k. 1 \<le> k \<longrightarrow> k < j \<longrightarrow> files bm k \<noteq> None"
    and ty: "(ucast type :: u16) \<noteq> 0"
  shows "\<exists>bm'. alloc_inode junk now bm type = (of_nat j, bm') \<and> fs_inv bm'
    \<and> files bm' = (files bm)(j \<mapsto> \<lparr>f_type = ucast type, f_atime = 0, f_mtime = 0, f_ctime = now, f_data = []\<rparr>)
    \<and> free_count bm' = free_count bm"
proof -
  have nl: "\<not> live bm j" using j(2) by (simp add: files_None_iff)
  have u: "unat (of_nat j :: u32) = j" using j(1) by (simp add: inum_ok_def)
  define ino where "ino = (inode_at bm j)\<lparr>i_type := ucast type, i_ctime := now\<rparr>"
  have z: "inode_at bm j = zero_inode" by (rule fs_invD(7) [OF inv j(1) nl])
  have ino: "i_type ino \<noteq> 0" "i_size ino = 0" "length (i_blocks ino) = 33" "unat (i_size ino) \<le> MAXFILE"
    and e: "entry_of ino [] = \<lparr>f_type = ucast type, f_atime = 0, f_mtime = 0, f_ctime = now, f_data = []\<rparr>"
    using ty by (simp_all add: ino_def z zero_inode_def entry_of_def)
  have lv: "\<forall>k. 1 \<le> k \<longrightarrow> k < j \<longrightarrow> live bm k" using before by (simp add: files_None_iff del: not_None_eq)
  have al: "alloc_inode junk now bm type = (of_nat j, put_inode junk bm (of_nat j) (Some ino))"
    using alloc_inode_from_effect [OF fs_invD(1) [OF inv] j(1) nl _ _ lv] j(1)
    by (simp add: alloc_inode_def ino_def inum_ok_def)
  have o: "owned bm ino = []" "contents bm ino = []"
    using ino(2) by (simp_all add: owned_def data_blocks_def meta_blocks_def contents_def)
  have us: "used bm = {..<1034} \<union> others bm j \<union> unat ` set (owned bm ino)"
    using used_split [OF inv, of j] nl o(1) by (simp add: owns_def)
  note c = put_inode_change [OF inv _ fs_invD(1) [OF inv] ino(3,4) _ _ _ _ refl, of "of_nat j" junk, unfolded u, OF j(1) _ _ _ us]
  have c': "fs_inv (put_inode junk bm (of_nat j) (Some ino))"
    "files (put_inode junk bm (of_nat j) (Some ino)) = (files bm)(j \<mapsto> entry_of ino [])"
    using c(1) c(2) ino(1) o by simp_all
  have fc: "free_count (put_inode junk bm (of_nat j) (Some ino)) = free_count bm"
    using put_inode_effect(3) [OF fs_invD(1) [OF inv], of "of_nat j" ino junk] u j(1) ino(3)
    by (simp add: free_count_def inum_ok_def)
  show ?thesis using al c' e fc by simp
qed

section \<open>Formatting\<close>

lemma live_format: "\<not> live (block_manager_init junk) i"
  using format_effect(2) [of "i + 11" junk] by (simp add: live_def zero_inode_def)

lemma fs_inv_format: "fs_inv (block_manager_init junk)" "files (block_manager_init junk) = Map.empty"
  "free_count (block_manager_init junk) = 31734"
proof -
  show "fs_inv (block_manager_init junk)"
    using format_effect(1,3) [of junk] live_format [of junk] format_effect(2) [of "_ + 11" junk] by (simp add: fs_inv_def)
  show "files (block_manager_init junk) = Map.empty"
    using live_format [of junk] by (simp add: fun_eq_iff files_def)
  have "{..<BLOCK_NUM} - {..<1034} = {1034..<BLOCK_NUM}" by auto
  then show "free_count (block_manager_init junk) = 31734"
    using format_effect(1) [of junk] by (simp add: free_count_def)
qed

lemma inode_manager_init_effect:
  "\<exists>bm. inode_manager_init junk now = Some bm \<and> fs_inv bm
    \<and> files bm = [1 \<mapsto> \<lparr>f_type = 1, f_atime = 0, f_mtime = 0, f_ctime = now, f_data = []\<rparr>]
    \<and> free_count bm = 31734"
proof -
  have "\<exists>bm'. alloc_inode junk now (block_manager_init junk) 1 = (of_nat 1, bm') \<and> fs_inv bm'
    \<and> files bm' = (files (block_manager_init junk))(1 \<mapsto> \<lparr>f_type = ucast (1::u32), f_atime = 0, f_mtime = 0, f_ctime = now, f_data = []\<rparr>)
    \<and> free_count bm' = free_count (block_manager_init junk)"
    by (rule alloc_inode_effect [OF fs_inv_format(1)]) (simp_all add: fs_inv_format inum_ok_def)
  then show ?thesis by (auto simp: inode_manager_init_def fs_inv_format)
qed

section \<open>Removing\<close>

lemma remove_file_blocks:
  assumes inv: "fs_inv bm" and lv: "live bm (unat i)"
  shows "\<exists>bm1. remove_file junk bm i = free_inode junk bm1 i
    \<and> used bm1 = used bm - owns bm (unat i) \<and> payload bm1 = payload bm \<and> bm_wf bm1"
proof -
  let ?ino = "inode_at bm (unat i)"
  let ?bs = "i_blocks ?ino" and ?ib = "i_blocks ?ino ! NDIRECT" and ?n = "nblk (unat (i_size ?ino))"
  have wf: "bm_wf bm" and mx: "unat (i_size ?ino) \<le> MAXFILE" using fs_invD(1,2) [OF inv] lv by auto
  have r: "\<forall>b \<in> set (owned bm ?ino). 10 < unat b \<and> unat b < BLOCK_NUM"
    using fs_invD(4) [OF inv lv] by auto
  have g: "get_inode junk bm i = Some ?ino" by (rule get_inode_live [OF wf lv])
  have n: "unat (BLOCKS (i_size ?ino)) = ?n" "?n \<le> 160" using mx by (simp_all add: unat_BLOCKS_word nblk_le)
  have ow: "owns bm (unat i) = unat ` set (owned bm ?ino)" using lv by (simp add: owns_def)
  show ?thesis
  proof (cases "NDIRECT < ?n")
    case False
    then have o: "owned bm ?ino = take ?n ?bs" using owned_small [OF length_i_blocks_load] by (simp add: owned_def)
    with False n have "remove_file junk bm i = free_inode junk (foldl (free_block junk) bm (owned bm ?ino)) i"
      by (simp add: remove_file_def g Let_def)
    with ba.free_many [OF wf r, of junk] ow show ?thesis by auto
  next
    case True
    let ?xs = "take (?n - NDIRECT) (load32s (blk bm (unat ?ib)) 0 NINDIRECT)"
    define all where "all = ?xs @ [?ib] @ take NDIRECT ?bs"
    have o: "set (owned bm ?ino) = set all" using owned_large [OF length_i_blocks_load True] by (auto simp: owned_def all_def)
    then have "unat ?ib < BLOCK_NUM" using r by (simp add: all_def)
    then have "read_block bm ?ib (uninit junk BLOCK_SIZE) = blk bm (unat ?ib)" using read_block_in [OF wf] by simp
    moreover have "\<not> NINDIRECT < ?n - NDIRECT" using n(2) by linarith
    ultimately have "remove_file junk bm i = free_inode junk (foldl (free_block junk) bm all) i"
      using True n(1)
      by (simp add: remove_file_def g Let_def all_def)
    with ba.free_many [OF wf, of all junk] r ow o show ?thesis by auto
  qed
qed

lemma remove_file_effect:
  assumes inv: "fs_inv bm" and f: "files bm (unat i) = Some f"
  shows "\<exists>bm'. remove_file junk bm i = Inr bm' \<and> fs_inv bm' \<and> files bm' = (files bm)(unat i := None)
    \<and> free_count bm' = free_count bm + blocks_needed (length (f_data f))"
proof -
  note fD = files_SomeD [OF inv f]
  have i: "inum_ok (unat i)" using fD(1) by (simp add: live_def)
  obtain bm1 where rm: "remove_file junk bm i = free_inode junk bm1 i" and u1: "used bm1 = used bm - owns bm (unat i)"
    and p1: "payload bm1 = payload bm" and w1: "bm_wf bm1"
    using remove_file_blocks [OF inv fD(1), of junk] by (elim exE conjE)
  have b1: "blk bm1 b = blk bm b" if "10 \<le> b" for b using payload_blk [OF p1 that] .
  have lv1: "live bm1 (unat i)" using fD(1) b1 [of "unat i + 11"] by (simp add: live_def)
  have rm': "remove_file junk bm i = Inr (put_inode junk bm1 i (Some zero_inode))"
    using rm get_inode_live [OF w1 lv1, of junk] lv1 by (simp add: free_inode_def live_def)
  have o: "owned bm1 zero_inode = []"
    by (simp add: owned_def data_blocks_def meta_blocks_def zero_inode_def)
  have "used bm1 = {..<1034} \<union> others bm (unat i)"
    using u1 used_split [OF inv, of "unat i"] others_owns_disjoint [OF inv, of "unat i"]
      fs_invD(4) [OF inv fD(1)] fD(1) by (auto simp: owns_def)
  then have us: "used bm1 = {..<1034} \<union> others bm (unat i) \<union> unat ` set (owned bm1 zero_inode)" using o by simp
  have z: "length (i_blocks zero_inode) = 33" "unat (i_size zero_inode) \<le> MAXFILE" "i_type zero_inode = 0"
    "i_size zero_inode = 0" by (simp_all add: zero_inode_def)
  note c = put_inode_change [OF inv i w1 z(1,2) refl _ _ us b1, of junk]
  show ?thesis
    using rm' c(1) c(2) c(3) z o free_count_file [OF inv f] by (simp add: blocks_needed_def)
qed

section \<open>Error paths\<close>

lemma get_inode_dead:
  assumes "bm_wf bm" "\<not> live bm (unat i)" "inum_ok (unat i) \<or> INODE_NUM \<le> unat i"
  shows "get_inode junk bm i = None"
proof (cases "INODE_NUM \<le> unat i")
  case True
  then show ?thesis by (simp add: get_inode_def)
next
  case False
  with assms(2,3) get_inode_at [OF assms(1), of i junk] show ?thesis by (auto simp: live_def)
qed

lemma alloc_file_blocks_overflow:
  assumes "NDIRECT + NINDIRECT < n"
  shows "alloc_file_blocks junk bm bs n = Inl Out_Of_Bounds"
proof -
  have "NDIRECT < n" "NINDIRECT < n - NDIRECT" using assms by linarith+
  then show ?thesis by (simp add: alloc_file_blocks_def Let_def split: prod.split)
qed

lemma unat_BLOCKS_large:
  assumes "n < 2147483648"
  shows "unat (BLOCKS (of_nat n)) = nblk n"
proof -
  have "of_nat n + 512 - 1 = (of_nat (n + 511) :: u32)" by simp
  moreover have "unat (of_nat (n + 511) :: u32) = n + 511" using assms by (simp del: of_nat_add)
  ultimately have "unat ((of_nat n + 512 - 1) :: u32) = n + 511" by (simp del: of_nat_add)
  then show ?thesis by (simp add: BLOCKS_def nblk_def unat_div)
qed

lemma write_file_overflow:
  assumes inv: "fs_inv bm" and f: "files bm (unat i) = Some f" and sz: "MAXFILE < length buf" "length buf < 2147483648"
  shows "write_file junk now bm i buf (length buf) = Inl Out_Of_Bounds"
proof -
  note fD = files_SomeD [OF inv f]
  obtain bm1 where f1: "free_file_blocks junk bm (inode_at bm (unat i)) = Inr bm1"
    using free_file_blocks_effect [OF fs_invD(1) [OF inv] fs_invD(2) [OF inv fD(1)] length_i_blocks_load
        fs_invD(4) [OF inv fD(1)], of junk] by blast
  have "NDIRECT + NINDIRECT < nblk (length buf)" using sz(1) by (simp add: MAXFILE_def nblk_def)
  then show ?thesis
    using get_inode_live [OF fs_invD(1) [OF inv] fD(1), of junk] f1 unat_BLOCKS_large [OF sz(2)]
      alloc_file_blocks_overflow by (simp add: write_file_def)
qed

lemma im_getattr_effect:
  assumes inv: "fs_inv bm" and f: "files bm (unat i) = Some f"
  shows "im_getattr junk bm i a = \<lparr>a_type = scast (f_type f), a_atime = f_atime f, a_mtime = f_mtime f,
    a_ctime = f_ctime f, a_size = of_nat (length (f_data f))\<rparr>"
  using get_inode_live [OF fs_invD(1) [OF inv] files_SomeD(1) [OF inv f]] files_SomeD [OF inv f] f
  by (auto simp: im_getattr_def files_def)

section \<open>The operations on the table of files\<close>

text \<open>C6. On a good disk \<^verbatim>\<open>write_file\<close> replaces the contents of an existing file and its modification and
  change times, leaves every other file as it was, and keeps the invariant, for every size up to the
  largest file whenever the blocks are available once the old ones are returned; the free count is
  exact.  A larger buffer overruns \<^verbatim>\<open>indnum\<close> and a missing inode is dereferenced.\<close>

theorem write_file_correct:
  assumes "fs_inv bm" "inum_ok (unat i)" "length buf < 2147483648"
  shows "case files bm (unat i) of
      None \<Rightarrow> write_file junk now bm i buf (length buf) = Inl Null_Deref
    | Some f \<Rightarrow>
        if MAXFILE < length buf then write_file junk now bm i buf (length buf) = Inl Out_Of_Bounds
        else blocks_needed (length buf) \<le> free_count bm + blocks_needed (length (f_data f)) \<longrightarrow>
          (\<exists>bm'. write_file junk now bm i buf (length buf) = Inr bm' \<and> fs_inv bm'
            \<and> files bm' = (files bm)(unat i \<mapsto> f\<lparr>f_data := buf, f_mtime := now, f_ctime := now\<rparr>)
            \<and> free_count bm' + blocks_needed (length buf) = free_count bm + blocks_needed (length (f_data f)))"
proof (cases "files bm (unat i)")
  case None
  then have "get_inode junk bm i = None"
    using get_inode_dead [OF fs_invD(1) [OF assms(1)]] assms(2) by (simp add: files_None_iff)
  with None show ?thesis by (simp add: write_file_def)
next
  case (Some f)
  with write_file_effect [OF assms(1) Some] write_file_overflow [OF assms(1) Some _ assms(3)] show ?thesis by simp
qed

theorem write_file_correct_witness:
  "\<exists>bm bm'. inode_manager_init (\<lambda>_. 7) 5 = Some bm \<and> write_file (\<lambda>_. 7) 9 bm 1 [1, 2, 3] 3 = Inr bm'
    \<and> files bm' 1 = Some \<lparr>f_type = 1, f_atime = 0, f_mtime = 9, f_ctime = 9, f_data = [1, 2, 3]\<rparr>
    \<and> write_file (\<lambda>_. 7) 9 bm 2 [1, 2, 3] 3 = Inl Null_Deref"
proof -
  obtain bm where bm: "inode_manager_init (\<lambda>_. 7) 5 = Some bm" "fs_inv bm"
    "files bm = [1 \<mapsto> \<lparr>f_type = 1, f_atime = 0, f_mtime = 0, f_ctime = 5, f_data = []\<rparr>]" "free_count bm = 31734"
    using inode_manager_init_effect by blast
  show ?thesis
    using write_file_correct [OF bm(2), of 1 "[1, 2, 3]" "\<lambda>_. 7" 9]
      write_file_correct [OF bm(2), of 2 "[1, 2, 3]" "\<lambda>_. 7" 9] bm
    by (auto simp: inum_ok_def MAXFILE_def blocks_needed_def numeral_3_eq_3)
qed

text \<open>C26. \<^verbatim>\<open>read_file\<close> returns exactly the contents of the file, direct and indirect blocks alike, and
  changes only its access and change times; on a missing file it returns nothing and changes nothing.\<close>

theorem read_file_correct:
  assumes "fs_inv bm" "inum_ok (unat i)"
  shows "case files bm (unat i) of
      None \<Rightarrow> read_file junk now bm i = (None, bm)
    | Some f \<Rightarrow> \<exists>bm'. read_file junk now bm i = (Some (f_data f), bm') \<and> fs_inv bm'
        \<and> files bm' = (files bm)(unat i \<mapsto> f\<lparr>f_atime := now, f_ctime := now\<rparr>) \<and> free_count bm' = free_count bm"
proof (cases "files bm (unat i)")
  case None
  then have "get_inode junk bm i = None"
    using get_inode_dead [OF fs_invD(1) [OF assms(1)]] assms(2) by (simp add: files_None_iff)
  with None show ?thesis by (simp add: read_file_def)
qed (use read_file_effect [OF assms(1)] in simp)

theorem read_file_correct_witness:
  "\<exists>bm bm'. inode_manager_init (\<lambda>_. 7) 5 = Some bm \<and> read_file (\<lambda>_. 7) 9 bm 1 = (Some [], bm')
    \<and> files bm' 1 = Some \<lparr>f_type = 1, f_atime = 9, f_mtime = 0, f_ctime = 9, f_data = []\<rparr>
    \<and> read_file (\<lambda>_. 7) 9 bm 2 = (None, bm)"
proof -
  obtain bm where bm: "inode_manager_init (\<lambda>_. 7) 5 = Some bm" "fs_inv bm"
    "files bm = [1 \<mapsto> \<lparr>f_type = 1, f_atime = 0, f_mtime = 0, f_ctime = 5, f_data = []\<rparr>]"
    using inode_manager_init_effect by blast
  show ?thesis
    using read_file_correct [OF bm(2), of 1 "\<lambda>_. 7" 9] read_file_correct [OF bm(2), of 2 "\<lambda>_. 7" 9] bm
    by (auto simp: inum_ok_def)
qed

text \<open>C27. \<^verbatim>\<open>remove_file\<close> deletes the file and returns exactly the blocks it occupied, indirect block
  included, to the free pool; other files keep their contents.  Removing a missing file does nothing.\<close>

theorem remove_file_correct:
  assumes "fs_inv bm" "inum_ok (unat i)"
  shows "case files bm (unat i) of
      None \<Rightarrow> remove_file junk bm i = Inr bm
    | Some f \<Rightarrow> \<exists>bm'. remove_file junk bm i = Inr bm' \<and> fs_inv bm' \<and> files bm' = (files bm)(unat i := None)
        \<and> free_count bm' = free_count bm + blocks_needed (length (f_data f))"
proof (cases "files bm (unat i)")
  case None
  then have "get_inode junk bm i = None"
    using get_inode_dead [OF fs_invD(1) [OF assms(1)]] assms(2) by (simp add: files_None_iff)
  with None show ?thesis by (simp add: remove_file_def)
qed (use remove_file_effect [OF assms(1)] in simp)

theorem remove_file_correct_witness:
  "\<exists>bm bm'. inode_manager_init (\<lambda>_. 7) 5 = Some bm \<and> remove_file (\<lambda>_. 7) bm 1 = Inr bm' \<and> files bm' = Map.empty
    \<and> remove_file (\<lambda>_. 7) bm 2 = Inr bm"
proof -
  obtain bm where bm: "inode_manager_init (\<lambda>_. 7) 5 = Some bm" "fs_inv bm"
    "files bm = [1 \<mapsto> \<lparr>f_type = 1, f_atime = 0, f_mtime = 0, f_ctime = 5, f_data = []\<rparr>]"
    using inode_manager_init_effect by blast
  show ?thesis
    using remove_file_correct [OF bm(2), of 1 "\<lambda>_. 7"] remove_file_correct [OF bm(2), of 2 "\<lambda>_. 7"] bm
    by (auto simp: inum_ok_def)
qed

text \<open>C28. \<^verbatim>\<open>alloc_inode\<close> hands out the lowest free inode number as an empty file of the given type and
  leaves all other files and the free blocks as they were.\<close>

theorem alloc_inode_correct:
  assumes "fs_inv bm" "inum_ok j" "files bm j = None" "\<forall>k. 1 \<le> k \<longrightarrow> k < j \<longrightarrow> files bm k \<noteq> None"
    "(ucast type :: u16) \<noteq> 0"
  shows "\<exists>bm'. alloc_inode junk now bm type = (of_nat j, bm') \<and> fs_inv bm'
    \<and> files bm' = (files bm)(j \<mapsto> \<lparr>f_type = ucast type, f_atime = 0, f_mtime = 0, f_ctime = now, f_data = []\<rparr>)
    \<and> free_count bm' = free_count bm"
  using assms by (rule alloc_inode_effect)

theorem alloc_inode_correct_witness:
  "\<exists>bm bm'. inode_manager_init (\<lambda>_. 7) 5 = Some bm \<and> alloc_inode (\<lambda>_. 7) 9 bm 2 = (2, bm')
    \<and> files bm' 2 = Some \<lparr>f_type = 2, f_atime = 0, f_mtime = 0, f_ctime = 9, f_data = []\<rparr>"
proof -
  obtain bm where bm: "inode_manager_init (\<lambda>_. 7) 5 = Some bm" "fs_inv bm"
    "files bm = [1 \<mapsto> \<lparr>f_type = 1, f_atime = 0, f_mtime = 0, f_ctime = 5, f_data = []\<rparr>]"
    using inode_manager_init_effect by blast
  show ?thesis
    using alloc_inode_correct [OF bm(2), of 2 2 "\<lambda>_. 7" 9] bm by (auto simp: inum_ok_def)
qed

text \<open>C29. Formatting never reaches \<^verbatim>\<open>exit(0)\<close>: it yields a good file system with an empty root
  directory as inode 1, every other inode free and 31734 free blocks.\<close>

theorem inode_manager_init_correct:
  "\<exists>bm. inode_manager_init junk now = Some bm \<and> fs_inv bm
    \<and> files bm = [1 \<mapsto> \<lparr>f_type = 1, f_atime = 0, f_mtime = 0, f_ctime = now, f_data = []\<rparr>]
    \<and> free_count bm = 31734"
  by (rule inode_manager_init_effect)

text \<open>C40. The formatted region stops one block short of the inode table: the first data block handed
  out after formatting is the block of inode 1023.\<close>

theorem inode_table_overlap:
  "fst (alloc_block junk (block_manager_init junk)) =
     IBLOCK (of_nat (INODE_NUM - 1)) (sb_nblocks (bm_sb (block_manager_init junk)))"
proof -
  have wf: "bm_wf (block_manager_init junk)" by (rule format_effect)
  have u: "used (block_manager_init junk) = {..<1034}" by (rule format_effect)
  have sb: "sb_nblocks (bm_sb (block_manager_init junk)) = 32768" using wf by (simp add: bm_wf_def)
  from wf show ?thesis
  proof (cases rule: alloc_block_cases [where junk = junk])
    case full
    with u have "BLOCK_NUM = (1034 :: nat)" by (simp only: lessThan_eq_iff)
    then show ?thesis by simp
  next
    case (free k bm')
    with u have "k = 1034" by (auto simp: allocates_def intro: antisym)
    with free sb show ?thesis by (simp add: IBLOCK_def)
  qed
qed

end
