(* ===== verification/Extent_Server.thy ===== *)
theory Extent_Server
  imports Inode_Correct
begin

text \<open>
  The extent server of \<^verbatim>\<open>src/extent_server.cc\<close>: a table of extents (type and contents by
  identifier) kept in the inode manager.  The record \<open>ext_ops\<close> is the interface of
  \<^verbatim>\<open>extent_client\<close>, the locale \<open>extent_store\<close> the contract its clients rely on, and the
  interpretation \<open>es\<close> shows that the server implements it.
\<close>

section \<open>Protocol constants\<close>

text \<open>\<^verbatim>\<open>enum xxstatus\<close> of \<^verbatim>\<open>extent_protocol\<close> and \<^verbatim>\<open>yfs_client\<close>, which agree where both have a value.\<close>

abbreviation OK :: int where "OK \<equiv> 0"
abbreviation RPCERR :: int where "RPCERR \<equiv> 1"
abbreviation NOENT :: int where "NOENT \<equiv> 2"
abbreviation IOERR :: int where "IOERR \<equiv> 3"
abbreviation EXIST :: int where "EXIST \<equiv> 4"

abbreviation T_DIR :: u32 where "T_DIR \<equiv> 1"
abbreviation T_FILE :: u32 where "T_FILE \<equiv> 2"
abbreviation T_SYMLINK :: u32 where "T_SYMLINK \<equiv> 3"

section \<open>The server\<close>

text \<open>
  \<open>es_clock\<close> gives the successive values of \<^verbatim>\<open>(uint) std::time(0)\<close>, \<open>es_tick\<close> counts the calls.
\<close>

record extent_server =
  es_im :: block_manager
  es_clock :: "nat \<Rightarrow> u32"
  es_tick :: nat

definition es_now :: "extent_server \<Rightarrow> u32" where
  "es_now s = es_clock s (es_tick s)"

definition extent_server_init :: "(nat \<Rightarrow> byte) \<Rightarrow> (nat \<Rightarrow> u32) \<Rightarrow> extent_server option" where
  "extent_server_init junk clock =
     map_option (\<lambda>bm. \<lparr>es_im = bm, es_clock = clock, es_tick = 1\<rparr>) (inode_manager_init junk (clock 0))"

text \<open>\<^verbatim>\<open>id &= 0x7fffffff\<close> and \<^verbatim>\<open>static_cast<uint32_t>(id)\<close>.\<close>

definition id_mask :: "u64 \<Rightarrow> u32" where
  "id_mask eid = ucast (eid AND 0x7fffffff)"

definition es_create :: "(nat \<Rightarrow> byte) \<Rightarrow> u32 \<Rightarrow> (extent_server, int \<times> u64) op" where
  "es_create junk type s =
     (let (inum, bm) = alloc_inode junk (es_now s) (es_im s) type
      in Inr ((OK, ucast inum), s\<lparr>es_im := bm, es_tick := Suc (es_tick s)\<rparr>))"

definition es_put :: "(nat \<Rightarrow> byte) \<Rightarrow> u64 \<Rightarrow> string \<Rightarrow> (extent_server, int) op" where
  "es_put junk eid buf s =
     rbind (write_file junk (es_now s) (es_im s) (id_mask eid) (bytes_of_string buf) (length buf))
       (\<lambda>bm. Inr (OK, s\<lparr>es_im := bm, es_tick := Suc (es_tick s)\<rparr>))"

text \<open>
  \<^verbatim>\<open>size\<close> is an \<^verbatim>\<open>int\<close>: a stored size of 2 GiB or more becomes negative and \<^verbatim>\<open>assign\<close> throws.
\<close>

definition es_get :: "(nat \<Rightarrow> byte) \<Rightarrow> u64 \<Rightarrow> (extent_server, int \<times> string) op" where
  "es_get junk eid s =
     (case read_file junk (es_now s) (es_im s) (id_mask eid) of
        (None, bm) \<Rightarrow> Inr ((OK, []), s\<lparr>es_im := bm\<rparr>)
      | (Some cbuf, bm) \<Rightarrow>
          let s = s\<lparr>es_im := bm, es_tick := Suc (es_tick s)\<rparr>
          in if length cbuf = 0 then Inr ((OK, []), s)
             else if 2147483648 \<le> length cbuf then Inl Out_Of_Range
             else Inr ((OK, string_of_bytes cbuf), s))"

definition es_getattr :: "(nat \<Rightarrow> byte) \<Rightarrow> u64 \<Rightarrow> (extent_server, int \<times> attr) op" where
  "es_getattr junk eid s =
     Inr ((OK, im_getattr junk (es_im s) (id_mask eid) \<lparr>a_type = 0, a_atime = 0, a_mtime = 0, a_ctime = 0, a_size = 0\<rparr>), s)"

definition es_remove :: "(nat \<Rightarrow> byte) \<Rightarrow> u64 \<Rightarrow> (extent_server, int) op" where
  "es_remove junk eid s =
     rbind (remove_file junk (es_im s) (id_mask eid)) (\<lambda>bm. Inr (OK, s\<lparr>es_im := bm\<rparr>))"

section \<open>The interface of \<^verbatim>\<open>extent_client\<close>\<close>

text \<open>
  Each operation returns a status, the new value of its reference argument (whose old value it
  gets, since a failed call leaves it alone) and the state of the store.
\<close>

record 's ext_ops =
  ec_create :: "u32 \<Rightarrow> u64 \<Rightarrow> ('s, int \<times> u64) op"
  ec_get :: "u64 \<Rightarrow> string \<Rightarrow> ('s, int \<times> string) op"
  ec_getattr :: "u64 \<Rightarrow> attr \<Rightarrow> ('s, int \<times> attr) op"
  ec_put :: "u64 \<Rightarrow> string \<Rightarrow> ('s, int) op"
  ec_remove :: "u64 \<Rightarrow> ('s, int) op"

text \<open>The server called directly.\<close>

definition es_ops :: "(nat \<Rightarrow> byte) \<Rightarrow> extent_server ext_ops" where
  "es_ops junk = \<lparr>
     ec_create = \<lambda>type _. es_create junk type,
     ec_get = \<lambda>eid _. es_get junk eid,
     ec_getattr = \<lambda>eid _. es_getattr junk eid,
     ec_put = es_put junk,
     ec_remove = es_remove junk\<rparr>"

section \<open>The contract\<close>

text \<open>Identifiers that can be live.\<close>

definition id_ok :: "u64 \<Rightarrow> bool" where
  "id_ok eid \<longleftrightarrow> inum_ok (unat eid)"

text \<open>
  \<open>tab\<close> is the table of extents (type and contents), \<open>room\<close> the number of free blocks.
\<close>

locale extent_store =
  fixes ec :: "'s ext_ops" and good :: "'s \<Rightarrow> bool" and tab :: "'s \<Rightarrow> u64 \<Rightarrow> (u32 \<times> string) option"
    and room :: "'s \<Rightarrow> nat"
  assumes tab_ok: "tab s eid \<noteq> None \<Longrightarrow> id_ok eid"
    and size_law: "good s \<Longrightarrow> tab s eid = Some (t, d) \<Longrightarrow> length d \<le> MAXFILE"
    and get_law: "good s \<Longrightarrow> id_ok eid \<Longrightarrow> \<exists>s'. ec_get ec eid b s = Inr ((OK, case tab s eid of Some (t, d) \<Rightarrow> d | None \<Rightarrow> []), s')
          \<and> good s' \<and> tab s' = tab s \<and> room s' = room s"
    and getattr_law: "good s \<Longrightarrow> id_ok eid \<Longrightarrow> \<exists>a s'. ec_getattr ec eid a0 s = Inr ((OK, a), s')
          \<and> (case tab s eid of Some (t, d) \<Rightarrow> a_type a = t \<and> a_size a = of_nat (length d) | None \<Rightarrow> a_type a = 0 \<and> a_size a = 0)
          \<and> good s' \<and> tab s' = tab s \<and> room s' = room s"
    and put_law: "good s \<Longrightarrow> tab s eid = Some (t, d0) \<Longrightarrow> length d \<le> MAXFILE \<Longrightarrow>
          blocks_needed (length d) \<le> room s + blocks_needed (length d0) \<Longrightarrow>
          \<exists>s'. ec_put ec eid d s = Inr (OK, s') \<and> good s' \<and> tab s' = (tab s)(eid \<mapsto> (t, d))
            \<and> room s' + blocks_needed (length d) = room s + blocks_needed (length d0)"
    and create_law: "good s \<Longrightarrow> id_ok free \<Longrightarrow> tab s free = None \<Longrightarrow> type \<in> {T_DIR, T_FILE, T_SYMLINK} \<Longrightarrow>
          \<exists>eid s'. ec_create ec type id0 s = Inr ((OK, eid), s') \<and> id_ok eid \<and> tab s eid = None \<and> good s'
            \<and> tab s' = (tab s)(eid \<mapsto> (type, [])) \<and> room s' = room s"
    and remove_law: "good s \<Longrightarrow> tab s eid = Some (t, d) \<Longrightarrow>
          \<exists>s'. ec_remove ec eid s = Inr (OK, s') \<and> good s' \<and> tab s' = (tab s)(eid := None)
            \<and> room s' = room s + blocks_needed (length d)"
begin

lemma get_Some: "good s \<Longrightarrow> tab s eid = Some (t, d) \<Longrightarrow>
    \<exists>s'. ec_get ec eid b s = Inr ((OK, d), s') \<and> good s' \<and> tab s' = tab s \<and> room s' = room s"
  using get_law [of s eid b] tab_ok [of s eid] by simp

lemma getattr_Some: "good s \<Longrightarrow> tab s eid = Some (t, d) \<Longrightarrow>
    \<exists>a s'. ec_getattr ec eid a0 s = Inr ((OK, a), s') \<and> a_type a = t \<and> a_size a = of_nat (length d)
      \<and> good s' \<and> tab s' = tab s \<and> room s' = room s"
  using getattr_law [of s eid a0] tab_ok [of s eid] by simp

end

section \<open>The server implements the contract\<close>

definition es_good :: "extent_server \<Rightarrow> bool" where
  "es_good s \<longleftrightarrow> fs_inv (es_im s)"

definition es_tab :: "extent_server \<Rightarrow> u64 \<Rightarrow> (u32 \<times> string) option" where
  "es_tab s eid = map_option (\<lambda>f. (scast (f_type f), string_of_bytes (f_data f))) (files (es_im s) (unat eid))"

definition es_room :: "extent_server \<Rightarrow> nat" where
  "es_room s = free_count (es_im s)"

lemma id_mask_ok:
  assumes "unat eid < 2147483648"
  shows "unat (id_mask eid) = unat eid"
proof -
  have "(0x7fffffff :: u64) = mask 31" by (simp add: mask_eq_exp_minus_1)
  then have "eid AND 0x7fffffff = take_bit 31 eid" by (simp only: take_bit_eq_mask)
  also have "\<dots> = eid" using assms by (simp add: word_unat_eq_iff unat_mod take_bit_eq_mod)
  finally show ?thesis using assms by (simp add: id_mask_def unsigned_ucast_eq take_bit_eq_mod)
qed

lemma id_ok_mask: "id_ok eid \<Longrightarrow> unat (id_mask eid) = unat eid"
  by (rule id_mask_ok) (simp add: id_ok_def inum_ok_def)

lemma files_ok: "files bm i \<noteq> None \<Longrightarrow> inum_ok i"
  by (auto simp: files_def live_def split: if_splits)

lemma es_tab_SomeD:
  assumes "es_tab s eid = Some (t, d)"
  obtains f where "files (es_im s) (unat eid) = Some f" "t = scast (f_type f)" "d = string_of_bytes (f_data f)"
    "unat (id_mask eid) = unat eid" "length d = length (f_data f)"
  using assms files_ok [of "es_im s" "unat eid"] id_ok_mask [of eid] by (auto simp: es_tab_def id_ok_def)

lemma es_tab_upd:
  "es_tab (s\<lparr>es_im := bm, es_tick := n\<rparr>) = es_tab (s\<lparr>es_im := bm\<rparr>)" "es_room (s\<lparr>es_im := bm, es_tick := n\<rparr>) = free_count bm"
  "es_good (s\<lparr>es_im := bm, es_tick := n\<rparr>) = fs_inv bm" "es_room (s\<lparr>es_im := bm\<rparr>) = free_count bm"
  "es_good (s\<lparr>es_im := bm\<rparr>) = fs_inv bm"
  by (simp_all add: es_tab_def es_room_def es_good_def fun_eq_iff)

lemma es_tab_files:
  assumes "files bm = (files (es_im s))(unat eid := x)"
  shows "es_tab (s\<lparr>es_im := bm\<rparr>) = (es_tab s)(eid := map_option (\<lambda>f. (scast (f_type f), string_of_bytes (f_data f))) x)"
  using assms by (auto simp: es_tab_def fun_eq_iff word_unat_eq_iff)

lemma es_get_law:
  assumes "es_good s" "id_ok eid"
  shows "\<exists>s'. es_get junk eid s = Inr ((OK, case es_tab s eid of Some (t, d) \<Rightarrow> d | None \<Rightarrow> []), s')
    \<and> es_good s' \<and> es_tab s' = es_tab s \<and> es_room s' = es_room s"
proof (cases "files (es_im s) (unat eid)")
  case None
  then have "get_inode junk (es_im s) (id_mask eid) = None"
    using get_inode_dead [OF fs_invD(1), of "es_im s" "id_mask eid" junk] id_ok_mask [OF assms(2)] assms
    by (simp add: files_None_iff es_good_def id_ok_def)
  then show ?thesis using None assms(1) by (simp add: es_get_def read_file_def es_tab_def)
next
  case (Some f)
  have f: "files (es_im s) (unat (id_mask eid)) = Some f" using Some id_ok_mask [OF assms(2)] by simp
  have inv: "fs_inv (es_im s)" using assms(1) by (simp add: es_good_def)
  from read_file_effect [OF inv f, of junk "es_now s"] obtain bm where
    r: "read_file junk (es_now s) (es_im s) (id_mask eid) = (Some (f_data f), bm)" "fs_inv bm"
    "files bm = (files (es_im s))(unat eid \<mapsto> f\<lparr>f_atime := es_now s, f_ctime := es_now s\<rparr>)"
    "free_count bm = free_count (es_im s)"
    using id_ok_mask [OF assms(2)] by auto
  have "length (f_data f) < 2147483648"
    using files_SomeD(1,3) [OF inv f] fs_invD(2) [OF inv] by (fastforce simp: MAXFILE_def)
  moreover have "es_tab (s\<lparr>es_im := bm\<rparr>) = es_tab s"
    using es_tab_files [OF r(3)] Some by (simp add: es_tab_def fun_eq_iff)
  ultimately show ?thesis
    using r Some by (auto simp: es_get_def Let_def es_tab_upd es_tab_def [of s] es_room_def [of s])
qed

lemma es_getattr_law:
  assumes "es_good s" "id_ok eid"
  shows "\<exists>a. es_getattr junk eid s = Inr ((OK, a), s) \<and> (case es_tab s eid of
      Some (t, d) \<Rightarrow> a_type a = t \<and> a_size a = of_nat (length d) | None \<Rightarrow> a_type a = 0 \<and> a_size a = 0)"
proof (cases "files (es_im s) (unat eid)")
  case None
  then have "get_inode junk (es_im s) (id_mask eid) = None"
    using get_inode_dead [OF fs_invD(1), of "es_im s" "id_mask eid" junk] id_ok_mask [OF assms(2)] assms
    by (simp add: files_None_iff es_good_def id_ok_def)
  then show ?thesis using None by (simp add: es_getattr_def im_getattr_def es_tab_def)
next
  case (Some f)
  then have "files (es_im s) (unat (id_mask eid)) = Some f" using id_ok_mask [OF assms(2)] by simp
  with im_getattr_effect [of "es_im s" "id_mask eid" f] assms(1) Some show ?thesis
    by (simp add: es_getattr_def es_tab_def es_good_def)
qed

lemma es_put_law:
  assumes "es_good s" "es_tab s eid = Some (t, d0)" "length d \<le> MAXFILE"
    "blocks_needed (length d) \<le> es_room s + blocks_needed (length d0)"
  shows "\<exists>s'. es_put junk eid d s = Inr (OK, s') \<and> es_good s' \<and> es_tab s' = (es_tab s)(eid \<mapsto> (t, d))
    \<and> es_room s' + blocks_needed (length d) = es_room s + blocks_needed (length d0)"
proof -
  obtain f where f: "files (es_im s) (unat eid) = Some f" "t = scast (f_type f)" "d0 = string_of_bytes (f_data f)"
    "unat (id_mask eid) = unat eid" "length d0 = length (f_data f)"
    using es_tab_SomeD [OF assms(2)] .
  obtain bm where w: "write_file junk (es_now s) (es_im s) (id_mask eid) (bytes_of_string d) (length d) = Inr bm"
    "fs_inv bm" "files bm = (files (es_im s))(unat eid \<mapsto> f\<lparr>f_data := bytes_of_string d, f_mtime := es_now s, f_ctime := es_now s\<rparr>)"
    "free_count bm + blocks_needed (length d) = free_count (es_im s) + blocks_needed (length (f_data f))"
    using write_file_effect [of "es_im s" "id_mask eid" f "bytes_of_string d" junk "es_now s"] assms f
    by (auto simp: es_good_def es_room_def)
  show ?thesis
    using w f es_tab_files [OF w(3)] by (simp add: es_put_def es_tab_upd es_room_def [of s] comp_def)
qed

lemma es_create_law:
  assumes "es_good s" "id_ok free" "es_tab s free = None" "type \<in> {T_DIR, T_FILE, T_SYMLINK}"
  shows "\<exists>eid s'. es_create junk type s = Inr ((OK, eid), s') \<and> id_ok eid \<and> es_tab s eid = None \<and> es_good s'
    \<and> es_tab s' = (es_tab s)(eid \<mapsto> (type, [])) \<and> es_room s' = es_room s"
proof -
  define j where "j = (LEAST j. inum_ok j \<and> files (es_im s) j = None)"
  have ex: "inum_ok (unat free) \<and> files (es_im s) (unat free) = None"
    using assms(2,3) by (simp add: id_ok_def es_tab_def)
  have j: "inum_ok j" "files (es_im s) j = None"
    unfolding j_def using LeastI [where P = "\<lambda>j. inum_ok j \<and> files (es_im s) j = None", OF ex] by auto
  have before: "\<forall>k. 1 \<le> k \<longrightarrow> k < j \<longrightarrow> files (es_im s) k \<noteq> None"
  proof (intro allI impI)
    fix k assume k: "1 \<le> k" "k < j"
    then have "inum_ok k" using j(1) by (simp add: inum_ok_def)
    with k(2) not_less_Least [of k "\<lambda>j. inum_ok j \<and> files (es_im s) j = None"] show "files (es_im s) k \<noteq> None"
      by (simp add: j_def)
  qed
  have ty: "(ucast type :: u16) \<noteq> 0" "scast (ucast type :: u16) = type" using assms(4) by auto
  obtain bm where a: "alloc_inode junk (es_now s) (es_im s) type = (of_nat j, bm)" "fs_inv bm"
    "files bm = (files (es_im s))(j \<mapsto> \<lparr>f_type = ucast type, f_atime = 0, f_mtime = 0, f_ctime = es_now s, f_data = []\<rparr>)"
    "free_count bm = free_count (es_im s)"
    using alloc_inode_effect [OF _ j before ty(1), of junk "es_now s"] assms(1) by (auto simp: es_good_def)
  have u: "unat (ucast (of_nat j :: u32) :: u64) = j" using j(1) by (simp add: inum_ok_def unsigned_ucast_eq take_bit_eq_mod)
  show ?thesis
    using a j u ty es_tab_files [of bm s "ucast (of_nat j :: u32)"]
    by (intro exI [of _ "ucast (of_nat j :: u32)"]) (simp add: es_create_def es_tab_upd es_room_def [of s] id_ok_def es_tab_def [of s])
qed

lemma es_remove_law:
  assumes "es_good s" "es_tab s eid = Some (t, d)"
  shows "\<exists>s'. es_remove junk eid s = Inr (OK, s') \<and> es_good s' \<and> es_tab s' = (es_tab s)(eid := None)
    \<and> es_room s' = es_room s + blocks_needed (length d)"
proof -
  obtain f where f: "files (es_im s) (unat eid) = Some f" "unat (id_mask eid) = unat eid" "length d = length (f_data f)"
    using es_tab_SomeD [OF assms(2)] .
  obtain bm where r: "remove_file junk (es_im s) (id_mask eid) = Inr bm" "fs_inv bm"
    "files bm = (files (es_im s))(unat eid := None)" "free_count bm = free_count (es_im s) + blocks_needed (length (f_data f))"
    using remove_file_effect [of "es_im s" "id_mask eid" f junk] assms(1) f by (auto simp: es_good_def)
  show ?thesis
    using r f es_tab_files [OF r(3)] by (simp add: es_remove_def es_tab_upd es_room_def [of s])
qed

interpretation es: extent_store "es_ops junk" es_good es_tab es_room
  for junk
proof
  show "es_tab s eid \<noteq> None \<Longrightarrow> id_ok eid" for s eid
    using files_ok [of "es_im s" "unat eid"] by (auto simp: es_tab_def id_ok_def)
  show "length d \<le> MAXFILE" if g: "es_good s" and t: "es_tab s eid = Some (t, d)" for s eid t d
  proof -
    obtain f where f: "files (es_im s) (unat eid) = Some f" "length d = length (f_data f)"
      using es_tab_SomeD [OF t] .
    have inv: "fs_inv (es_im s)" using g by (simp add: es_good_def)
    show ?thesis using files_SomeD(1,3) [OF inv f(1)] fs_invD(2) [OF inv] f(2) by simp
  qed
  show "\<exists>s'. ec_get (es_ops junk) eid b s = Inr ((OK, case es_tab s eid of Some (t, d) \<Rightarrow> d | None \<Rightarrow> []), s')
      \<and> es_good s' \<and> es_tab s' = es_tab s \<and> es_room s' = es_room s" if "es_good s" "id_ok eid" for s eid b
    using es_get_law [OF that] by (simp add: es_ops_def)
  show "\<exists>a s'. ec_getattr (es_ops junk) eid a0 s = Inr ((OK, a), s')
      \<and> (case es_tab s eid of Some (t, d) \<Rightarrow> a_type a = t \<and> a_size a = of_nat (length d) | None \<Rightarrow> a_type a = 0 \<and> a_size a = 0)
      \<and> es_good s' \<and> es_tab s' = es_tab s \<and> es_room s' = es_room s" if "es_good s" "id_ok eid" for s eid a0
    using es_getattr_law [OF that, of junk] that(1) by (auto simp: es_ops_def)
  show "\<exists>s'. ec_put (es_ops junk) eid d s = Inr (OK, s') \<and> es_good s' \<and> es_tab s' = (es_tab s)(eid \<mapsto> (t, d))
      \<and> es_room s' + blocks_needed (length d) = es_room s + blocks_needed (length d0)"
    if "es_good s" "es_tab s eid = Some (t, d0)" "length d \<le> MAXFILE"
      "blocks_needed (length d) \<le> es_room s + blocks_needed (length d0)" for s eid t d0 d
    using es_put_law [OF that] by (simp add: es_ops_def)
  show "\<exists>eid s'. ec_create (es_ops junk) type id0 s = Inr ((OK, eid), s') \<and> id_ok eid \<and> es_tab s eid = None \<and> es_good s'
      \<and> es_tab s' = (es_tab s)(eid \<mapsto> (type, [])) \<and> es_room s' = es_room s"
    if "es_good s" "id_ok free" "es_tab s free = None" "type \<in> {T_DIR, T_FILE, T_SYMLINK}" for s free type id0
    using es_create_law [OF that] by (simp add: es_ops_def)
  show "\<exists>s'. ec_remove (es_ops junk) eid s = Inr (OK, s') \<and> es_good s' \<and> es_tab s' = (es_tab s)(eid := None)
      \<and> es_room s' = es_room s + blocks_needed (length d)"
    if "es_good s" "es_tab s eid = Some (t, d)" for s eid t d
    using es_remove_law [OF that] by (simp add: es_ops_def)
qed

text \<open>The status of every handler that returns is \<^verbatim>\<open>OK\<close>.\<close>

lemma es_status:
  "es_create junk ty es = Inr (x, es') \<Longrightarrow> \<exists>i. x = (OK, i)" "es_get junk eid es = Inr (y, es') \<Longrightarrow> \<exists>buf. y = (OK, buf)"
  "es_getattr junk eid es = Inr (z, es') \<Longrightarrow> \<exists>a. z = (OK, a)" "es_put junk eid b es = Inr (r, es') \<Longrightarrow> r = OK"
  "es_remove junk eid es = Inr (r, es') \<Longrightarrow> r = OK"
  by (auto simp: es_create_def es_get_def es_getattr_def es_put_def es_remove_def Let_def rbind_Inr_iff split: prod.splits option.splits if_splits)

section \<open>A fresh server\<close>

lemma extent_server_init_effect:
  "\<exists>s. extent_server_init junk clock = Some s \<and> es_good s \<and> es_tab s = [1 \<mapsto> (T_DIR, [])] \<and> es_room s = 31734"
proof -
  obtain bm where bm: "inode_manager_init junk (clock 0) = Some bm" "fs_inv bm"
    "files bm = [1 \<mapsto> \<lparr>f_type = 1, f_atime = 0, f_mtime = 0, f_ctime = clock 0, f_data = []\<rparr>]" "free_count bm = 31734"
    using inode_manager_init_effect [of junk "clock 0"] by blast
  then have "es_tab \<lparr>es_im = bm, es_clock = clock, es_tick = 1\<rparr> = [1 \<mapsto> (T_DIR, [])]"
    by (auto simp: es_tab_def fun_eq_iff word_unat_eq_iff)
  with bm show ?thesis by (simp add: extent_server_init_def es_good_def es_room_def)
qed

end
