(* ===== verification/Directory.thy ===== *)
theory Directory
  imports Prelude "HOL-Library.Sublist"
begin

text \<open>
  The format of directories in \<^verbatim>\<open>src/yfs_client.cc\<close>: the contents of a directory is the
  concatenation of \<^verbatim>\<open>name/inum/\<close> for its entries.  This theory models the string functions of
  \<^verbatim>\<open>std::string\<close> the code uses, \<^verbatim>\<open>filename\<close>, \<^verbatim>\<open>n2i\<close>, the loop of \<^verbatim>\<open>_readdir\<close> and the
  search-and-replace of \<^verbatim>\<open>_unlink\<close>, and shows when they undo each other.
\<close>

section \<open>\<^verbatim>\<open>std::string\<close>\<close>

text \<open>\<^verbatim>\<open>s.find(c)\<close>; \<open>None\<close> is \<^verbatim>\<open>npos\<close>.\<close>

fun find_char :: "char \<Rightarrow> string \<Rightarrow> nat option" where
  "find_char c [] = None"
| "find_char c (x # xs) = (if x = c then Some 0 else map_option Suc (find_char c xs))"

text \<open>\<^verbatim>\<open>s.find(pat)\<close>.\<close>

fun find_sub :: "string \<Rightarrow> string \<Rightarrow> nat option" where
  "find_sub pat [] = (if pat = [] then Some 0 else None)"
| "find_sub pat (x # xs) =
     (if take (length pat) (x # xs) = pat then Some 0 else map_option Suc (find_sub pat xs))"

text \<open>
  \<^verbatim>\<open>s.substr(0, pos)\<close> and \<^verbatim>\<open>s.substr(pos + 1)\<close>; with \<^verbatim>\<open>npos\<close> the sum wraps to 0 and the whole
  string is returned.
\<close>

definition substr_to :: "string \<Rightarrow> nat option \<Rightarrow> string" where
  "substr_to s pos = (case pos of None \<Rightarrow> s | Some p \<Rightarrow> take p s)"

definition substr_after :: "string \<Rightarrow> nat option \<Rightarrow> string" where
  "substr_after s pos = (case pos of None \<Rightarrow> s | Some p \<Rightarrow> drop (Suc p) s)"

section \<open>Inode numbers as text\<close>

definition digit :: "nat \<Rightarrow> char" where
  "digit d = char_of (48 + d)"

definition isdigit :: "char \<Rightarrow> bool" where
  "isdigit c \<longleftrightarrow> 48 \<le> (of_char c :: nat) \<and> (of_char c :: nat) \<le> 57"

definition isspace :: "char \<Rightarrow> bool" where
  "isspace c \<longleftrightarrow> (of_char c :: nat) = 32 \<or> 9 \<le> (of_char c :: nat) \<and> (of_char c :: nat) \<le> 13"

fun show_nat :: "nat \<Rightarrow> string" where
  "show_nat n = (if n < 10 then [digit n] else show_nat (n div 10) @ [digit (n mod 10)])"

declare show_nat.simps [simp del]

definition read_nat :: "string \<Rightarrow> nat" where
  "read_nat ds = foldl (\<lambda>a c. 10 * a + (of_char c - 48)) 0 ds"

text \<open>\<^verbatim>\<open>ost << inum\<close>.\<close>

definition filename :: "u64 \<Rightarrow> string" where
  "filename i = show_nat (unat i)"

text \<open>
  \<^verbatim>\<open>ist >> finum\<close>: leading white space is skipped; at the end of the input nothing is stored and
  the uninitialised \<^verbatim>\<open>finum\<close> is returned; without digits 0 is stored, on overflow the largest
  value, and a minus sign negates modulo $2^{64}$.
\<close>

definition n2i :: "u64 \<Rightarrow> string \<Rightarrow> u64" where
  "n2i finum n =
     (let t = dropWhile isspace n
      in if t = [] then finum
         else let neg = (hd t = CHR ''-'');
                  ds = takeWhile isdigit (if hd t = CHR ''-'' \<or> hd t = CHR ''+'' then tl t else t);
                  v = read_nat ds
              in if 2 ^ 64 \<le> v then - 1 else if neg then - of_nat v else of_nat v)"

section \<open>Entries\<close>

record dirent =
  de_name :: string
  de_inum :: u64

text \<open>The text of one entry, as \<^verbatim>\<open>_create\<close>, \<^verbatim>\<open>_mkdir\<close>, \<^verbatim>\<open>_symlink\<close> and \<^verbatim>\<open>_unlink\<close> build it.\<close>

definition entry_text :: "string \<Rightarrow> u64 \<Rightarrow> string" where
  "entry_text name i = name @ ''/'' @ filename i @ ''/''"

text \<open>
  The loop of \<^verbatim>\<open>_readdir\<close>; \<open>finum k\<close> is what the uninitialised local of \<^verbatim>\<open>n2i\<close> holds at the \<open>k\<close>-th
  call.  Not returning is \<open>None\<close>.
\<close>

partial_function (option) readdir_loop :: "(nat \<Rightarrow> u64) \<Rightarrow> string \<Rightarrow> dirent list \<Rightarrow> dirent list option" where
  "readdir_loop finum buf list =
     (if buf = [] then Some list
      else let pos = find_char CHR ''/'' buf;
               name = substr_to buf pos;
               buf1 = substr_after buf pos;
               pos1 = find_char CHR ''/'' buf1;
               i = n2i (finum (length list)) (substr_to buf1 pos1);
               buf2 = substr_after buf1 pos1
           in readdir_loop finum buf2 (list @ [\<lparr>de_name = name, de_inum = i\<rparr>]))"

text \<open>
  \<^verbatim>\<open>buf.replace(buf.find(ent), ent.size(), "")\<close>: with \<^verbatim>\<open>npos\<close> it throws \<^verbatim>\<open>std::out_of_range\<close>.
\<close>

definition erase_entry :: "string \<Rightarrow> string \<Rightarrow> string res" where
  "erase_entry ent buf =
     (case find_sub ent buf of
        None \<Rightarrow> Inl Out_Of_Range
      | Some p \<Rightarrow> Inr (take p buf @ drop (p + length ent) buf))"

text \<open>The contents of a directory with the given entries.\<close>

definition dir_text :: "dirent list \<Rightarrow> string" where
  "dir_text es = concat (map (\<lambda>e. entry_text (de_name e) (de_inum e)) es)"

lemma dir_text_simps [simp]:
  "dir_text [] = []"
  "dir_text (e # es) = entry_text (de_name e) (de_inum e) @ dir_text es"
  "dir_text (xs @ ys) = dir_text xs @ dir_text ys"
  by (simp_all add: dir_text_def)

section \<open>Decimal numbers\<close>

lemma of_char_digit: "d < 10 \<Longrightarrow> of_char (digit d) = 48 + d"
  by (simp add: digit_def)

lemma isdigit_digit [simp]: "d < 10 \<Longrightarrow> isdigit (digit d)"
  by (simp add: isdigit_def of_char_digit)

lemma show_nat_digits: "c \<in> set (show_nat n) \<Longrightarrow> isdigit c"
  by (induction n rule: show_nat.induct) (subst (asm) (2) show_nat.simps, auto split: if_splits)

lemma show_nat_not_Nil [simp]: "show_nat n \<noteq> []"
  by (subst show_nat.simps) simp

lemma read_show_nat [simp]: "read_nat (show_nat n) = n"
proof (induction n rule: show_nat.induct)
  case (1 n)
  then show ?case
    by (cases "n < 10") (subst show_nat.simps, simp add: read_nat_def of_char_digit)+
qed

lemma filename_digits: "c \<in> set (filename i) \<Longrightarrow> isdigit c"
  by (simp add: filename_def show_nat_digits)

lemma filename_not_Nil [simp]: "filename i \<noteq> []"
  by (simp add: filename_def)

lemma slash_filename [simp]: "CHR ''/'' \<notin> set (filename i)"
  using filename_digits [of "CHR ''/''" i] by (auto simp: isdigit_def)

lemma n2i_filename [simp]: "n2i finum (filename i) = i"
proof -
  have d: "\<forall>c \<in> set (filename i). isdigit c" by (simp add: filename_digits)
  have h: "isdigit (hd (filename i))" using d by simp
  then have "\<not> isspace (hd (filename i))" "hd (filename i) \<noteq> CHR ''-''" "hd (filename i) \<noteq> CHR ''+''"
    by (auto simp: isdigit_def isspace_def)
  moreover from this(1) have "dropWhile isspace (filename i) = filename i"
    by (cases "filename i") simp_all
  moreover have "takeWhile isdigit (filename i) = filename i" using d by (simp add: takeWhile_eq_all_conv)
  moreover have "unat i < 2 ^ 64" "read_nat (filename i) = unat i"
    using unsigned_less [of i, where ?'a = nat] by (simp_all add: filename_def)
  ultimately show ?thesis by (simp add: n2i_def Let_def takeWhile_eq_all_conv [THEN iffD2])
qed

lemma filename_inj [simp]: "filename i = filename j \<longleftrightarrow> i = j"
  using n2i_filename [of 0 i] n2i_filename [of 0 j] by metis

section \<open>Reading back what was written\<close>

lemma find_char_None_iff: "find_char c s = None \<longleftrightarrow> c \<notin> set s"
  by (induction s) auto

lemma find_char_append [simp]: "c \<notin> set n \<Longrightarrow> find_char c (n @ c # r) = Some (length n)"
  by (induction n) auto

lemma find_char_SomeD: "find_char c s = Some p \<Longrightarrow> p < length s"
  by (induction s arbitrary: p) (auto split: if_splits)

lemma readdir_step:
  assumes "CHR ''/'' \<notin> set (de_name e)"
  shows "readdir_loop finum (entry_text (de_name e) (de_inum e) @ r) list = readdir_loop finum r (list @ [e])"
proof -
  obtain n i where e: "e = \<lparr>de_name = n, de_inum = i\<rparr>" by (cases e)
  show ?thesis using assms unfolding e
    by (subst readdir_loop.simps) (simp add: entry_text_def substr_to_def substr_after_def Let_def)
qed

lemma readdir_dir_text:
  assumes "\<forall>e \<in> set es. CHR ''/'' \<notin> set (de_name e)"
  shows "readdir_loop finum (dir_text es) list = Some (list @ es)"
  using assms
proof (induction es arbitrary: list)
  case Nil
  then show ?case by (simp add: readdir_loop.simps)
next
  case (Cons e es)
  then show ?case using readdir_step [of e finum "dir_text es" list] by simp
qed

section \<open>When the loop of \<^verbatim>\<open>_readdir\<close> returns\<close>

definition parses :: "string \<Rightarrow> bool" where
  "parses buf \<longleftrightarrow> buf = [] \<or> last buf = CHR ''/''"

lemma parses_after: "parses (substr_after buf (find_char CHR ''/'' buf)) \<longleftrightarrow> parses buf"
proof (cases "find_char CHR ''/'' buf")
  case None
  then show ?thesis by (simp add: substr_after_def)
next
  case (Some p)
  have p: "p < length buf" using Some by (rule find_char_SomeD)
  have "buf ! p = CHR ''/''" using Some
    by (induction buf arbitrary: p) (auto split: if_splits)
  with p have "buf = take p buf @ CHR ''/'' # drop (Suc p) buf" by (metis id_take_nth_drop)
  then have l: "last buf = last (CHR ''/'' # drop (Suc p) buf)" by (metis last_append list.distinct(1))
  show ?thesis
  proof (cases "drop (Suc p) buf = []")
    case True
    with l Some show ?thesis by (simp add: substr_after_def parses_def)
  next
    case False
    then have "last buf = last (drop (Suc p) buf)" using l by (metis last_ConsR)
    moreover have "buf \<noteq> []" using p by auto
    ultimately show ?thesis using False Some by (simp only: substr_after_def parses_def option.case)
  qed
qed

lemma readdir_parses:
  assumes "readdir_loop finum buf list = Some y"
  shows "parses buf"
proof (rule readdir_loop.raw_induct [where P = "\<lambda>finum buf list y. parses buf", OF _ assms])
  fix f finum buf list y
  assume IH: "\<And>finum buf list y. f finum buf list = Some y \<Longrightarrow> parses buf"
    and body: "(if buf = [] then Some list
      else let pos = find_char CHR ''/'' buf; name = substr_to buf pos; buf1 = substr_after buf pos;
               pos1 = find_char CHR ''/'' buf1; i = n2i (finum (length list)) (substr_to buf1 pos1);
               buf2 = substr_after buf1 pos1
           in f finum buf2 (list @ [\<lparr>de_name = name, de_inum = i\<rparr>])) = Some y"
  show "parses buf"
  proof (cases "buf = []")
    case True
    then show ?thesis by (simp add: parses_def)
  next
    case False
    with body have "parses (substr_after (substr_after buf (find_char CHR ''/'' buf))
        (find_char CHR ''/'' (substr_after buf (find_char CHR ''/'' buf))))"
      by (auto simp: Let_def dest: IH)
    then show ?thesis by (simp add: parses_after)
  qed
qed

lemma readdir_returns:
  "parses buf \<Longrightarrow> \<exists>y. readdir_loop finum buf list = Some y"
proof (induction "length buf" arbitrary: buf list rule: less_induct)
  case less
  show ?case
  proof (cases "buf = []")
    case True
    then show ?thesis by (simp add: readdir_loop.simps)
  next
    case False
    define buf1 where "buf1 = substr_after buf (find_char CHR ''/'' buf)"
    define buf2 where "buf2 = substr_after buf1 (find_char CHR ''/'' buf1)"
    have "CHR ''/'' \<in> set buf" using less.prems False by (metis last_in_set parses_def)
    then have "length buf1 < length buf"
      using False by (cases "find_char CHR ''/'' buf") (simp_all add: find_char_None_iff buf1_def substr_after_def)
    moreover have "length buf2 \<le> length buf1" by (simp add: buf2_def substr_after_def split: option.split)
    moreover have "parses buf2" using less.prems by (simp add: buf2_def buf1_def parses_after)
    ultimately show ?thesis
      using less.hyps False by (subst readdir_loop.simps) (simp add: Let_def buf1_def buf2_def)
  qed
qed

section \<open>Erasing an entry\<close>

lemma take_eq_slash:
  assumes "CHR ''/'' \<notin> set a" "CHR ''/'' \<notin> set b"
  shows "take (length (a @ CHR ''/'' # x)) (b @ CHR ''/'' # y) = a @ CHR ''/'' # x \<longleftrightarrow>
    a = b \<and> take (length x) y = x"
  using assms
proof (induction a arbitrary: b)
  case Nil
  then show ?case by (cases b) auto
next
  case (Cons c a)
  then show ?case by (cases b) auto
qed

lemma find_sub_prefix: "find_sub pat (pat @ r) = Some 0"
proof (cases "pat @ r")
  case (Cons x xs)
  then have "take (length pat) (x # xs) = pat" by (metis append_eq_conv_conj)
  then show ?thesis unfolding Cons by (simp only: find_sub.simps simp_thms if_True)
qed simp

lemma find_sub_skip:
  "(\<And>k. k < length a \<Longrightarrow> take (length pat) (drop k a @ b) \<noteq> pat) \<Longrightarrow>
    find_sub pat (a @ b) = map_option (\<lambda>p. length a + p) (find_sub pat b)"
proof (induction a)
  case Nil
  then show ?case by (simp add: option.map_ident)
next
  case (Cons c a)
  from Cons.prems [of 0] have "take (length pat) (c # a @ b) \<noteq> pat" by simp
  moreover have "find_sub pat (a @ b) = map_option (\<lambda>p. length a + p) (find_sub pat b)"
    using Cons.prems [of "Suc _"] by (intro Cons.IH) simp
  ultimately show ?case by (simp add: option.map_comp comp_def)
qed

text \<open>Digits only: such a name can be mistaken for the end of an inode number.\<close>

definition numeric :: "string \<Rightarrow> bool" where
  "numeric s \<longleftrightarrow> (\<forall>c \<in> set s. isdigit c)"

lemma no_match_inside:
  assumes n: "name \<noteq> []" "CHR ''/'' \<notin> set name" and n1: "CHR ''/'' \<notin> set n1" and i: "i1 \<noteq> i"
    and safe: "numeric name \<Longrightarrow> es \<noteq> [] \<Longrightarrow> de_name (hd es) \<noteq> filename i" and es: "\<forall>e \<in> set es. CHR ''/'' \<notin> set (de_name e)"
    and k: "k < length (entry_text n1 i1)"
  shows "take (length (entry_text name i)) (drop k (entry_text n1 i1) @ dir_text es) \<noteq> entry_text name i"
proof -
  have ent: "entry_text name i = name @ CHR ''/'' # filename i @ ''/''" by (simp add: entry_text_def)
  have m: "take (length (entry_text name i)) (a @ CHR ''/'' # y) = entry_text name i \<longleftrightarrow>
      name = a \<and> take (length (filename i @ ''/'')) y = filename i @ ''/''" if "CHR ''/'' \<notin> set a" for a y
    unfolding ent by (rule take_eq_slash [OF n(2) that])
  have fn: "take (length (filename i @ ''/'')) (a @ CHR ''/'' # y) = filename i @ ''/'' \<longleftrightarrow> filename i = a"
    if "CHR ''/'' \<notin> set a" for a y
    using take_eq_slash [OF slash_filename that, of i "[]" y] by (simp only: list.size take0 simp_thms)
  show ?thesis
  proof (cases "k \<le> length n1")
    case True
    have "CHR ''/'' \<notin> set (drop k n1)" using n1 by (meson in_set_dropD)
    then show ?thesis
      using True i m [of "drop k n1"] fn [of "filename i1" "dir_text es"] by (simp add: entry_text_def [of n1])
  next
    case False
    then have 2: "length n1 < k" "k \<le> length n1 + 1 + length (filename i1)"
      using k by (simp_all add: entry_text_def)
    define j where "j = k - length n1 - 1"
    have kj: "k = length n1 + Suc j" "j \<le> length (filename i1)" using 2 by (simp_all add: j_def)
    have dk: "drop k (entry_text n1 i1) = drop j (filename i1) @ ''/''"
      using kj(2) unfolding kj(1) by (simp add: entry_text_def)
    have sl: "CHR ''/'' \<notin> set (drop j (filename i1))" by (meson in_set_dropD slash_filename)
    show ?thesis
    proof
      assume "take (length (entry_text name i)) (drop k (entry_text n1 i1) @ dir_text es) = entry_text name i"
      then have "take (length (entry_text name i)) (drop j (filename i1) @ CHR ''/'' # dir_text es) = entry_text name i"
        by (simp only: dk append.simps append_assoc)
      then have a: "name = drop j (filename i1)" "take (length (filename i @ ''/'')) (dir_text es) = filename i @ ''/''"
        by (simp_all only: m [OF sl])
      from a(1) have num: "numeric name" using filename_digits by (auto simp: numeric_def dest: in_set_dropD)
      show False
      proof (cases es)
        case Nil
        with a(2) show False by simp
      next
        case (Cons e es')
        then have sl2: "CHR ''/'' \<notin> set (de_name e)" using es by simp
        have "dir_text es = de_name e @ CHR ''/'' # filename (de_inum e) @ ''/'' @ dir_text es'"
          using Cons by (simp add: entry_text_def)
        with a(2) have "de_name e = filename i" by (simp only: fn [OF sl2])
        with safe num Cons show False by simp
      qed
    qed
  qed
qed

lemma erase_dir_text:
  assumes "name \<noteq> []" "\<forall>e \<in> set (xs @ ys). CHR ''/'' \<notin> set (de_name e)" "CHR ''/'' \<notin> set name"
    and "\<forall>e \<in> set xs. de_inum e \<noteq> i"
    and "numeric name \<Longrightarrow> \<forall>e \<in> set xs. de_name e \<noteq> filename i" "name \<noteq> filename i \<or> xs = []"
  shows "erase_entry (entry_text name i) (dir_text (xs @ \<lparr>de_name = name, de_inum = i\<rparr> # ys)) = Inr (dir_text (xs @ ys))"
proof -
  let ?e = "\<lparr>de_name = name, de_inum = i\<rparr>"
  have "find_sub (entry_text name i) (dir_text (xs @ ?e # ys)) = Some (length (dir_text xs))"
    using assms
  proof (induction xs)
    case Nil
    show ?case using find_sub_prefix [of "entry_text name i" "dir_text ys"] by simp
  next
    case (Cons e xs)
    let ?rest = "xs @ ?e # ys"
    have rest: "\<forall>e \<in> set ?rest. CHR ''/'' \<notin> set (de_name e)" "CHR ''/'' \<notin> set (de_name e)" "de_inum e \<noteq> i"
      using Cons.prems(2-4) by auto
    have hd: "de_name (hd ?rest) \<noteq> filename i" if "numeric name"
      using Cons.prems(5,6) that by (cases xs) auto
    have skip: "find_sub (entry_text name i) (entry_text (de_name e) (de_inum e) @ dir_text ?rest)
        = map_option (\<lambda>p. length (entry_text (de_name e) (de_inum e)) + p) (find_sub (entry_text name i) (dir_text ?rest))"
      by (rule find_sub_skip, rule no_match_inside [OF Cons.prems(1,3) rest(2,3) hd rest(1)])
    have "find_sub (entry_text name i) (dir_text ?rest) = Some (length (dir_text xs))"
      using Cons.prems by (intro Cons.IH) auto
    with skip show ?case by simp
  qed
  then show ?thesis by (simp add: erase_entry_def)
qed

lemma digit_simps:
  "digit 0 = CHR ''0''" "digit (Suc 0) = CHR ''1''" "digit 2 = CHR ''2''" "digit 3 = CHR ''3''" "digit 4 = CHR ''4''"
  "digit 5 = CHR ''5''" "digit 6 = CHR ''6''" "digit 7 = CHR ''7''" "digit 8 = CHR ''8''" "digit 9 = CHR ''9''"
  by code_simp+

section \<open>Properties of the format\<close>

text \<open>C32. Reading a directory gives back exactly the entries that were written, in order, when no name
  contains a slash; in particular every inode number survives its decimal text.\<close>

theorem readdir_roundtrip:
  assumes "\<forall>e \<in> set es. CHR ''/'' \<notin> set (de_name e)"
  shows "readdir_loop finum (dir_text es) [] = Some es"
  using readdir_dir_text [OF assms, of finum "[]"] by simp

theorem readdir_roundtrip_witness:
  "readdir_loop (\<lambda>_. 0) (dir_text [\<lparr>de_name = ''a'', de_inum = 7\<rparr>, \<lparr>de_name = ''b c'', de_inum = 18446744073709551615\<rparr>]) []
     = Some [\<lparr>de_name = ''a'', de_inum = 7\<rparr>, \<lparr>de_name = ''b c'', de_inum = 18446744073709551615\<rparr>]"
  by (rule readdir_roundtrip) simp

text \<open>C33. The loop of \<^verbatim>\<open>_readdir\<close> returns on exactly the empty contents and those that end in a slash;
  on any other contents (a directory cut short by \<^verbatim>\<open>setattr\<close>, for example) it runs forever.\<close>

theorem readdir_returns_iff:
  "(\<exists>y. readdir_loop finum buf list = Some y) \<longleftrightarrow> buf = [] \<or> last buf = CHR ''/''"
  using readdir_parses readdir_returns [of buf finum list] by (auto simp: parses_def)

text \<open>\<^verbatim>\<open>_unlink\<close> cuts exactly the entry it looked up out of the directory, provided the inode number
  does not occur in an earlier entry and, for a name made of digits only, no name up to and including
  the entry itself is the decimal text of that inode number.\<close>

lemma erase_entry_correct:
  assumes "name \<noteq> []" "\<forall>e \<in> set (xs @ ys). CHR ''/'' \<notin> set (de_name e)" "CHR ''/'' \<notin> set name"
    and "\<forall>e \<in> set xs. de_inum e \<noteq> i"
    and "numeric name \<Longrightarrow> \<forall>e \<in> set xs. de_name e \<noteq> filename i" "name \<noteq> filename i \<or> xs = []"
  shows "erase_entry (entry_text name i) (dir_text (xs @ \<lparr>de_name = name, de_inum = i\<rparr> # ys)) = Inr (dir_text (xs @ ys))"
  using assms by (rule erase_dir_text)

lemma erase_entry_correct_witness:
  "erase_entry (entry_text ''a'' 7) (dir_text ([\<lparr>de_name = ''b'', de_inum = 17\<rparr>] @ \<lparr>de_name = ''a'', de_inum = 7\<rparr> # []))
     = Inr (dir_text ([\<lparr>de_name = ''b'', de_inum = 17\<rparr>] @ []))"
  by (rule erase_entry_correct) (auto simp: numeric_def isdigit_def filename_def show_nat.simps digit_simps)

text \<open>Without that proviso it cuts across entries: in a directory with files \<^verbatim>\<open>x\<close>, \<^verbatim>\<open>7\<close> and \<^verbatim>\<open>2\<close>
  (inodes 12, 9 and 7), unlinking \<^verbatim>\<open>2\<close> removes the end of the first entry and the name of the
  second.\<close>

lemma erase_entry_confused:
  "erase_entry (entry_text ''2'' 7)
     (dir_text [\<lparr>de_name = ''x'', de_inum = 12\<rparr>, \<lparr>de_name = ''7'', de_inum = 9\<rparr>, \<lparr>de_name = ''2'', de_inum = 7\<rparr>])
   = Inr ''x/19/2/7/''"
  by (simp add: erase_entry_def entry_text_def filename_def show_nat.simps digit_simps)

end
