(* ===== verification/Yfs_Client.thy ===== *)
theory Yfs_Client
  imports Extent_Server Directory
begin

text \<open>
  The file system operations of \<^verbatim>\<open>src/yfs_client.cc\<close> over an extent client and a lock client.  An
  operation is a function on the state \<open>'s\<close> of the world behind the two clients; the record \<open>env\<close>
  holds the operations of the clients, and \<open>locals\<close> the values found in uninitialised locals.
\<close>

section \<open>The world of a client\<close>

text \<open>The lock client's \<^verbatim>\<open>acquire\<close> and \<^verbatim>\<open>release\<close> return a status that no caller looks at.\<close>

record 's env =
  ec :: "'s ext_ops"
  lc_acquire :: "u64 \<Rightarrow> 's \<Rightarrow> 's"
  lc_release :: "u64 \<Rightarrow> 's \<Rightarrow> 's"

record locals =
  l_finum :: "nat \<Rightarrow> u64"
  l_attr :: attr
  l_inum :: u64

record fileinfo =
  fi_size :: u64
  fi_atime :: u64
  fi_mtime :: u64
  fi_ctime :: u64

record dirinfo =
  di_atime :: u64
  di_mtime :: u64
  di_ctime :: u64

text \<open>\<^verbatim>\<open>std::string::resize\<close> and \<^verbatim>\<open>std::string::replace\<close> at a position inside the string.\<close>

definition resize :: "string \<Rightarrow> nat \<Rightarrow> string" where
  "resize s n = take n s @ replicate (n - length s) CHR 0x00"

definition replace_at :: "string \<Rightarrow> nat \<Rightarrow> nat \<Rightarrow> string \<Rightarrow> string" where
  "replace_at s p n t = take p s @ t @ drop (p + n) s"

section \<open>Operations without the lock\<close>

definition isfile' :: "locals \<Rightarrow> 's env \<Rightarrow> u64 \<Rightarrow> ('s, bool) op" where
  "isfile' l E inum =
     andthen (ec_getattr (ec E) inum (l_attr l)) (\<lambda>(r, a).
     if r \<noteq> OK then ret False
     else if a_type a = T_FILE then ret True
     else ret False)"

definition isdir' :: "locals \<Rightarrow> 's env \<Rightarrow> u64 \<Rightarrow> ('s, bool) op" where
  "isdir' l E inum =
     andthen (ec_getattr (ec E) inum (l_attr l)) (\<lambda>(r, a).
     if r \<noteq> OK then ret False
     else if a_type a = T_DIR then ret True
     else ret False)"

definition getfile' :: "locals \<Rightarrow> 's env \<Rightarrow> u64 \<Rightarrow> fileinfo \<Rightarrow> ('s, int \<times> fileinfo) op" where
  "getfile' l E inum fin =
     andthen (ec_getattr (ec E) inum (l_attr l)) (\<lambda>(r, a).
     if r \<noteq> OK then ret (IOERR, fin)
     else ret (OK, \<lparr>fi_size = ucast (a_size a), fi_atime = ucast (a_atime a), fi_mtime = ucast (a_mtime a),
                    fi_ctime = ucast (a_ctime a)\<rparr>))"

definition getdir' :: "locals \<Rightarrow> 's env \<Rightarrow> u64 \<Rightarrow> dirinfo \<Rightarrow> ('s, int \<times> dirinfo) op" where
  "getdir' l E inum din =
     andthen (ec_getattr (ec E) inum (l_attr l)) (\<lambda>(r, a).
     if r \<noteq> OK then ret (IOERR, din)
     else ret (OK, \<lparr>di_atime = ucast (a_atime a), di_mtime = ucast (a_mtime a), di_ctime = ucast (a_ctime a)\<rparr>))"

definition setattr' :: "'s env \<Rightarrow> u64 \<Rightarrow> nat \<Rightarrow> ('s, int) op" where
  "setattr' E ino sz =
     andthen (ec_get (ec E) ino []) (\<lambda>(r, buf).
     if r \<noteq> OK then ret r
     else ec_put (ec E) ino (resize buf sz))"

definition readdir' :: "locals \<Rightarrow> 's env \<Rightarrow> u64 \<Rightarrow> dirent list \<Rightarrow> ('s, int \<times> dirent list) op" where
  "readdir' l E dir list =
     andthen (ec_get (ec E) dir []) (\<lambda>(r, buf).
     if r \<noteq> OK then ret (r, list)
     else (\<lambda>s. case readdir_loop (l_finum l) buf list of
                  None \<Rightarrow> Inl No_Return
                | Some list \<Rightarrow> Inr ((r, list), s)))"

text \<open>The results are the status, \<^verbatim>\<open>found\<close> and \<^verbatim>\<open>ino_out\<close>.\<close>

definition lookup' :: "locals \<Rightarrow> 's env \<Rightarrow> u64 \<Rightarrow> string \<Rightarrow> u64 \<Rightarrow> ('s, int \<times> bool \<times> u64) op" where
  "lookup' l E parent name ino_out =
     andthen (isdir' l E parent) (\<lambda>d.
     if \<not> d then ret (OK, False, ino_out)
     else andthen (readdir' l E parent []) (\<lambda>(r, ents).
     if r \<noteq> OK then ret (r, False, ino_out)
     else case find (\<lambda>e. de_name e = name) ents of
            Some e \<Rightarrow> ret (EXIST, True, de_inum e)
          | None \<Rightarrow> ret (r, False, ino_out)))"

text \<open>The end of \<^verbatim>\<open>_create\<close>, \<^verbatim>\<open>_mkdir\<close> and \<^verbatim>\<open>_symlink\<close>: an entry is appended to the parent.\<close>

definition add_entry :: "'s env \<Rightarrow> u64 \<Rightarrow> string \<Rightarrow> u64 \<Rightarrow> ('s, int \<times> u64) op" where
  "add_entry E parent name ino_out =
     andthen (ec_get (ec E) parent []) (\<lambda>(r, buf).
     if r \<noteq> OK then ret (r, ino_out)
     else andthen (ec_put (ec E) parent (buf @ entry_text name ino_out)) (\<lambda>r.
     ret (r, ino_out)))"

text \<open>The status of \<^verbatim>\<open>ec->create\<close> is ignored.\<close>

definition create' :: "locals \<Rightarrow> 's env \<Rightarrow> u64 \<Rightarrow> string \<Rightarrow> u64 \<Rightarrow> ('s, int \<times> u64) op" where
  "create' l E parent name ino_out =
     andthen (lookup' l E parent name ino_out) (\<lambda>(r, found, ino_out).
     if found then ret (r, ino_out)
     else andthen (ec_create (ec E) T_FILE ino_out) (\<lambda>(_, ino_out).
     add_entry E parent name ino_out))"

definition mkdir' :: "locals \<Rightarrow> 's env \<Rightarrow> u64 \<Rightarrow> string \<Rightarrow> u64 \<Rightarrow> ('s, int \<times> u64) op" where
  "mkdir' l E parent name ino_out =
     andthen (lookup' l E parent name ino_out) (\<lambda>(r, found, ino_out).
     if found then ret (r, ino_out)
     else andthen (ec_create (ec E) T_DIR ino_out) (\<lambda>(_, ino_out).
     add_entry E parent name ino_out))"

text \<open>
  \<^verbatim>\<open>off\<close> is a signed 64-bit offset.  The length is compared as a 32-bit \<^verbatim>\<open>int\<close>, the offset is
  truncated to 32 bits, and \<^verbatim>\<open>substr\<close> throws beyond the end.
\<close>

definition read' :: "'s env \<Rightarrow> u64 \<Rightarrow> nat \<Rightarrow> int \<Rightarrow> string \<Rightarrow> ('s, int \<times> string) op" where
  "read' E ino sz off data =
     andthen (ec_get (ec E) ino []) (\<lambda>(r, buf).
     if r \<noteq> OK then ret (r, data)
     else if sint (of_nat (length buf) :: u32) \<le> off then ret (r, [])
     else let p = unat (word_of_int off :: u32)
          in if length buf < p then (\<lambda>s. Inl Out_Of_Range)
             else ret (r, take sz (drop p buf)))"

text \<open>
  The results are the status and \<^verbatim>\<open>bytes_written\<close>.  \<^verbatim>\<open>replace\<close> throws when the offset, taken as
  unsigned, is beyond the end, which after the padding happens for negative offsets only.
\<close>

definition write' :: "'s env \<Rightarrow> u64 \<Rightarrow> nat \<Rightarrow> int \<Rightarrow> string \<Rightarrow> nat \<Rightarrow> ('s, int \<times> nat) op" where
  "write' E ino sz off data bytes_written =
     andthen (ec_get (ec E) ino []) (\<lambda>(r, buf).
     if r \<noteq> OK then ret (r, bytes_written)
     else let towrite = take sz data;
              buf = (if int (length buf) < off then resize buf (nat off) else buf)
          in if off < 0 then (\<lambda>s. Inl Out_Of_Range)
             else andthen (ec_put (ec E) ino (replace_at buf (nat off) sz towrite)) (\<lambda>r.
                  ret (r, sz)))"

definition unlink' :: "locals \<Rightarrow> 's env \<Rightarrow> u64 \<Rightarrow> string \<Rightarrow> ('s, int) op" where
  "unlink' l E parent name =
     andthen (lookup' l E parent name (l_inum l)) (\<lambda>(r, found, toremove).
     if \<not> found then ret NOENT
     else andthen (ec_remove (ec E) toremove) (\<lambda>_.
     andthen (ec_get (ec E) parent []) (\<lambda>(r, buf).
     if r \<noteq> OK then ret r
     else (\<lambda>s. rbind (erase_entry (entry_text name toremove) buf) (\<lambda>buf. ec_put (ec E) parent buf s)))))"

text \<open>The statuses of \<^verbatim>\<open>_lookup\<close>, \<^verbatim>\<open>ec->create\<close> and the first \<^verbatim>\<open>ec->put\<close> are ignored.\<close>

definition symlink' :: "locals \<Rightarrow> 's env \<Rightarrow> u64 \<Rightarrow> string \<Rightarrow> string \<Rightarrow> u64 \<Rightarrow> ('s, int \<times> u64) op" where
  "symlink' l E parent name link ino_out =
     andthen (lookup' l E parent name ino_out) (\<lambda>(r, found, ino_out).
     if found then ret (EXIST, ino_out)
     else andthen (ec_create (ec E) T_SYMLINK ino_out) (\<lambda>(_, ino_out).
     andthen (ec_put (ec E) ino_out link) (\<lambda>_.
     add_entry E parent name ino_out)))"

definition readlink' :: "'s env \<Rightarrow> u64 \<Rightarrow> string \<Rightarrow> ('s, int \<times> string) op" where
  "readlink' E ino link = ec_get (ec E) ino link"

section \<open>Operations\<close>

text \<open>\<^verbatim>\<open>lc->acquire(inum); ret = ...; lc->release(inum); return ret;\<close>\<close>

definition locked :: "'s env \<Rightarrow> u64 \<Rightarrow> ('s, 'a) op \<Rightarrow> ('s, 'a) op" where
  "locked E inum f s =
     rbind (f (lc_acquire E inum s)) (\<lambda>(x, s). Inr (x, lc_release E inum s))"

definition isfile :: "locals \<Rightarrow> 's env \<Rightarrow> u64 \<Rightarrow> ('s, bool) op" where
  "isfile l E inum = locked E inum (isfile' l E inum)"

definition isdir :: "locals \<Rightarrow> 's env \<Rightarrow> u64 \<Rightarrow> ('s, bool) op" where
  "isdir l E inum = locked E inum (isdir' l E inum)"

definition getfile :: "locals \<Rightarrow> 's env \<Rightarrow> u64 \<Rightarrow> fileinfo \<Rightarrow> ('s, int \<times> fileinfo) op" where
  "getfile l E inum fin = locked E inum (getfile' l E inum fin)"

definition getdir :: "locals \<Rightarrow> 's env \<Rightarrow> u64 \<Rightarrow> dirinfo \<Rightarrow> ('s, int \<times> dirinfo) op" where
  "getdir l E inum din = locked E inum (getdir' l E inum din)"

definition setattr :: "'s env \<Rightarrow> u64 \<Rightarrow> nat \<Rightarrow> ('s, int) op" where
  "setattr E ino sz = locked E ino (setattr' E ino sz)"

definition create :: "locals \<Rightarrow> 's env \<Rightarrow> u64 \<Rightarrow> string \<Rightarrow> u64 \<Rightarrow> ('s, int \<times> u64) op" where
  "create l E parent name ino_out = locked E parent (create' l E parent name ino_out)"

definition mkdir :: "locals \<Rightarrow> 's env \<Rightarrow> u64 \<Rightarrow> string \<Rightarrow> u64 \<Rightarrow> ('s, int \<times> u64) op" where
  "mkdir l E parent name ino_out = locked E parent (mkdir' l E parent name ino_out)"

definition lookup :: "locals \<Rightarrow> 's env \<Rightarrow> u64 \<Rightarrow> string \<Rightarrow> u64 \<Rightarrow> ('s, int \<times> bool \<times> u64) op" where
  "lookup l E parent name ino_out = locked E parent (lookup' l E parent name ino_out)"

definition readdir :: "locals \<Rightarrow> 's env \<Rightarrow> u64 \<Rightarrow> dirent list \<Rightarrow> ('s, int \<times> dirent list) op" where
  "readdir l E dir list = locked E dir (readdir' l E dir list)"

definition read :: "'s env \<Rightarrow> u64 \<Rightarrow> nat \<Rightarrow> int \<Rightarrow> string \<Rightarrow> ('s, int \<times> string) op" where
  "read E ino sz off data = locked E ino (read' E ino sz off data)"

definition yfs_write :: "'s env \<Rightarrow> u64 \<Rightarrow> nat \<Rightarrow> int \<Rightarrow> string \<Rightarrow> nat \<Rightarrow> ('s, int \<times> nat) op" where
  "yfs_write E ino sz off data bytes_written = locked E ino (write' E ino sz off data bytes_written)"

definition unlink :: "locals \<Rightarrow> 's env \<Rightarrow> u64 \<Rightarrow> string \<Rightarrow> ('s, int) op" where
  "unlink l E parent name = locked E parent (unlink' l E parent name)"

definition symlink :: "locals \<Rightarrow> 's env \<Rightarrow> u64 \<Rightarrow> string \<Rightarrow> string \<Rightarrow> u64 \<Rightarrow> ('s, int \<times> u64) op" where
  "symlink l E parent link name ino_out = locked E parent (symlink' l E parent link name ino_out)"

definition readlink :: "'s env \<Rightarrow> u64 \<Rightarrow> string \<Rightarrow> ('s, int \<times> string) op" where
  "readlink E ino path = locked E ino (readlink' E ino path)"

text \<open>The constructor empties the root directory.\<close>

definition yfs_client_init :: "'s env \<Rightarrow> ('s, int) op" where
  "yfs_client_init E = ec_put (ec E) 1 []"

section \<open>Sizes\<close>

lemma blocks_needed_mono: "m \<le> n \<Longrightarrow> blocks_needed m \<le> blocks_needed n"
proof -
  assume "m \<le> n"
  then have "nblk m \<le> nblk n" by (simp add: nblk_def div_le_mono)
  then show ?thesis by (simp add: blocks_needed_def)
qed

lemma length_show_nat: "n < 10000 \<Longrightarrow> length (show_nat n) \<le> 4"
  by (subst show_nat.simps, subst show_nat.simps, subst show_nat.simps, subst show_nat.simps) simp

lemma length_entry_text: "id_ok i \<Longrightarrow> length (entry_text name i) \<le> length name + 6"
  using length_show_nat [of "unat i"] by (simp add: entry_text_def filename_def id_ok_def inum_ok_def)

lemma length_replace_at [simp]:
  "p \<le> length s \<Longrightarrow> length (replace_at s p n t) = p + length t + (length s - (p + n))"
  by (simp add: replace_at_def)

lemma length_resize [simp]: "length (resize s n) = n"
  by (simp add: resize_def)

section \<open>Specifications\<close>

text \<open>Slash-free names, as the kernel passes them.\<close>

definition plain :: "string \<Rightarrow> bool" where
  "plain n \<longleftrightarrow> n \<noteq> [] \<and> CHR ''/'' \<notin> set n"

definition names_ok :: "dirent list \<Rightarrow> bool" where
  "names_ok es \<longleftrightarrow> (\<forall>e \<in> set es. plain (de_name e)) \<and> distinct (map de_name es)"

text \<open>The bytes of a file after writing \<open>data\<close> at \<open>off\<close>, with zeros in a hole.\<close>

definition write_spec :: "string \<Rightarrow> nat \<Rightarrow> string \<Rightarrow> string" where
  "write_spec buf off data =
     map (\<lambda>k. if off \<le> k \<and> k < off + length data then data ! (k - off)
              else if k < length buf then buf ! k else CHR 0x00) [0..<max (length buf) (off + length data)]"

lemma length_write_spec [simp]: "length (write_spec buf off data) = max (length buf) (off + length data)"
  by (simp add: write_spec_def)

lemma replace_at_write_spec:
  "replace_at (if length buf < off then resize buf off else buf) off (length data) data = write_spec buf off data"
  by (rule nth_equalityI) (auto simp: write_spec_def replace_at_def resize_def nth_append)

lemma read_write_spec: "take (length data) (drop off (write_spec buf off data)) = data"
  by (rule nth_equalityI) (auto simp: write_spec_def)

section \<open>The operations on the table of extents\<close>

locale yfs = extent_store "ec E" good tab room
  for E :: "'s env" and good :: "'s \<Rightarrow> bool" and tab :: "'s \<Rightarrow> u64 \<Rightarrow> (u32 \<times> string) option" and room :: "'s \<Rightarrow> nat" +
  assumes lock_law: "good (lc_acquire E i s) = good s" "tab (lc_acquire E i s) = tab s" "room (lc_acquire E i s) = room s"
    "good (lc_release E i s) = good s" "tab (lc_release E i s) = tab s" "room (lc_release E i s) = room s"
begin

lemma locked_effect:
  assumes "\<exists>x s'. f (lc_acquire E i s) = Inr (x, s') \<and> good s' \<and> Q x (tab s') (room s')"
  shows "\<exists>x s'. locked E i f s = Inr (x, s') \<and> good s' \<and> Q x (tab s') (room s')"
  using assms by (auto simp: locked_def lock_law)

lemma isdir_effect:
  assumes "good s" "tab s p = Some (t, d)"
  shows "\<exists>s'. isdir' l E p s = Inr (t = T_DIR, s') \<and> good s' \<and> tab s' = tab s \<and> room s' = room s"
  using getattr_Some [OF assms, of "l_attr l"] by (auto simp: isdir'_def andthen_def ret_def)

lemma readdir_effect:
  assumes "good s" "tab s p = Some (t, dir_text es)" "names_ok es"
  shows "\<exists>s'. readdir' l E p list s = Inr ((OK, list @ es), s') \<and> good s' \<and> tab s' = tab s \<and> room s' = room s"
proof -
  have "\<forall>e \<in> set es. CHR ''/'' \<notin> set (de_name e)" using assms(3) by (simp add: names_ok_def plain_def)
  with get_Some [OF assms(1,2), of "[]"] readdir_dir_text [of es "l_finum l" list] show ?thesis
    by (auto simp: readdir'_def andthen_def)
qed

lemma lookup_effect:
  assumes "good s" "tab s p = Some (T_DIR, dir_text es)" "names_ok es"
  shows "\<exists>s'. lookup' l E p name i0 s = Inr (case find (\<lambda>e. de_name e = name) es of
        Some e \<Rightarrow> (EXIST, True, de_inum e) | None \<Rightarrow> (OK, False, i0), s')
      \<and> good s' \<and> tab s' = tab s \<and> room s' = room s"
proof -
  obtain s1 where s1: "isdir' l E p s = Inr (True, s1)" "good s1" "tab s1 = tab s" "room s1 = room s"
    using isdir_effect [OF assms(1,2)] by auto
  obtain s2 where "readdir' l E p [] s1 = Inr ((OK, es), s2)" "good s2" "tab s2 = tab s" "room s2 = room s"
    using readdir_effect [OF s1(2) _ assms(3), of p T_DIR l "[]"] s1 assms(2) by auto
  with s1 show ?thesis by (auto simp: lookup'_def andthen_def ret_def split: option.split)
qed

lemma lookup_not_dir:
  assumes "good s" "tab s p = Some (t, d)" "t \<noteq> T_DIR"
  shows "\<exists>s'. lookup' l E p name i0 s = Inr ((OK, False, i0), s') \<and> good s' \<and> tab s' = tab s \<and> room s' = room s"
  using isdir_effect [OF assms(1,2), of l] assms(3) by (auto simp: lookup'_def andthen_def ret_def)

lemma add_entry_effect:
  assumes "good s" "tab s p = Some (t, d)" "id_ok i" "length d + length name + 6 \<le> MAXFILE"
    "blocks_needed (length d + length name + 6) \<le> room s + blocks_needed (length d)"
  shows "\<exists>s'. add_entry E p name i s = Inr ((OK, i), s') \<and> good s' \<and> tab s' = (tab s)(p \<mapsto> (t, d @ entry_text name i))
    \<and> room s' + blocks_needed (length (d @ entry_text name i)) = room s + blocks_needed (length d)"
proof -
  obtain s1 where s1: "ec_get (ec E) p [] s = Inr ((OK, d), s1)" "good s1" "tab s1 = tab s" "room s1 = room s"
    using get_Some [OF assms(1,2), of "[]"] by auto
  have len: "length (d @ entry_text name i) \<le> length d + length name + 6"
    using length_entry_text [OF assms(3), of name] by simp
  then have "blocks_needed (length (d @ entry_text name i)) \<le> room s1 + blocks_needed (length d)"
    using blocks_needed_mono [OF len] assms(5) s1(4) by simp
  then obtain s2 where "ec_put (ec E) p (d @ entry_text name i) s1 = Inr (OK, s2)" "good s2"
    "tab s2 = (tab s)(p \<mapsto> (t, d @ entry_text name i))"
    "room s2 + blocks_needed (length (d @ entry_text name i)) = room s + blocks_needed (length d)"
    using put_law [OF s1(2), of p t d "d @ entry_text name i"] s1(3,4) assms(2,4) len by auto
  with s1 show ?thesis by (auto simp: add_entry_def andthen_def ret_def)
qed

text \<open>Creation in a directory that does not have the name yet.\<close>

lemma make_effect:
  assumes "good s" "tab s p = Some (T_DIR, dir_text es)" "names_ok es" "find (\<lambda>e. de_name e = name) es = None"
    and "id_ok free" "tab s free = None" "type \<in> {T_DIR, T_FILE, T_SYMLINK}"
  shows "\<exists>i s1 s2. lookup' l E p name i0 s = Inr ((OK, False, i0), s1) \<and> ec_create (ec E) type i0 s1 = Inr ((OK, i), s2)
    \<and> id_ok i \<and> tab s i = None \<and> good s2 \<and> tab s2 = (tab s)(i \<mapsto> (type, [])) \<and> room s2 = room s"
proof -
  obtain s1 where s1: "lookup' l E p name i0 s = Inr ((OK, False, i0), s1)" "good s1" "tab s1 = tab s" "room s1 = room s"
    using lookup_effect [OF assms(1-3), of l name i0] assms(4) by auto
  with create_law [OF s1(2) assms(5), of type i0] assms(6,7) show ?thesis by auto
qed

lemma create_effect:
  assumes "good s" "tab s p = Some (T_DIR, dir_text es)" "names_ok es" "find (\<lambda>e. de_name e = name) es = None"
    and "id_ok free" "tab s free = None" "length (dir_text es) + length name + 6 \<le> MAXFILE"
    "blocks_needed (length (dir_text es) + length name + 6) \<le> room s + blocks_needed (length (dir_text es))"
  shows "\<exists>i s'. create' l E p name i0 s = Inr ((OK, i), s') \<and> id_ok i \<and> tab s i = None \<and> good s'
    \<and> tab s' = (tab s)(i \<mapsto> (T_FILE, []), p \<mapsto> (T_DIR, dir_text (es @ [\<lparr>de_name = name, de_inum = i\<rparr>])))"
    and "\<exists>i s'. mkdir' l E p name i0 s = Inr ((OK, i), s') \<and> id_ok i \<and> tab s i = None \<and> good s'
    \<and> tab s' = (tab s)(i \<mapsto> (T_DIR, []), p \<mapsto> (T_DIR, dir_text (es @ [\<lparr>de_name = name, de_inum = i\<rparr>])))"
proof -
  have *: "\<exists>i s1 s2 s3. lookup' l E p name i0 s = Inr ((OK, False, i0), s1) \<and> ec_create (ec E) type i0 s1 = Inr ((OK, i), s2)
      \<and> add_entry E p name i s2 = Inr ((OK, i), s3) \<and> id_ok i \<and> tab s i = None \<and> good s3
      \<and> tab s3 = (tab s)(i \<mapsto> (type, []), p \<mapsto> (T_DIR, dir_text (es @ [\<lparr>de_name = name, de_inum = i\<rparr>])))"
    if type: "type \<in> {T_DIR, T_FILE, T_SYMLINK}" for type
  proof -
    obtain i s1 s2 where s2: "lookup' l E p name i0 s = Inr ((OK, False, i0), s1)" "ec_create (ec E) type i0 s1 = Inr ((OK, i), s2)"
      "id_ok i" "tab s i = None" "good s2" "tab s2 = (tab s)(i \<mapsto> (type, []))" "room s2 = room s"
      using make_effect [OF assms(1-6) type, of l i0] by blast
    then have "tab s2 p = Some (T_DIR, dir_text es)" using assms(2) by auto
    with add_entry_effect [OF s2(5) this s2(3), of name] assms(7,8) s2 show ?thesis by auto
  qed
  show "\<exists>i s'. create' l E p name i0 s = Inr ((OK, i), s') \<and> id_ok i \<and> tab s i = None \<and> good s'
    \<and> tab s' = (tab s)(i \<mapsto> (T_FILE, []), p \<mapsto> (T_DIR, dir_text (es @ [\<lparr>de_name = name, de_inum = i\<rparr>])))"
    using * [of T_FILE] by (auto simp: create'_def andthen_def)
  show "\<exists>i s'. mkdir' l E p name i0 s = Inr ((OK, i), s') \<and> id_ok i \<and> tab s i = None \<and> good s'
    \<and> tab s' = (tab s)(i \<mapsto> (T_DIR, []), p \<mapsto> (T_DIR, dir_text (es @ [\<lparr>de_name = name, de_inum = i\<rparr>])))"
    using * [of T_DIR] by (auto simp: mkdir'_def andthen_def)
qed

lemma create_exists:
  assumes "good s" "tab s p = Some (T_DIR, dir_text es)" "names_ok es" "find (\<lambda>e. de_name e = name) es = Some e"
  shows "\<exists>s'. create' l E p name i0 s = Inr ((EXIST, de_inum e), s') \<and> good s' \<and> tab s' = tab s \<and> room s' = room s"
    and "\<exists>s'. mkdir' l E p name i0 s = Inr ((EXIST, de_inum e), s') \<and> good s' \<and> tab s' = tab s \<and> room s' = room s"
    and "\<exists>s'. symlink' l E p name link i0 s = Inr ((EXIST, de_inum e), s') \<and> good s' \<and> tab s' = tab s \<and> room s' = room s"
  using lookup_effect [OF assms(1-3), of l name i0] assms(4)
  by (auto simp: create'_def mkdir'_def symlink'_def andthen_def ret_def)

lemma write_effect:
  assumes "good s" "tab s i = Some (t, buf)" "max (length buf) (off + length data) \<le> MAXFILE"
    "blocks_needed (max (length buf) (off + length data)) \<le> room s + blocks_needed (length buf)"
  shows "\<exists>s'. write' E i (length data) (int off) data w s = Inr ((OK, length data), s') \<and> good s'
    \<and> tab s' = (tab s)(i \<mapsto> (t, write_spec buf off data))
    \<and> room s' + blocks_needed (length (write_spec buf off data)) = room s + blocks_needed (length buf)"
proof -
  obtain s1 where s1: "ec_get (ec E) i [] s = Inr ((OK, buf), s1)" "good s1" "tab s1 = tab s" "room s1 = room s"
    using get_Some [OF assms(1,2), of "[]"] by auto
  obtain s2 where s2: "ec_put (ec E) i (write_spec buf off data) s1 = Inr (OK, s2)" "good s2"
    "tab s2 = (tab s)(i \<mapsto> (t, write_spec buf off data))"
    "room s2 + blocks_needed (length (write_spec buf off data)) = room s + blocks_needed (length buf)"
    using put_law [OF s1(2), of i t buf "write_spec buf off data"] s1(3,4) assms(2-4) by auto
  have "(if length buf < off then resize buf off else buf) = (if int (length buf) < int off then resize buf (nat (int off)) else buf)"
    by simp
  then show ?thesis
    using s1 s2 replace_at_write_spec [of buf off data] by (auto simp: write'_def andthen_def ret_def Let_def)
qed

lemma read_effect:
  assumes "good s" "tab s i = Some (t, buf)"
  shows "\<exists>s'. read' E i sz (int off) data s = Inr ((OK, take sz (drop off buf)), s') \<and> good s' \<and> tab s' = tab s \<and> room s' = room s"
proof -
  obtain s1 where s1: "ec_get (ec E) i [] s = Inr ((OK, buf), s1)" "good s1" "tab s1 = tab s" "room s1 = room s"
    using get_Some [OF assms(1,2), of "[]"] by auto
  have mx: "length buf \<le> MAXFILE" using assms by (rule size_law)
  then have l: "sint (of_nat (length buf) :: u32) = int (length buf)"
    by (simp add: MAXFILE_def signed_of_nat signed_take_bit_int_eq_self)
  show ?thesis
  proof (cases "length buf \<le> off")
    case True
    then show ?thesis using s1 l by (auto simp: read'_def andthen_def ret_def)
  next
    case False
    then have "unat (word_of_int (int off) :: u32) = off" using mx by (simp add: MAXFILE_def)
    with False show ?thesis using s1 l by (auto simp: read'_def andthen_def ret_def Let_def)
  qed
qed

lemma setattr_effect:
  assumes "good s" "tab s i = Some (t, buf)" "n \<le> MAXFILE"
    "blocks_needed n \<le> room s + blocks_needed (length buf)"
  shows "\<exists>s'. setattr' E i n s = Inr (OK, s') \<and> good s' \<and> tab s' = (tab s)(i \<mapsto> (t, resize buf n))"
proof -
  obtain s1 where s1: "ec_get (ec E) i [] s = Inr ((OK, buf), s1)" "good s1" "tab s1 = tab s" "room s1 = room s"
    using get_Some [OF assms(1,2), of "[]"] by auto
  with put_law [OF s1(2), of i t buf "resize buf n"] assms(2-4) show ?thesis
    by (auto simp: setattr'_def andthen_def)
qed

lemma symlink_effect:
  assumes "good s" "tab s p = Some (T_DIR, dir_text es)" "names_ok es" "find (\<lambda>e. de_name e = name) es = None"
    and "id_ok free" "tab s free = None" "length (dir_text es) + length name + 6 \<le> MAXFILE" "length link \<le> MAXFILE"
    "blocks_needed (length (dir_text es) + length name + 6) + blocks_needed (length link)
       \<le> room s + blocks_needed (length (dir_text es))"
    "blocks_needed (length link) \<le> room s"
  shows "\<exists>i s'. symlink' l E p name link i0 s = Inr ((OK, i), s') \<and> id_ok i \<and> tab s i = None \<and> good s'
    \<and> tab s' = (tab s)(i \<mapsto> (T_SYMLINK, link), p \<mapsto> (T_DIR, dir_text (es @ [\<lparr>de_name = name, de_inum = i\<rparr>])))"
proof -
  obtain i s1 s2 where s2: "lookup' l E p name i0 s = Inr ((OK, False, i0), s1)" "ec_create (ec E) T_SYMLINK i0 s1 = Inr ((OK, i), s2)"
    "id_ok i" "tab s i = None" "good s2" "tab s2 = (tab s)(i \<mapsto> (T_SYMLINK, []))" "room s2 = room s"
    using make_effect [OF assms(1-6), of T_SYMLINK l i0] by blast
  have z: "blocks_needed 0 = 0" by (simp add: blocks_needed_def)
  obtain s3 where s3: "ec_put (ec E) i link s2 = Inr (OK, s3)" "good s3" "tab s3 = (tab s)(i \<mapsto> (T_SYMLINK, link))"
    "room s3 + blocks_needed (length link) = room s"
    using put_law [OF s2(5), of i T_SYMLINK "[]" link] s2(6,7) assms(8,10) z by auto
  have t3: "tab s3 p = Some (T_DIR, dir_text es)" using s3(3) assms(2) s2(4) by auto
  have "blocks_needed (length (dir_text es) + length name + 6) \<le> room s3 + blocks_needed (length (dir_text es))"
    using assms(9) s3(4) by linarith
  from add_entry_effect [OF s3(2) t3 s2(3) assms(7) this] s3(3) show ?thesis
    using s2(1-4) s3(1) by (auto simp: symlink'_def andthen_def)
qed

lemma unlink_missing:
  assumes "good s" "tab s p = Some (T_DIR, dir_text es)" "names_ok es" "find (\<lambda>e. de_name e = name) es = None"
  shows "\<exists>s'. unlink' l E p name s = Inr (NOENT, s') \<and> good s' \<and> tab s' = tab s \<and> room s' = room s"
  using lookup_effect [OF assms(1-3), of l name "l_inum l"] assms(4)
  by (auto simp: unlink'_def andthen_def ret_def)

lemma unlink_effect:
  assumes g: "good s" and p: "tab s p = Some (T_DIR, dir_text (xs @ \<lparr>de_name = name, de_inum = i\<rparr> # ys))"
    and ok: "names_ok (xs @ \<lparr>de_name = name, de_inum = i\<rparr> # ys)" and i: "tab s i = Some (t, d)" "i \<noteq> p"
    and once: "\<forall>e \<in> set xs. de_inum e \<noteq> i"
    and num: "numeric name \<Longrightarrow> \<forall>e \<in> set xs. de_name e \<noteq> filename i" "name \<noteq> filename i \<or> xs = []"
  shows "\<exists>s'. unlink' l E p name s = Inr (OK, s') \<and> good s'
    \<and> tab s' = (tab s)(i := None, p \<mapsto> (T_DIR, dir_text (xs @ ys)))"
proof -
  let ?es = "xs @ \<lparr>de_name = name, de_inum = i\<rparr> # ys"
  have "find (\<lambda>e. de_name e = name) ?es = Some \<lparr>de_name = name, de_inum = i\<rparr>"
    using ok by (induction xs) (auto simp: names_ok_def)
  then obtain s1 where s1: "lookup' l E p name (l_inum l) s = Inr ((EXIST, True, i), s1)" "good s1" "tab s1 = tab s"
    using lookup_effect [OF g p ok, of l name "l_inum l"] by auto
  obtain s2 where s2: "ec_remove (ec E) i s1 = Inr (OK, s2)" "good s2" "tab s2 = (tab s)(i := None)"
    using remove_law [OF s1(2), of i t d] s1(3) i(1) by auto
  have t2: "tab s2 p = Some (T_DIR, dir_text ?es)" using s2(3) p i(2) by simp
  obtain s3 where s3: "ec_get (ec E) p [] s2 = Inr ((OK, dir_text ?es), s3)" "good s3" "tab s3 = tab s2" "room s3 = room s2"
    using get_Some [OF s2(2) t2, of "[]"] by blast
  have er: "erase_entry (entry_text name i) (dir_text ?es) = Inr (dir_text (xs @ ys))"
    using ok once num by (intro erase_dir_text) (auto simp: names_ok_def plain_def)
  have len: "length (dir_text (xs @ ys)) \<le> length (dir_text ?es)" by simp
  have t3: "tab s3 p = Some (T_DIR, dir_text ?es)" using t2 s3(3) by simp
  have "length (dir_text (xs @ ys)) \<le> MAXFILE" using size_law [OF s3(2) t3] len by linarith
  moreover have "blocks_needed (length (dir_text (xs @ ys))) \<le> room s3 + blocks_needed (length (dir_text ?es))"
    using blocks_needed_mono [OF len] by linarith
  ultimately obtain s4 where "ec_put (ec E) p (dir_text (xs @ ys)) s3 = Inr (OK, s4)" "good s4"
    "tab s4 = (tab s3)(p \<mapsto> (T_DIR, dir_text (xs @ ys)))"
    using put_law [OF s3(2) t3, of "dir_text (xs @ ys)"] by blast
  then show ?thesis
    using s1(1) s2(1,3) s3(1,3) er by (simp add: unlink'_def andthen_def del: dir_text_simps)
qed

end

end
