(* ===== verification/Yfs_Tree.thy ===== *)
theory Yfs_Tree
  imports Yfs_Client
begin

text \<open>
  The tree of directories kept by \<^verbatim>\<open>yfs_client\<close>: every directory parses, every entry refers to a
  live inode, no inode has two entries.  The operations of the client, run against the extent
  server, keep the tree and change it as specified.
\<close>

section \<open>The tree\<close>

definition entries :: "(u64 \<Rightarrow> (u32 \<times> string) option) \<Rightarrow> u64 \<Rightarrow> dirent list \<Rightarrow> bool" where
  "entries T p es \<longleftrightarrow> T p = Some (T_DIR, dir_text es) \<and> names_ok es"

definition tree_ok :: "(u64 \<Rightarrow> (u32 \<times> string) option) \<Rightarrow> bool" where
  "tree_ok T \<longleftrightarrow> (\<exists>d. T 1 = Some (T_DIR, d))
     \<and> (\<forall>p d. T p = Some (T_DIR, d) \<longrightarrow> (\<exists>es. entries T p es))
     \<and> (\<forall>p es e. entries T p es \<longrightarrow> e \<in> set es \<longrightarrow> T (de_inum e) \<noteq> None \<and> de_inum e \<noteq> 1 \<and> de_inum e \<noteq> p)
     \<and> (\<forall>p q es fs e f. entries T p es \<longrightarrow> entries T q fs \<longrightarrow> e \<in> set es \<longrightarrow> f \<in> set fs \<longrightarrow>
          de_inum e = de_inum f \<longrightarrow> p = q \<and> e = f)"

lemma names_ok_plain: "names_ok es \<Longrightarrow> \<forall>e \<in> set es. CHR ''/'' \<notin> set (de_name e)"
  by (simp add: names_ok_def plain_def)

lemma dir_text_inj:
  assumes "names_ok es" "names_ok fs" "dir_text es = dir_text fs"
  shows "es = fs"
proof -
  have "Some ([] @ es) = readdir_loop (\<lambda>_. 0) (dir_text es) []"
    by (rule readdir_dir_text [OF names_ok_plain [OF assms(1)], symmetric])
  also have "\<dots> = Some ([] @ fs)"
    unfolding assms(3) by (rule readdir_dir_text [OF names_ok_plain [OF assms(2)]])
  finally show ?thesis by simp
qed

lemma entries_unique: "entries T p es \<Longrightarrow> T p = Some (T_DIR, dir_text fs) \<Longrightarrow> names_ok fs \<Longrightarrow> es = fs"
  by (auto simp: entries_def dir_text_inj)

lemma entries_upd:
  assumes "names_ok fs"
  shows "entries (T(p \<mapsto> (T_DIR, dir_text fs))) q es \<longleftrightarrow> (if q = p then es = fs else entries T q es)"
  using assms by (auto simp: entries_def dir_text_inj)

lemma entries_upd_other:
  "t \<noteq> T_DIR \<Longrightarrow> entries (T(p \<mapsto> (t, d))) q es \<longleftrightarrow> q \<noteq> p \<and> entries T q es"
  "entries (T(p := None)) q es \<longleftrightarrow> q \<noteq> p \<and> entries T q es"
  by (auto simp: entries_def)

lemma names_ok_Nil [simp]: "names_ok []"
  by (simp add: names_ok_def)

lemma tree_okD:
  assumes "tree_ok T"
  shows "\<exists>d. T 1 = Some (T_DIR, d)"
    and "T p = Some (T_DIR, d) \<Longrightarrow> \<exists>es. entries T p es"
    and "entries T p es \<Longrightarrow> e \<in> set es \<Longrightarrow> T (de_inum e) \<noteq> None"
    and "entries T p es \<Longrightarrow> e \<in> set es \<Longrightarrow> de_inum e \<noteq> 1"
    and "entries T p es \<Longrightarrow> e \<in> set es \<Longrightarrow> de_inum e \<noteq> p"
    and "entries T p es \<Longrightarrow> entries T q fs \<Longrightarrow> e \<in> set es \<Longrightarrow> f \<in> set fs \<Longrightarrow> de_inum e = de_inum f \<Longrightarrow> p = q"
    and "entries T p es \<Longrightarrow> entries T q fs \<Longrightarrow> e \<in> set es \<Longrightarrow> f \<in> set fs \<Longrightarrow> de_inum e = de_inum f \<Longrightarrow> e = f"
proof -
  note D = assms [unfolded tree_ok_def]
  note D3 = D [THEN conjunct2, THEN conjunct2, THEN conjunct1, rule_format]
  note D4 = D [THEN conjunct2, THEN conjunct2, THEN conjunct2, rule_format]
  show "\<exists>d. T 1 = Some (T_DIR, d)" by (rule D [THEN conjunct1])
  show "T p = Some (T_DIR, d) \<Longrightarrow> \<exists>es. entries T p es"
    by (rule D [THEN conjunct2, THEN conjunct1, rule_format])
  show "entries T p es \<Longrightarrow> e \<in> set es \<Longrightarrow> T (de_inum e) \<noteq> None"
    "entries T p es \<Longrightarrow> e \<in> set es \<Longrightarrow> de_inum e \<noteq> 1"
    "entries T p es \<Longrightarrow> e \<in> set es \<Longrightarrow> de_inum e \<noteq> p"
    using D3 [of p es e] by simp_all
  show "entries T p es \<Longrightarrow> entries T q fs \<Longrightarrow> e \<in> set es \<Longrightarrow> f \<in> set fs \<Longrightarrow> de_inum e = de_inum f \<Longrightarrow> p = q"
    "entries T p es \<Longrightarrow> entries T q fs \<Longrightarrow> e \<in> set es \<Longrightarrow> f \<in> set fs \<Longrightarrow> de_inum e = de_inum f \<Longrightarrow> e = f"
    using D4 [of p es q fs e f] by simp_all
qed

text \<open>A new inode with an entry in a directory.\<close>

lemma entries_make:
  assumes "entries T p es" "plain name" "\<forall>e \<in> set es. de_name e \<noteq> name" "T i = None"
    "type = T_DIR \<Longrightarrow> d = []"
  shows "entries (T(i \<mapsto> (type, d), p \<mapsto> (T_DIR, dir_text (es @ [\<lparr>de_name = name, de_inum = i\<rparr>])))) q fs \<longleftrightarrow>
    (if q = p then fs = es @ [\<lparr>de_name = name, de_inum = i\<rparr>] else if q = i then type = T_DIR \<and> fs = [] else entries T q fs)"
proof -
  have ok: "names_ok (es @ [\<lparr>de_name = name, de_inum = i\<rparr>])"
    using assms(1-3) by (auto simp: entries_def names_ok_def)
  have "entries (T(i \<mapsto> (type, d))) q fs \<longleftrightarrow> (if q = i then type = T_DIR \<and> fs = [] else entries T q fs)"
  proof (cases "type = T_DIR")
    case True
    then show ?thesis using entries_upd [of "[]" T i q fs] assms(5) by simp
  next
    case False
    then show ?thesis by (simp add: entries_upd_other)
  qed
  then show ?thesis unfolding entries_upd [OF ok] by simp
qed

lemma tree_okI:
  assumes "\<exists>d. T 1 = Some (T_DIR, d)" "\<And>p d. T p = Some (T_DIR, d) \<Longrightarrow> \<exists>es. entries T p es"
    "\<And>p es e. entries T p es \<Longrightarrow> e \<in> set es \<Longrightarrow> T (de_inum e) \<noteq> None \<and> de_inum e \<noteq> 1 \<and> de_inum e \<noteq> p"
    "\<And>p q es fs e f. entries T p es \<Longrightarrow> entries T q fs \<Longrightarrow> e \<in> set es \<Longrightarrow> f \<in> set fs \<Longrightarrow>
       de_inum e = de_inum f \<Longrightarrow> p = q \<and> e = f"
  shows "tree_ok T"
  unfolding tree_ok_def
  by (intro conjI; (rule assms(1) | (intro allI impI, rule assms(2), assumption)
    | (intro allI impI, rule assms(3), assumption+) | (intro allI impI, rule assms(4), assumption+)))

lemma tree_ok_make:
  assumes T: "tree_ok T" and p: "entries T p es" and name: "plain name" "\<forall>e \<in> set es. de_name e \<noteq> name" and i: "T i = None"
    and d: "type = T_DIR \<Longrightarrow> d = []"
  shows "tree_ok (T(i \<mapsto> (type, d), p \<mapsto> (T_DIR, dir_text (es @ [\<lparr>de_name = name, de_inum = i\<rparr>]))))"
proof -
  define fs where "fs = es @ [\<lparr>de_name = name, de_inum = i\<rparr>]"
  define T' where "T' = T(i \<mapsto> (type, d), p \<mapsto> (T_DIR, dir_text fs))"
  have ent: "entries T' q gs \<longleftrightarrow> (if q = p then gs = fs else if q = i then type = T_DIR \<and> gs = [] else entries T q gs)" for q gs
    unfolding T'_def fs_def by (rule entries_make [OF p name i d])
  have ip: "i \<noteq> p" "i \<noteq> 1" using p i tree_okD(1) [OF T] by (auto simp: entries_def)
  have noi: "de_inum e \<noteq> i" if "entries T q gs" "e \<in> set gs" for q gs e
    using tree_okD(3) [OF T that] i by auto
  have fs: "e \<in> set fs \<longleftrightarrow> e \<in> set es \<or> e = \<lparr>de_name = name, de_inum = i\<rparr>" for e by (auto simp: fs_def)
  have T': "T' q = (if q = p then Some (T_DIR, dir_text fs) else if q = i then Some (type, d) else T q)" for q
    by (simp add: T'_def)
  have "tree_ok T'"
  proof (rule tree_okI)
    show "\<exists>d. T' 1 = Some (T_DIR, d)" using tree_okD(1) [OF T] ip by (auto simp: T')
    show "\<exists>gs. entries T' q gs" if "T' q = Some (T_DIR, d')" for q d'
      using that tree_okD(2) [OF T, of q d'] unfolding ent T' by (auto split: if_splits)
    show "T' (de_inum e) \<noteq> None \<and> de_inum e \<noteq> 1 \<and> de_inum e \<noteq> q" if "entries T' q gs" "e \<in> set gs" for q gs e
      using that tree_okD(3,4,5) [OF T _ that(2), of q] tree_okD(3,4,5) [OF T p, of e] ip unfolding ent T'
      by (auto simp: fs split: if_splits)
    show "q = r \<and> e = f" if "entries T' q gs" "entries T' r hs" "e \<in> set gs" "f \<in> set hs" "de_inum e = de_inum f" for q r gs hs e f
    proof -
      have a: "q = p \<and> e \<in> set fs \<or> q \<noteq> p \<and> entries T q gs" "r = p \<and> f \<in> set fs \<or> r \<noteq> p \<and> entries T r hs"
        using that(1-4) unfolding ent by (auto split: if_splits)
      have b: "q = p \<and> e = \<lparr>de_name = name, de_inum = i\<rparr> \<or> de_inum e \<noteq> i \<and> (\<exists>gs. entries T q gs \<and> e \<in> set gs)"
        using a(1) p noi [of q gs e] noi [OF p, of e] that(3) unfolding fs by blast
      have c: "r = p \<and> f = \<lparr>de_name = name, de_inum = i\<rparr> \<or> de_inum f \<noteq> i \<and> (\<exists>hs. entries T r hs \<and> f \<in> set hs)"
        using a(2) p noi [of r hs f] noi [OF p, of f] that(4) unfolding fs by blast
      show ?thesis
        using b c that(5) tree_okD(6,7) [OF T, of q _ r _ e f] by auto
    qed
  qed
  then show ?thesis by (simp only: T'_def fs_def)
qed

lemma tree_ok_remove:
  assumes T: "tree_ok T" and p: "entries T p (xs @ e # ys)"
  shows "tree_ok (T(de_inum e := None, p \<mapsto> (T_DIR, dir_text (xs @ ys))))"
proof -
  define fs where "fs = xs @ ys"
  define T' where "T' = T(de_inum e := None, p \<mapsto> (T_DIR, dir_text fs))"
  have ok: "names_ok fs" using p by (auto simp: entries_def names_ok_def fs_def)
  have ent: "entries T' q gs \<longleftrightarrow> (if q = p then gs = fs else q \<noteq> de_inum e \<and> entries T q gs)" for q gs
    unfolding T'_def entries_upd [OF ok] entries_upd_other by simp
  have T': "T' q = (if q = p then Some (T_DIR, dir_text fs) else if q = de_inum e then None else T q)" for q
    by (simp add: T'_def)
  have ep: "de_inum e \<noteq> p" "de_inum e \<noteq> 1" using tree_okD(4,5) [OF T p, of e] by auto
  have d: "distinct (map de_name (xs @ e # ys))" using p by (simp add: entries_def names_ok_def)
  have sub: "f \<in> set (xs @ e # ys)" if "f \<in> set fs" for f using that by (auto simp: fs_def)
  have other: "de_inum f \<noteq> de_inum e" if "f \<in> set fs" for f
    using tree_okD(7) [OF T p p, of f e] that d by (auto simp: fs_def)
  have other': "de_inum f \<noteq> de_inum e" if "entries T q gs" "f \<in> set gs" "q \<noteq> p" for q gs f
    using tree_okD(6) [OF T that(1) p that(2), of e] that(3) by auto
  have "tree_ok T'"
  proof (rule tree_okI)
    show "\<exists>d. T' 1 = Some (T_DIR, d)" using tree_okD(1) [OF T] ep by (auto simp: T')
    show "\<exists>gs. entries T' q gs" if "T' q = Some (T_DIR, d')" for q d'
      using that tree_okD(2) [OF T, of q d'] unfolding ent T' by (auto split: if_splits)
    show "T' (de_inum f) \<noteq> None \<and> de_inum f \<noteq> 1 \<and> de_inum f \<noteq> q" if "entries T' q gs" "f \<in> set gs" for q gs f
      using that tree_okD(3,4,5) [OF T _ that(2), of q] tree_okD(3,4,5) [OF T p sub, of f] other [of f] other' [of q gs f]
      unfolding ent T' by (auto split: if_splits)
    show "q = r \<and> f = g" if "entries T' q gs" "entries T' r hs" "f \<in> set gs" "g \<in> set hs" "de_inum f = de_inum g" for q r gs hs f g
    proof -
      have a: "q = p \<and> f \<in> set (xs @ e # ys) \<or> q \<noteq> p \<and> entries T q gs" "r = p \<and> g \<in> set (xs @ e # ys) \<or> r \<noteq> p \<and> entries T r hs"
        using that(1-4) sub unfolding ent by (auto split: if_splits)
      then show ?thesis
        using that(3-5) tree_okD(6,7) [OF T, of q gs r hs f g] tree_okD(6,7) [OF T p, of r hs f g]
          tree_okD(6,7) [OF T _ p, of q gs f g] tree_okD(6,7) [OF T p p, of f g]
        by blast
    qed
  qed
  then show ?thesis by (simp only: T'_def fs_def)
qed

lemma tree_ok_data:
  assumes "tree_ok T" "\<forall>d. T i \<noteq> Some (T_DIR, d)" "t \<noteq> T_DIR"
  shows "tree_ok (T(i \<mapsto> (t, d')))"
proof -
  have ent: "entries (T(i \<mapsto> (t, d'))) = entries T"
    using assms(2,3) by (auto simp: fun_eq_iff entries_upd_other entries_def)
  show ?thesis
  proof (rule tree_okI, unfold ent)
    show "\<exists>d. (T(i \<mapsto> (t, d'))) 1 = Some (T_DIR, d)" using tree_okD(1) [OF assms(1)] assms(2,3) by auto
    show "\<exists>es. entries T p es" if "(T(i \<mapsto> (t, d'))) p = Some (T_DIR, d)" for p d
      using that assms(3) by (intro tree_okD(2) [OF assms(1), of p d]) (simp split: if_splits)
    show "(T(i \<mapsto> (t, d'))) (de_inum e) \<noteq> None \<and> de_inum e \<noteq> 1 \<and> de_inum e \<noteq> p"
      if "entries T p es" "e \<in> set es" for p es e
      using tree_okD(3-5) [OF assms(1) that] by simp
    show "p = q \<and> e = f" if "entries T p es" "entries T q fs" "e \<in> set es" "f \<in> set fs" "de_inum e = de_inum f" for p q es fs e f
      using tree_okD(6,7) [OF assms(1) that] by simp
  qed
qed

section \<open>The operations on the tree\<close>

lemma entriesD: "entries T p es \<Longrightarrow> T p = Some (T_DIR, dir_text es)" "entries T p es \<Longrightarrow> names_ok es"
  by (simp_all add: entries_def)

lemma find_None_names: "find (\<lambda>e. de_name e = name) es = None \<Longrightarrow> \<forall>e \<in> set es. de_name e \<noteq> name"
  by (auto simp: find_None_iff)

text \<open>A world is in order if the store is and its table is a tree.\<close>

definition tree_world :: "('s \<Rightarrow> bool) \<Rightarrow> ('s \<Rightarrow> u64 \<Rightarrow> (u32 \<times> string) option) \<Rightarrow> 's \<Rightarrow> bool" where
  "tree_world good tab s \<longleftrightarrow> good s \<and> tree_ok (tab s)"

lemma tree_worldD: "tree_world good tab s \<Longrightarrow> good s" "tree_world good tab s \<Longrightarrow> tree_ok (tab s)"
  by (simp_all add: tree_world_def)

text \<open>A directory has room for one more entry and there is a free inode.\<close>

definition room_for :: "(u64 \<Rightarrow> (u32 \<times> string) option) \<Rightarrow> nat \<Rightarrow> dirent list \<Rightarrow> string \<Rightarrow> bool" where
  "room_for T n es name \<longleftrightarrow> (\<exists>i. id_ok i \<and> T i = None)
     \<and> length (dir_text es) + length name + 6 \<le> MAXFILE
     \<and> blocks_needed (length (dir_text es) + length name + 6) \<le> n + blocks_needed (length (dir_text es))"

text \<open>Room for a link and its entry.\<close>

definition room_for_link :: "(u64 \<Rightarrow> (u32 \<times> string) option) \<Rightarrow> nat \<Rightarrow> dirent list \<Rightarrow> string \<Rightarrow> string \<Rightarrow> bool" where
  "room_for_link T n es name link \<longleftrightarrow> room_for T n es name \<and> length link \<le> MAXFILE \<and> blocks_needed (length link) \<le> n \<and>
     blocks_needed (length (dir_text es) + length name + 6) + blocks_needed (length link) \<le> n + blocks_needed (length (dir_text es))"

context yfs
begin

lemma acquire_dir:
  assumes "tree_world good tab s" "entries (tab s) p es"
  shows "good (lc_acquire E p s)" "tab (lc_acquire E p s) p = Some (T_DIR, dir_text es)" "names_ok es"
  using assms by (simp_all add: lock_law tree_world_def entries_def)

lemma acquire_file:
  assumes "tree_world good tab s" "tab s i = Some (t, buf)"
  shows "good (lc_acquire E i s)" "tab (lc_acquire E i s) i = Some (t, buf)"
  using assms by (simp_all add: lock_law tree_world_def)

lemma locked_same:
  assumes "tree_world good tab s" "\<exists>s'. f (lc_acquire E p s) = Inr (x, s') \<and> good s' \<and> tab s' = tab s \<and> room s' = room s"
  shows "\<exists>s'. locked E p f s = Inr (x, s') \<and> tree_world good tab s' \<and> tab s' = tab s \<and> room s' = room s"
  using assms by (auto simp: locked_def lock_law tree_world_def)

lemma locked_data:
  assumes "tree_world good tab s" "tab s i = Some (t, buf)" "t \<noteq> T_DIR"
    and "\<exists>s'. f (lc_acquire E i s) = Inr (x, s') \<and> good s' \<and> tab s' = (tab s)(i \<mapsto> (t, d))"
  shows "\<exists>s'. locked E i f s = Inr (x, s') \<and> tree_world good tab s' \<and> tab s' = (tab s)(i \<mapsto> (t, d))"
  using assms tree_ok_data [OF tree_worldD(2) [OF assms(1)] _ assms(3), of i d] by (auto simp: locked_def lock_law tree_world_def)

text \<open>What \<^verbatim>\<open>create\<close>, \<^verbatim>\<open>mkdir\<close> and \<^verbatim>\<open>symlink\<close> have in common, with the lock around them.\<close>

lemma locked_make:
  assumes "tree_world good tab s" "entries (tab s) p es" "plain name" "find (\<lambda>e. de_name e = name) es = None" "type = T_DIR \<Longrightarrow> d = []"
    and "\<exists>i s'. f (lc_acquire E p s) = Inr ((OK, i), s') \<and> id_ok i \<and> tab s i = None \<and> good s'
      \<and> tab s' = (tab s)(i \<mapsto> (type, d), p \<mapsto> (T_DIR, dir_text (es @ [\<lparr>de_name = name, de_inum = i\<rparr>])))"
  shows "\<exists>i s'. locked E p f s = Inr ((OK, i), s') \<and> tree_world good tab s' \<and> tab s i = None
      \<and> tab s' = (tab s)(i \<mapsto> (type, d), p \<mapsto> (T_DIR, dir_text (es @ [\<lparr>de_name = name, de_inum = i\<rparr>])))"
proof -
  obtain i s' where c: "f (lc_acquire E p s) = Inr ((OK, i), s')" "tab s i = None" "good s'"
    "tab s' = (tab s)(i \<mapsto> (type, d), p \<mapsto> (T_DIR, dir_text (es @ [\<lparr>de_name = name, de_inum = i\<rparr>])))"
    using assms(6) by (elim exE conjE) (rule that)
  have "tree_ok (tab s')"
    unfolding c(4) by (rule tree_ok_make [OF tree_worldD(2) [OF assms(1)] assms(2,3) find_None_names [OF assms(4)] c(2) assms(5)])
  then have "tree_world good tab (lc_release E p s')" using c(3) by (simp add: tree_world_def lock_law)
  moreover have "locked E p f s = Inr ((OK, i), lc_release E p s')" using c(1) by (simp add: locked_def)
  moreover have "tab (lc_release E p s') = tab s'" by (rule lock_law)
  ultimately show ?thesis using c(2,4) by metis
qed

lemma make_public:
  assumes "tree_world good tab s" "entries (tab s) p es" "plain name" "room_for (tab s) (room s) es name" "find (\<lambda>e. de_name e = name) es = None"
  shows "\<exists>i s'. create l E p name i0 s = Inr ((OK, i), s') \<and> tree_world good tab s' \<and> tab s i = None
      \<and> tab s' = (tab s)(i \<mapsto> (T_FILE, []), p \<mapsto> (T_DIR, dir_text (es @ [\<lparr>de_name = name, de_inum = i\<rparr>])))"
    "\<exists>i s'. mkdir l E p name i0 s = Inr ((OK, i), s') \<and> tree_world good tab s' \<and> tab s i = None
      \<and> tab s' = (tab s)(i \<mapsto> (T_DIR, []), p \<mapsto> (T_DIR, dir_text (es @ [\<lparr>de_name = name, de_inum = i\<rparr>])))"
proof -
  from assms(4) obtain free where free: "id_ok free" "tab s free = None" by (auto simp: room_for_def)
  note eff = create_effect [OF acquire_dir [OF assms(1,2)] assms(5) free(1), where l = l and ?i0.0 = i0]
  show "\<exists>i s'. create l E p name i0 s = Inr ((OK, i), s') \<and> tree_world good tab s' \<and> tab s i = None
      \<and> tab s' = (tab s)(i \<mapsto> (T_FILE, []), p \<mapsto> (T_DIR, dir_text (es @ [\<lparr>de_name = name, de_inum = i\<rparr>])))"
    unfolding create_def using eff(1) assms(4) free(2)
    by (intro locked_make [OF assms(1-3) assms(5)]) (simp_all only: lock_law room_for_def)
  show "\<exists>i s'. mkdir l E p name i0 s = Inr ((OK, i), s') \<and> tree_world good tab s' \<and> tab s i = None
      \<and> tab s' = (tab s)(i \<mapsto> (T_DIR, []), p \<mapsto> (T_DIR, dir_text (es @ [\<lparr>de_name = name, de_inum = i\<rparr>])))"
    unfolding mkdir_def using eff(2) assms(4) free(2)
    by (intro locked_make [OF assms(1-3) assms(5)]) (simp_all only: lock_law room_for_def)
qed

lemma make_exists_public:
  assumes "tree_world good tab s" "entries (tab s) p es" "find (\<lambda>e. de_name e = name) es = Some e"
  shows "\<exists>s'. create l E p name i0 s = Inr ((EXIST, de_inum e), s') \<and> tree_world good tab s' \<and> tab s' = tab s \<and> room s' = room s"
    "\<exists>s'. mkdir l E p name i0 s = Inr ((EXIST, de_inum e), s') \<and> tree_world good tab s' \<and> tab s' = tab s \<and> room s' = room s"
    "\<exists>s'. symlink l E p name link i0 s = Inr ((EXIST, de_inum e), s') \<and> tree_world good tab s' \<and> tab s' = tab s \<and> room s' = room s"
  unfolding create_def mkdir_def symlink_def
  using create_exists [OF acquire_dir [OF assms(1,2)] assms(3), where l = l and ?i0.0 = i0]
  by (intro locked_same [OF assms(1)]; simp only: lock_law)+

lemma lookup_public:
  assumes "tree_world good tab s" "entries (tab s) p es"
  shows "\<exists>s'. lookup l E p name i0 s = Inr (case find (\<lambda>e. de_name e = name) es of
        Some e \<Rightarrow> (EXIST, True, de_inum e) | None \<Rightarrow> (OK, False, i0), s') \<and> tree_world good tab s' \<and> tab s' = tab s \<and> room s' = room s"
  unfolding lookup_def
  using lookup_effect [OF acquire_dir [OF assms], where l = l and name = name and ?i0.0 = i0]
  by (intro locked_same [OF assms(1)]) (simp only: lock_law)

lemma readdir_public:
  assumes "tree_world good tab s" "entries (tab s) p es"
  shows "\<exists>s'. readdir l E p [] s = Inr ((OK, es), s') \<and> tree_world good tab s' \<and> tab s' = tab s \<and> room s' = room s"
  unfolding readdir_def
  using readdir_effect [OF acquire_dir [OF assms], where l = l and list = "[]"]
  by (intro locked_same [OF assms(1)]) (simp only: lock_law append_Nil)

lemma unlink_missing_public:
  assumes "tree_world good tab s" "entries (tab s) p es" "find (\<lambda>e. de_name e = name) es = None"
  shows "\<exists>s'. unlink l E p name s = Inr (NOENT, s') \<and> tree_world good tab s' \<and> tab s' = tab s \<and> room s' = room s"
  unfolding unlink_def using unlink_missing [OF acquire_dir [OF assms(1,2)] assms(3), where l = l]
  by (intro locked_same [OF assms(1)]) (simp only: lock_law)

lemma unlink_public:
  assumes ok: "tree_world good tab s" and ent: "entries (tab s) p (xs @ \<lparr>de_name = name, de_inum = i\<rparr> # ys)"
    and num: "numeric name \<longrightarrow> (\<forall>e \<in> set xs. de_name e \<noteq> filename i)" "name \<noteq> filename i \<or> xs = []"
  shows "\<exists>s'. unlink l E p name s = Inr (OK, s') \<and> tree_world good tab s'
      \<and> tab s' = (tab s)(i := None, p \<mapsto> (T_DIR, dir_text (xs @ ys)))"
proof -
  let ?e = "\<lparr>de_name = name, de_inum = i\<rparr>" and ?s = "lc_acquire E p s"
  have T: "tree_ok (tab s)" using ok by (rule tree_worldD)
  have "tab s i \<noteq> None" "i \<noteq> p" using tree_okD(3,5) [OF T ent, of ?e] by auto
  then obtain t d where i: "tab s i = Some (t, d)" "i \<noteq> p" by auto
  have once: "\<forall>e \<in> set xs. de_inum e \<noteq> i"
    using tree_okD(7) [OF T ent ent, of _ ?e] entriesD(2) [OF ent] by (fastforce simp: names_ok_def)
  note D = acquire_dir [OF ok ent]
  have i': "tab ?s i = Some (t, d)" using i(1) by (simp only: lock_law)
  have "\<exists>s'. unlink' l E p name ?s = Inr (OK, s') \<and> good s'
      \<and> tab s' = (tab s)(i := None, p \<mapsto> (T_DIR, dir_text (xs @ ys)))"
    using unlink_effect [OF D i' i(2) once _ num(2), where l = l] num(1) unfolding lock_law by blast
  then obtain s' where u: "unlink' l E p name ?s = Inr (OK, s')" "good s'"
    "tab s' = (tab s)(i := None, p \<mapsto> (T_DIR, dir_text (xs @ ys)))" by (elim exE conjE) (rule that)
  have "tree_ok (tab s')" unfolding u(3) using tree_ok_remove [OF T ent] by simp
  then have "tree_world good tab (lc_release E p s')" using u(2) by (simp add: tree_world_def lock_law)
  moreover have "unlink l E p name s = Inr (OK, lc_release E p s')" using u(1) by (simp add: unlink_def locked_def)
  ultimately show ?thesis
    using u(3) lock_law(5) [of p s'] by (intro exI [of _ "lc_release E p s'"] conjI) simp_all
qed

lemma read_public:
  assumes "tree_world good tab s" "tab s i = Some (t, buf)"
  shows "\<exists>s'. read E i sz (int off) d0 s = Inr ((OK, take sz (drop off buf)), s') \<and> tree_world good tab s' \<and> tab s' = tab s \<and> room s' = room s"
  unfolding read_def
  using read_effect [OF acquire_file [OF assms], where sz = sz and off = off and data = d0]
  by (intro locked_same [OF assms(1)]) (simp only: lock_law)

lemma write_public:
  assumes "tree_world good tab s" "tab s i = Some (t, buf)" "t \<noteq> T_DIR" "max (length buf) (off + length data) \<le> MAXFILE"
    "blocks_needed (max (length buf) (off + length data)) \<le> room s + blocks_needed (length buf)"
  shows "\<exists>s'. yfs_write E i (length data) (int off) data w s = Inr ((OK, length data), s') \<and> tree_world good tab s'
    \<and> tab s' = (tab s)(i \<mapsto> (t, write_spec buf off data))"
  unfolding yfs_write_def
  using write_effect [OF acquire_file [OF assms(1,2)] assms(4), where w = w] assms(5)
  by (intro locked_data [OF assms(1-3)]) (auto simp: lock_law)

lemma setattr_public:
  assumes "tree_world good tab s" "tab s i = Some (t, buf)" "t \<noteq> T_DIR" "n \<le> MAXFILE"
    "blocks_needed n \<le> room s + blocks_needed (length buf)"
  shows "\<exists>s'. setattr E i n s = Inr (OK, s') \<and> tree_world good tab s' \<and> tab s' = (tab s)(i \<mapsto> (t, resize buf n))"
  unfolding setattr_def
  using setattr_effect [OF acquire_file [OF assms(1,2)] assms(4)] assms(5)
  by (intro locked_data [OF assms(1-3)]) (auto simp: lock_law)

lemma readlink_public:
  assumes "tree_world good tab s" "tab s i = Some (t, buf)"
  shows "\<exists>s'. readlink E i path s = Inr ((OK, buf), s') \<and> tree_world good tab s' \<and> tab s' = tab s \<and> room s' = room s"
  unfolding readlink_def readlink'_def
  using get_Some [OF acquire_file [OF assms], where b = path]
  by (intro locked_same [OF assms(1)]) (simp only: lock_law)

lemma symlink_public:
  assumes "tree_world good tab s" "entries (tab s) p es" "plain name" "find (\<lambda>e. de_name e = name) es = None"
    "room_for_link (tab s) (room s) es name link"
  shows "\<exists>i s'. symlink l E p name link i0 s = Inr ((OK, i), s') \<and> tree_world good tab s' \<and> tab s i = None
    \<and> tab s' = (tab s)(i \<mapsto> (T_SYMLINK, link), p \<mapsto> (T_DIR, dir_text (es @ [\<lparr>de_name = name, de_inum = i\<rparr>])))"
  unfolding symlink_def
proof (rule locked_make [OF assms(1-4)])
  from assms(5) obtain free where free: "id_ok free" "tab s free = None" by (auto simp: room_for_link_def room_for_def)
  show "\<exists>i s'. symlink' l E p name link i0 (lc_acquire E p s) = Inr ((OK, i), s') \<and> id_ok i \<and> tab s i = None \<and> good s'
      \<and> tab s' = (tab s)(i \<mapsto> (T_SYMLINK, link), p \<mapsto> (T_DIR, dir_text (es @ [\<lparr>de_name = name, de_inum = i\<rparr>])))"
    using symlink_effect [OF acquire_dir [OF assms(1,2)] assms(4) free(1), where l = l and ?i0.0 = i0 and link = link] assms(5) free(2)
    by (simp only: lock_law room_for_link_def room_for_def)
qed simp

end

section \<open>A client next to an extent server\<close>

text \<open>
  The world is an extent server and the log of the lock client; locks are granted at once, as
  they are when no other client contends.
\<close>

datatype lock_event = Acquire u64 | Release u64

record ysys =
  y_es :: extent_server
  y_log :: "lock_event list"

definition on_es :: "(extent_server, 'a) op \<Rightarrow> (ysys, 'a) op" where
  "on_es f s = rbind (f (y_es s)) (\<lambda>(x, es). Inr (x, s\<lparr>y_es := es\<rparr>))"

definition yfs_env :: "(nat \<Rightarrow> byte) \<Rightarrow> ysys env" where
  "yfs_env junk = \<lparr>
     ec = \<lparr>ec_create = \<lambda>t i. on_es (ec_create (es_ops junk) t i), ec_get = \<lambda>i b. on_es (ec_get (es_ops junk) i b),
           ec_getattr = \<lambda>i a. on_es (ec_getattr (es_ops junk) i a), ec_put = \<lambda>i b. on_es (ec_put (es_ops junk) i b),
           ec_remove = \<lambda>i. on_es (ec_remove (es_ops junk) i)\<rparr>,
     lc_acquire = \<lambda>i s. s\<lparr>y_log := y_log s @ [Acquire i]\<rparr>,
     lc_release = \<lambda>i s. s\<lparr>y_log := y_log s @ [Release i]\<rparr>\<rparr>"

abbreviation y_good :: "ysys \<Rightarrow> bool" where "y_good s \<equiv> es_good (y_es s)"
abbreviation y_tab :: "ysys \<Rightarrow> u64 \<Rightarrow> (u32 \<times> string) option" where "y_tab s \<equiv> es_tab (y_es s)"
abbreviation y_room :: "ysys \<Rightarrow> nat" where "y_room s \<equiv> es_room (y_es s)"

lemma on_es_lift:
  "\<exists>es. f (y_es s) = Inr (x, es) \<and> R es \<Longrightarrow> \<exists>s'. on_es f s = Inr (x, s') \<and> R (y_es s')"
  by (auto simp: on_es_def)

interpretation yf: yfs "yfs_env junk" y_good y_tab y_room
  for junk
proof unfold_locales
  show "y_tab s eid \<noteq> None \<Longrightarrow> id_ok eid" for s eid by (rule es.tab_ok)
  show "y_good s \<Longrightarrow> y_tab s eid = Some (t, d) \<Longrightarrow> length d \<le> MAXFILE" for s eid t d by (rule es.size_law)
  show "\<exists>s'. ec_get (ec (yfs_env junk)) eid b s = Inr ((OK, case y_tab s eid of Some (t, d) \<Rightarrow> d | None \<Rightarrow> []), s')
      \<and> y_good s' \<and> y_tab s' = y_tab s \<and> y_room s' = y_room s" if "y_good s" "id_ok eid" for s eid b
    using es.get_law [OF that, of junk b] by (auto simp: yfs_env_def on_es_def)
  show "\<exists>a s'. ec_getattr (ec (yfs_env junk)) eid a0 s = Inr ((OK, a), s')
      \<and> (case y_tab s eid of Some (t, d) \<Rightarrow> a_type a = t \<and> a_size a = of_nat (length d) | None \<Rightarrow> a_type a = 0 \<and> a_size a = 0)
      \<and> y_good s' \<and> y_tab s' = y_tab s \<and> y_room s' = y_room s" if "y_good s" "id_ok eid" for s eid a0
    using es.getattr_law [OF that, of junk a0] by (auto simp: yfs_env_def on_es_def)
  show "\<exists>s'. ec_put (ec (yfs_env junk)) eid d s = Inr (OK, s') \<and> y_good s' \<and> y_tab s' = (y_tab s)(eid \<mapsto> (t, d))
      \<and> y_room s' + blocks_needed (length d) = y_room s + blocks_needed (length d0)"
    if "y_good s" "y_tab s eid = Some (t, d0)" "length d \<le> MAXFILE"
      "blocks_needed (length d) \<le> y_room s + blocks_needed (length d0)" for s eid t d0 d
    using es.put_law [OF that, of junk] by (auto simp: yfs_env_def on_es_def)
  show "\<exists>eid s'. ec_create (ec (yfs_env junk)) type id0 s = Inr ((OK, eid), s') \<and> id_ok eid \<and> y_tab s eid = None \<and> y_good s'
      \<and> y_tab s' = (y_tab s)(eid \<mapsto> (type, [])) \<and> y_room s' = y_room s"
    if "y_good s" "id_ok free" "y_tab s free = None" "type \<in> {T_DIR, T_FILE, T_SYMLINK}" for s free type id0
    using es.create_law [OF that, of junk id0] by (fastforce simp: yfs_env_def on_es_def)
  show "\<exists>s'. ec_remove (ec (yfs_env junk)) eid s = Inr (OK, s') \<and> y_good s' \<and> y_tab s' = (y_tab s)(eid := None)
      \<and> y_room s' = y_room s + blocks_needed (length d)"
    if "y_good s" "y_tab s eid = Some (t, d)" for s eid t d
    using es.remove_law [OF that, of junk] by (auto simp: yfs_env_def on_es_def)
qed (simp_all add: yfs_env_def)

definition y_ok :: "ysys \<Rightarrow> bool" where
  "y_ok s \<longleftrightarrow> y_good s \<and> tree_ok (y_tab s)"

lemma y_ok_world: "tree_world y_good y_tab s = y_ok s"
  by (simp add: tree_world_def y_ok_def)

lemma y_okD: "y_ok s \<Longrightarrow> y_good s" "y_ok s \<Longrightarrow> tree_ok (y_tab s)"
  by (simp_all add: y_ok_def)

definition dir_room :: "ysys \<Rightarrow> dirent list \<Rightarrow> string \<Rightarrow> bool" where
  "dir_room s es name \<longleftrightarrow> room_for (y_tab s) (y_room s) es name"

section \<open>Properties\<close>

text \<open>C7. In a directory without the name and with room, \<^verbatim>\<open>create\<close> makes exactly one new empty file, in an
  inode that was free, and appends its entry; an existing name is reported as \<^verbatim>\<open>EXIST\<close> with its
  inode and nothing changes.  The tree of directories stays well formed.\<close>

theorem create_correct:
  assumes "y_ok s" "entries (y_tab s) p es" "plain name" "dir_room s es name"
  shows "case find (\<lambda>e. de_name e = name) es of
      Some e \<Rightarrow> \<exists>s'. create l (yfs_env junk) p name i0 s = Inr ((EXIST, de_inum e), s') \<and> y_ok s' \<and> y_tab s' = y_tab s
    | None \<Rightarrow> \<exists>i s'. create l (yfs_env junk) p name i0 s = Inr ((OK, i), s') \<and> y_ok s' \<and> y_tab s i = None
        \<and> y_tab s' = (y_tab s)(i \<mapsto> (T_FILE, []), p \<mapsto> (T_DIR, dir_text (es @ [\<lparr>de_name = name, de_inum = i\<rparr>])))"
  using yf.make_public(1) [unfolded y_ok_world, OF assms(1-3) assms(4) [unfolded dir_room_def], where junk = junk and l = l and ?i0.0 = i0]
    yf.make_exists_public(1) [unfolded y_ok_world, OF assms(1,2), where junk = junk and l = l and ?i0.0 = i0]
  by (simp only: option.case split: option.split) blast

text \<open>\<^verbatim>\<open>mkdir\<close> makes exactly one new empty directory and its entry, reports an existing name, and keeps
  the tree well formed.\<close>

lemma mkdir_correct:
  assumes "y_ok s" "entries (y_tab s) p es" "plain name" "dir_room s es name"
  shows "case find (\<lambda>e. de_name e = name) es of
      Some e \<Rightarrow> \<exists>s'. mkdir l (yfs_env junk) p name i0 s = Inr ((EXIST, de_inum e), s') \<and> y_ok s' \<and> y_tab s' = y_tab s
    | None \<Rightarrow> \<exists>i s'. mkdir l (yfs_env junk) p name i0 s = Inr ((OK, i), s') \<and> y_ok s' \<and> y_tab s i = None
        \<and> y_tab s' = (y_tab s)(i \<mapsto> (T_DIR, []), p \<mapsto> (T_DIR, dir_text (es @ [\<lparr>de_name = name, de_inum = i\<rparr>])))"
  using yf.make_public(2) [unfolded y_ok_world, OF assms(1-3) assms(4) [unfolded dir_room_def], where junk = junk and l = l and ?i0.0 = i0]
    yf.make_exists_public(2) [unfolded y_ok_world, OF assms(1,2), where junk = junk and l = l and ?i0.0 = i0]
  by (simp only: option.case split: option.split) blast

text \<open>\<^verbatim>\<open>lookup\<close> finds a name in a directory exactly when there is an entry with it, and returns that
  entry's inode; \<^verbatim>\<open>readdir\<close> lists the entries.  Neither changes the tree.\<close>

lemma lookup_correct:
  assumes "y_ok s" "entries (y_tab s) p es"
  shows "(\<exists>s'. lookup l (yfs_env junk) p name i0 s = Inr (case find (\<lambda>e. de_name e = name) es of
        Some e \<Rightarrow> (EXIST, True, de_inum e) | None \<Rightarrow> (OK, False, i0), s') \<and> y_ok s' \<and> y_tab s' = y_tab s)
    \<and> (\<exists>s'. readdir l (yfs_env junk) p [] s = Inr ((OK, es), s') \<and> y_ok s' \<and> y_tab s' = y_tab s)"
  using yf.lookup_public [unfolded y_ok_world, OF assms, where junk = junk and l = l and name = name and ?i0.0 = i0]
    yf.readdir_public [unfolded y_ok_world, OF assms, where junk = junk and l = l] by blast


text \<open>C18. \<^verbatim>\<open>write\<close> stores the bytes at the offset, fills a hole with zeros, keeps the rest of the file and
  every other file, and reports all bytes as written; a following \<^verbatim>\<open>read\<close> of the same range returns
  exactly the bytes written.\<close>

theorem write_correct:
  assumes "y_ok s" "y_tab s i = Some (t, buf)" "t \<noteq> T_DIR" "max (length buf) (off + length data) \<le> MAXFILE"
    "blocks_needed (max (length buf) (off + length data)) \<le> y_room s + blocks_needed (length buf)"
  shows "\<exists>s'. yfs_write (yfs_env junk) i (length data) (int off) data w s = Inr ((OK, length data), s') \<and> y_ok s'
    \<and> y_tab s' = (y_tab s)(i \<mapsto> (t, write_spec buf off data))
    \<and> (\<exists>s''. read (yfs_env junk) i (length data) (int off) d0 s' = Inr ((OK, data), s'') \<and> y_ok s'' \<and> y_tab s'' = y_tab s')"
proof -
  obtain s' where w: "yfs_write (yfs_env junk) i (length data) (int off) data w s = Inr ((OK, length data), s')" "y_ok s'"
    "y_tab s' = (y_tab s)(i \<mapsto> (t, write_spec buf off data))"
    using yf.write_public [unfolded y_ok_world, OF assms, where junk = junk and w = w] by (elim exE conjE) (rule that)
  have "y_tab s' i = Some (t, write_spec buf off data)" using w(3) by simp
  from yf.read_public [unfolded y_ok_world, OF w(2) this, of junk "length data" off d0] w show ?thesis
    unfolding read_write_spec by blast
qed

text \<open>\<^verbatim>\<open>read\<close> returns the bytes of the file in the requested range, cut off at its end, and changes no
  contents; an offset at or past the end gives the empty string.\<close>

lemma read_correct:
  assumes "y_ok s" "y_tab s i = Some (t, buf)"
  shows "\<exists>s'. read (yfs_env junk) i sz (int off) d0 s = Inr ((OK, take sz (drop off buf)), s') \<and> y_ok s' \<and> y_tab s' = y_tab s"
  using yf.read_public [unfolded y_ok_world, OF assms, where junk = junk and sz = sz and off = off and ?d0.0 = d0] by blast

text \<open>\<^verbatim>\<open>setattr\<close> truncates a file or extends it with zero bytes to the given size and changes nothing
  else.\<close>

lemma setattr_correct:
  assumes "y_ok s" "y_tab s i = Some (t, buf)" "t \<noteq> T_DIR" "n \<le> MAXFILE"
    "blocks_needed n \<le> y_room s + blocks_needed (length buf)"
  shows "\<exists>s'. setattr (yfs_env junk) i n s = Inr (OK, s') \<and> y_ok s'
    \<and> y_tab s' = (y_tab s)(i \<mapsto> (t, take n buf @ replicate (n - length buf) CHR 0x00))"
  using yf.setattr_public [unfolded y_ok_world, OF assms, where junk = junk] by (simp add: resize_def)

text \<open>\<^verbatim>\<open>symlink\<close> makes one new symbolic link and its entry, keeps the tree well formed, and \<^verbatim>\<open>readlink\<close>
  of the new inode returns the target that was given.\<close>

lemma symlink_correct:
  assumes "y_ok s" "entries (y_tab s) p es" "plain name" "find (\<lambda>e. de_name e = name) es = None" "dir_room s es name"
    "length link \<le> MAXFILE" "blocks_needed (length link) \<le> y_room s"
    "blocks_needed (length (dir_text es) + length name + 6) + blocks_needed (length link)
       \<le> y_room s + blocks_needed (length (dir_text es))"
  shows "\<exists>i s'. symlink l (yfs_env junk) p name link i0 s = Inr ((OK, i), s') \<and> y_ok s' \<and> y_tab s i = None
    \<and> y_tab s' = (y_tab s)(i \<mapsto> (T_SYMLINK, link), p \<mapsto> (T_DIR, dir_text (es @ [\<lparr>de_name = name, de_inum = i\<rparr>])))
    \<and> (\<exists>s''. readlink (yfs_env junk) i path s' = Inr ((OK, link), s'') \<and> y_ok s'' \<and> y_tab s'' = y_tab s')"
proof -
  have "room_for_link (y_tab s) (y_room s) es name link" using assms(5-8) by (simp add: room_for_link_def dir_room_def)
  from yf.symlink_public [unfolded y_ok_world, OF assms(1-4) this, where junk = junk and l = l and ?i0.0 = i0]
  obtain i s' where c: "symlink l (yfs_env junk) p name link i0 s = Inr ((OK, i), s')" "y_ok s'" "y_tab s i = None"
    "y_tab s' = (y_tab s)(i \<mapsto> (T_SYMLINK, link), p \<mapsto> (T_DIR, dir_text (es @ [\<lparr>de_name = name, de_inum = i\<rparr>])))"
    by (elim exE conjE) (rule that)
  have "i \<noteq> p" using c(3) entriesD(1) [OF assms(2)] by auto
  then have "y_tab s' i = Some (T_SYMLINK, link)" using c(4) by simp
  from yf.readlink_public [unfolded y_ok_world, OF c(2) this, of junk path] c show ?thesis by blast
qed

text \<open>\<^verbatim>\<open>_lookup\<close> reports success without a match when the parent is not a directory, so \<^verbatim>\<open>create\<close> in a
  regular file appends the text of an entry to the data of that file.\<close>

lemma create_in_file:
  assumes "y_ok s" "y_tab s f = Some (T_FILE, d)" "id_ok free" "y_tab s free = None"
    "length d + length name + 6 \<le> MAXFILE" "blocks_needed (length d + length name + 6) \<le> y_room s + blocks_needed (length d)"
  shows "\<exists>i s'. create l (yfs_env junk) f name i0 s = Inr ((OK, i), s')
    \<and> y_tab s' f = Some (T_FILE, d @ entry_text name i)"
proof -
  let ?s = "lc_acquire (yfs_env junk) f s"
  note a = yf.acquire_file [unfolded y_ok_world, OF assms(1,2), where junk = junk]
  obtain s1 where s1: "lookup' l (yfs_env junk) f name i0 ?s = Inr ((OK, False, i0), s1)" "y_good s1" "y_tab s1 = y_tab s" "y_room s1 = y_room s"
    using yf.lookup_not_dir [OF a, where junk = junk and l = l and name = name and ?i0.0 = i0] by (auto simp: yf.lock_law)
  obtain i s2 where s2: "ec_create (ec (yfs_env junk)) T_FILE i0 s1 = Inr ((OK, i), s2)" "id_ok i" "y_tab s i = None" "y_good s2"
    "y_tab s2 = (y_tab s)(i \<mapsto> (T_FILE, []))" "y_room s2 = y_room s"
    using yf.create_law [OF s1(2) assms(3), where junk = junk and type = T_FILE and ?id0.0 = i0] s1(3,4) assms(4) by auto
  have "y_tab s2 f = Some (T_FILE, d)" using s2(3,5) assms(2) by auto
  from yf.add_entry_effect [OF s2(4) this s2(2), where junk = junk and name = name] assms(5,6) s2(6)
  obtain s3 where "add_entry (yfs_env junk) f name i s2 = Inr ((OK, i), s3)" "y_tab s3 f = Some (T_FILE, d @ entry_text name i)"
    by auto
  with s1(1) s2(1) show ?thesis by (auto simp: create_def create'_def locked_def andthen_def yf.lock_law)
qed

text \<open>Every client that starts empties the root directory, whatever it holds.\<close>

lemma yfs_client_init_resets:
  assumes "y_good s" "y_tab s 1 = Some (t, d)"
  shows "\<exists>s'. yfs_client_init (yfs_env junk) s = Inr (OK, s') \<and> y_good s' \<and> y_tab s' = (y_tab s)(1 \<mapsto> (t, []))"
  using yf.put_law [OF assms, where junk = junk and d = "[]"] by (auto simp: yfs_client_init_def blocks_needed_def)

section \<open>A concrete file system\<close>

lemma tree_ok_empty: "tree_ok [1 \<mapsto> (T_DIR, [])]"
proof -
  have e: "es = []" if "entries [1 \<mapsto> (T_DIR, [])] p es" for p es
    using that dir_text_inj [of es "[]"] by (auto simp: entries_def split: if_splits)
  have "entries [1 \<mapsto> (T_DIR, [])] 1 []" by (simp add: entries_def)
  then show ?thesis by (intro tree_okI) (auto dest: e split: if_splits)
qed

lemma y_init:
  "\<exists>s. y_ok s \<and> y_tab s = [1 \<mapsto> (T_DIR, [])] \<and> y_room s = 31734 \<and> entries (y_tab s) 1 []"
proof -
  obtain es where "es_good es" "es_tab es = [1 \<mapsto> (T_DIR, [])]" "es_room es = 31734"
    using extent_server_init_effect by blast
  then show ?thesis
    by (intro exI [of _ "\<lparr>y_es = es, y_log = []\<rparr>"]) (simp add: y_ok_def tree_ok_empty entries_def)
qed

definition some_locals :: locals where
  "some_locals = \<lparr>l_finum = (\<lambda>_. 5), l_attr = \<lparr>a_type = 9, a_atime = 9, a_mtime = 9, a_ctime = 9, a_size = 9\<rparr>, l_inum = 77\<rparr>"

lemma y_room_ok: "y_tab s = [1 \<mapsto> (T_DIR, [])] \<Longrightarrow> y_room s = 31734 \<Longrightarrow> length name < 10 \<Longrightarrow> dir_room s [] name"
proof -
  assume s: "y_tab s = [1 \<mapsto> (T_DIR, [])]" "y_room s = 31734" and n: "length name < 10"
  have "id_ok 2 \<and> y_tab s 2 = None" using s(1) by (simp add: id_ok_def inum_ok_def)
  moreover have "blocks_needed (length name + 6) = 1" using n by (simp add: blocks_needed_def)
  moreover have "length (dir_text []) + length name + 6 \<le> MAXFILE" using n by (simp add: MAXFILE_def)
  ultimately show ?thesis using s(2) unfolding dir_room_def room_for_def by (intro conjI exI [of _ 2]) simp_all
qed

lemma y_file:
  "\<exists>s i free. y_ok s \<and> y_tab s i = Some (T_FILE, []) \<and> y_room s = 31734 \<and> id_ok free \<and> y_tab s free = None"
proof -
  obtain s where s: "y_ok s" "y_tab s = [1 \<mapsto> (T_DIR, [])]" "y_room s = 31734" using y_init by blast
  have f: "id_ok 2" "y_tab s 2 = None" "id_ok 5" "id_ok 6" using s(2) by (simp_all add: id_ok_def inum_ok_def)
  obtain i s' where s': "y_tab s i = None" "y_good s'" "y_tab s' = (y_tab s)(i \<mapsto> (T_FILE, []))" "y_room s' = 31734"
    using yf.create_law [OF y_okD(1) [OF s(1)] f(1,2), where junk = "\<lambda>_. 7" and type = T_FILE and ?id0.0 = 0] s(3) by auto
  have "tree_ok (y_tab s')" unfolding s'(3) using y_okD(2) [OF s(1)] s'(1) by (intro tree_ok_data) auto
  then have ok: "y_ok s'" using s'(2) by (simp add: y_ok_def)
  define free where "free = (if i = 5 then 6 else 5 :: u64)"
  have "id_ok free" "y_tab s' free = None" using f(3,4) s'(3) s(2) by (auto simp: free_def)
  with ok s'(3,4) show ?thesis by (intro exI [of _ s'] exI [of _ i] exI [of _ free]) simp
qed

lemma y_dir_file:
  "\<exists>s i. y_ok s \<and> entries (y_tab s) 1 [\<lparr>de_name = ''a'', de_inum = i\<rparr>]"
proof -
  obtain s where s: "y_ok s" "y_tab s = [1 \<mapsto> (T_DIR, [])]" "y_room s = 31734" "entries (y_tab s) 1 []" using y_init by blast
  have r: "dir_room s [] ''a''" using y_room_ok [OF s(2,3), of "''a''"] by simp
  then obtain free where free: "id_ok free" "y_tab s free = None" by (auto simp: dir_room_def room_for_def)
  have p: "plain ''a''" by (simp add: plain_def)
  have "\<exists>i s'. create' some_locals (yfs_env (\<lambda>_. 7)) 1 ''a'' 0 s = Inr ((OK, i), s') \<and> id_ok i \<and> y_tab s i = None \<and> y_good s'
      \<and> y_tab s' = (y_tab s)(i \<mapsto> (T_FILE, []), 1 \<mapsto> (T_DIR, dir_text ([] @ [\<lparr>de_name = ''a'', de_inum = i\<rparr>])))"
    using yf.create_effect(1) [OF y_okD(1) [OF s(1)] entriesD [OF s(4)] _ free, of "''a''"] r by (simp add: dir_room_def room_for_def)
  then obtain i s' where c: "y_tab s i = None" "y_good s'"
    "y_tab s' = (y_tab s)(i \<mapsto> (T_FILE, []), 1 \<mapsto> (T_DIR, dir_text ([] @ [\<lparr>de_name = ''a'', de_inum = i\<rparr>])))"
    by (elim exE conjE) (rule that)
  have "tree_ok (y_tab s')" unfolding c(3) by (rule tree_ok_make [OF y_okD(2) [OF s(1)] s(4) p _ c(1)]) simp_all
  then have "y_ok s'" using c(2) by (simp add: y_ok_def)
  moreover have "entries (y_tab s') 1 [\<lparr>de_name = ''a'', de_inum = i\<rparr>]"
    using c(3) p by (simp add: entries_def names_ok_def)
  ultimately show ?thesis by blast
qed

section \<open>Witnesses\<close>

theorem create_correct_witness:
  "\<exists>s i s'. create some_locals (yfs_env (\<lambda>_. 7)) 1 ''b'' 0 s = Inr ((OK, i), s') \<and> y_ok s'
    \<and> y_tab s' = [i \<mapsto> (T_FILE, []), 1 \<mapsto> (T_DIR, dir_text [\<lparr>de_name = ''b'', de_inum = i\<rparr>])]"
proof -
  obtain s where s: "y_ok s" "y_tab s = [1 \<mapsto> (T_DIR, [])]" "y_room s = 31734" "entries (y_tab s) 1 []" using y_init by blast
  have r: "plain ''b''" "dir_room s [] ''b''" using y_room_ok [OF s(2,3), of "''b''"] by (simp_all add: plain_def)
  show ?thesis
    using create_correct [OF s(1,4) r, of some_locals "\<lambda>_. 7" 0] s(2) by (fastforce simp: fun_upd_twist fun_upd_idem_iff)
qed

lemma mkdir_correct_witness:
  "\<exists>s i s'. mkdir some_locals (yfs_env (\<lambda>_. 7)) 1 ''b'' 0 s = Inr ((OK, i), s') \<and> y_ok s' \<and> y_tab s i = None
    \<and> y_tab s' 1 = Some (T_DIR, dir_text [\<lparr>de_name = ''b'', de_inum = i\<rparr>])"
proof -
  obtain s where s: "y_ok s" "y_tab s = [1 \<mapsto> (T_DIR, [])]" "y_room s = 31734" "entries (y_tab s) 1 []" using y_init by blast
  have r: "plain ''b''" "dir_room s [] ''b''" using y_room_ok [OF s(2,3), of "''b''"] by (simp_all add: plain_def)
  show ?thesis
    using mkdir_correct [OF s(1,4) r, of some_locals "\<lambda>_. 7" 0] by fastforce
qed

lemma lookup_correct_witness:
  "\<exists>s i s' s''. lookup some_locals (yfs_env (\<lambda>_. 7)) 1 ''a'' 0 s = Inr ((EXIST, True, i), s')
    \<and> lookup some_locals (yfs_env (\<lambda>_. 7)) 1 ''b'' 0 s = Inr ((OK, False, 0), s'')"
proof -
  obtain s i where s: "y_ok s" "entries (y_tab s) 1 [\<lparr>de_name = ''a'', de_inum = i\<rparr>]" using y_dir_file by blast
  show ?thesis
    using lookup_correct [OF s, of some_locals "\<lambda>_. 7" "''a''" 0] lookup_correct [OF s, of some_locals "\<lambda>_. 7" "''b''" 0] by fastforce
qed


theorem write_correct_witness:
  "\<exists>s i s' s''. yfs_write (yfs_env (\<lambda>_. 7)) i 2 3 ''hi'' 0 s = Inr ((OK, 2), s')
    \<and> y_tab s' i = Some (T_FILE, write_spec [] 3 ''hi'') \<and> read (yfs_env (\<lambda>_. 7)) i 2 3 [] s' = Inr ((OK, ''hi''), s'')"
proof -
  obtain s i where s: "y_ok s" "y_tab s i = Some (T_FILE, [])" "y_room s = 31734" using y_file by blast
  have "\<exists>s'. yfs_write (yfs_env (\<lambda>_. 7)) i (length ''hi'') (int 3) ''hi'' 0 s = Inr ((OK, length ''hi''), s') \<and> y_ok s'
    \<and> y_tab s' = (y_tab s)(i \<mapsto> (T_FILE, write_spec [] 3 ''hi''))
    \<and> (\<exists>s''. read (yfs_env (\<lambda>_. 7)) i (length ''hi'') (int 3) [] s' = Inr ((OK, ''hi''), s'') \<and> y_ok s'' \<and> y_tab s'' = y_tab s')"
    by (rule write_correct [OF s(1,2)]) (simp_all add: s(3) MAXFILE_def blocks_needed_def)
  then show ?thesis by (fastforce simp: numeral_2_eq_2)
qed

lemma read_correct_witness:
  "\<exists>s i s'. read (yfs_env (\<lambda>_. 7)) i 4 9 [] s = Inr ((OK, []), s') \<and> y_tab s' = y_tab s"
proof -
  obtain s i where s: "y_ok s" "y_tab s i = Some (T_FILE, [])" using y_file by blast
  show ?thesis using read_correct [OF s, of "\<lambda>_. 7" 4 9 "[]"] by fastforce
qed

lemma setattr_correct_witness:
  "\<exists>s i s'. setattr (yfs_env (\<lambda>_. 7)) i 3 s = Inr (OK, s') \<and> y_tab s' i = Some (T_FILE, replicate 3 CHR 0x00)"
proof -
  obtain s i where s: "y_ok s" "y_tab s i = Some (T_FILE, [])" "y_room s = 31734" using y_file by blast
  show ?thesis
    using setattr_correct [OF s(1,2), of 3 "\<lambda>_. 7"] s(3) by (fastforce simp: MAXFILE_def blocks_needed_def)
qed

lemma symlink_correct_witness:
  "\<exists>s i s' s''. symlink some_locals (yfs_env (\<lambda>_. 7)) 1 ''b'' ''target'' 0 s = Inr ((OK, i), s')
    \<and> readlink (yfs_env (\<lambda>_. 7)) i [] s' = Inr ((OK, ''target''), s'')"
proof -
  obtain s where s: "y_ok s" "y_tab s = [1 \<mapsto> (T_DIR, [])]" "y_room s = 31734" "entries (y_tab s) 1 []" using y_init by blast
  have r: "plain ''b''" "dir_room s [] ''b''" using y_room_ok [OF s(2,3), of "''b''"] by (simp_all add: plain_def)
  show ?thesis
    using symlink_correct [OF s(1,4) r(1) _ r(2), of "''target''" some_locals "\<lambda>_. 7" 0 "[]"] s(3)
    by (fastforce simp: MAXFILE_def blocks_needed_def)
qed

lemma create_in_file_witness:
  "\<exists>s f i s'. create some_locals (yfs_env (\<lambda>_. 7)) f ''b'' 0 s = Inr ((OK, i), s')
    \<and> y_tab s' f = Some (T_FILE, entry_text ''b'' i)"
proof -
  obtain s i free where s: "y_ok s" "y_tab s i = Some (T_FILE, [])" "id_ok free" "y_tab s free = None" "y_room s = 31734"
    using y_file by blast
  show ?thesis
    using create_in_file [OF s(1-4), of "''b''" some_locals "\<lambda>_. 7" 0] s(5) by (fastforce simp: MAXFILE_def blocks_needed_def)
qed

lemma yfs_client_init_resets_witness:
  "\<exists>s s'. y_tab s 1 \<noteq> Some (T_DIR, []) \<and> yfs_client_init (yfs_env (\<lambda>_. 7)) s = Inr (OK, s')
    \<and> y_tab s' 1 = Some (T_DIR, [])"
proof -
  obtain s i where s: "y_ok s" "entries (y_tab s) 1 [\<lparr>de_name = ''a'', de_inum = i\<rparr>]" using y_dir_file by blast
  have ne: "y_tab s 1 \<noteq> Some (T_DIR, [])" using entriesD(1) [OF s(2)] by (simp add: entry_text_def)
  obtain s' where "yfs_client_init (yfs_env (\<lambda>_. 7)) s = Inr (OK, s')" "y_tab s' = (y_tab s)(1 \<mapsto> (T_DIR, []))"
    using yfs_client_init_resets [OF y_okD(1) [OF s(1)] entriesD(1) [OF s(2)], of "\<lambda>_. 7"] by blast
  with ne show ?thesis by (intro exI [of _ s] exI [of _ s']) simp
qed

end
