(* ===== verification/Fuse.thy ===== *)
theory Fuse
  imports Yfs_Tree
begin

text \<open>
  The FUSE server of \<^verbatim>\<open>src/fuse.cc\<close>: one handler per kernel request over the operations of \<^verbatim>\<open>yfs_client\<close>,
  the table of handlers and the session loop.  The FUSE library is the parameter \<open>fuse_lib\<close>; a reply is
  the call of \<^verbatim>\<open>fuse_reply_...\<close> that the handler makes.  The abstract file system \<open>fs_spec\<close> says what each
  request does to a tree of files and what it answers, and the handlers refine it.
\<close>

section \<open>Replies and requests\<close>

record stat =
  st_ino :: u64
  st_mode :: u32
  st_nlink :: nat
  st_atime :: int
  st_mtime :: int
  st_ctime :: int
  st_size :: int

definition stat_zero :: stat where
  "stat_zero = \<lparr>st_ino = 0, st_mode = 0, st_nlink = 0, st_atime = 0, st_mtime = 0, st_ctime = 0, st_size = 0\<rparr>"

abbreviation S_IFREG :: u32 where "S_IFREG \<equiv> 0x8000"
abbreviation S_IFDIR :: u32 where "S_IFDIR \<equiv> 0x4000"
abbreviation S_IFLNK :: u32 where "S_IFLNK \<equiv> 0xA000"

datatype errno = E_SUCCESS | ENOENT | EEXIST | ENOTDIR | ENOTEMPTY | ENOSYS

record entry_param =
  e_ino :: u64
  e_generation :: nat
  e_attr :: stat
  e_attr_timeout :: nat
  e_entry_timeout :: nat

datatype reply =
    Reply_Err errno
  | Reply_Attr stat
  | Reply_Buf "byte list"
  | Reply_Write nat
  | Reply_Create entry_param
  | Reply_Entry entry_param
  | Reply_Open
  | Reply_Statfs nat nat
  | Reply_Readlink string

text \<open>
  The library: the flags of \<^verbatim>\<open>to_set\<close>, the size of a directory record for a name of given length, and the
  record itself for a name, attributes and an offset.
\<close>

record fuse_lib =
  SET_ATTR_SIZE :: u32
  SET_ATTR_ATIME :: u32
  SET_ATTR_MTIME :: u32
  fuse_dirent_size :: "nat \<Rightarrow> nat"
  fuse_add_dirent :: "string \<Rightarrow> stat \<Rightarrow> nat \<Rightarrow> byte list"

text \<open>Values of uninitialised locals and memory.\<close>

record flocals =
  fl_yfs :: locals
  fl_file :: fileinfo
  fl_dir :: dirinfo
  fl_inum :: u64
  fl_heap :: "nat \<Rightarrow> byte"

section \<open>Handlers\<close>

text \<open>\<^verbatim>\<open>getattr\<close>; the first \<^verbatim>\<open>isfile\<close> is the argument of the \<^verbatim>\<open>printf\<close>.\<close>

definition file_stat :: "u64 \<Rightarrow> u32 \<Rightarrow> fileinfo \<Rightarrow> stat" where
  "file_stat inum mode info = stat_zero\<lparr>st_ino := inum, st_mode := mode, st_nlink := 1, st_atime := sint (fi_atime info),
     st_mtime := sint (fi_mtime info), st_ctime := sint (fi_ctime info), st_size := sint (fi_size info)\<rparr>"

definition dir_stat :: "u64 \<Rightarrow> dirinfo \<Rightarrow> stat" where
  "dir_stat inum info = stat_zero\<lparr>st_ino := inum, st_mode := S_IFDIR OR 0x1FF, st_nlink := 2, st_atime := sint (di_atime info),
     st_mtime := sint (di_mtime info), st_ctime := sint (di_ctime info)\<rparr>"

definition fuse_getattr :: "flocals \<Rightarrow> 's env \<Rightarrow> u64 \<Rightarrow> ('s, int \<times> stat) op" where
  "fuse_getattr fl E inum =
     andthen (isfile (fl_yfs fl) E inum) (\<lambda>_.
     andthen (isfile (fl_yfs fl) E inum) (\<lambda>f.
     if f then
       andthen (getfile (fl_yfs fl) E inum (fl_file fl)) (\<lambda>(r, info).
       if r \<noteq> OK then ret (r, stat_zero\<lparr>st_ino := inum\<rparr>)
       else ret (OK, file_stat inum (S_IFREG OR 0x1B6) info))
     else
       andthen (isdir (fl_yfs fl) E inum) (\<lambda>d.
       if d then
         andthen (getdir (fl_yfs fl) E inum (fl_dir fl)) (\<lambda>(r, info).
         if r \<noteq> OK then ret (r, stat_zero\<lparr>st_ino := inum\<rparr>)
         else ret (OK, dir_stat inum info))
       else
         andthen (getfile (fl_yfs fl) E inum (fl_file fl)) (\<lambda>(r, info).
         if r \<noteq> OK then ret (r, stat_zero\<lparr>st_ino := inum\<rparr>)
         else ret (OK, file_stat inum (S_IFLNK OR 0x1FF) info)))))"

definition fuseserver_getattr :: "flocals \<Rightarrow> 's env \<Rightarrow> u64 \<Rightarrow> ('s, reply) op" where
  "fuseserver_getattr fl E ino =
     andthen (fuse_getattr fl E ino) (\<lambda>(r, st).
     if r \<noteq> OK then ret (Reply_Err ENOENT) else ret (Reply_Attr st))"

text \<open>The flags that make \<^verbatim>\<open>setattr\<close> resize; \<^verbatim>\<open>st_size\<close> is converted to \<^verbatim>\<open>size_t\<close>.\<close>

definition set_mask :: "fuse_lib \<Rightarrow> u32" where
  "set_mask L = SET_ATTR_SIZE L OR SET_ATTR_ATIME L OR SET_ATTR_MTIME L"

definition fuseserver_setattr :: "fuse_lib \<Rightarrow> flocals \<Rightarrow> 's env \<Rightarrow> u64 \<Rightarrow> stat \<Rightarrow> u32 \<Rightarrow> ('s, reply) op" where
  "fuseserver_setattr L fl E ino attr to_set =
     (if set_mask L AND to_set \<noteq> 0 then
        andthen (setattr E ino (unat (word_of_int (st_size attr) :: u64))) (\<lambda>_.
        andthen (fuse_getattr fl E ino) (\<lambda>(_, st).
        ret (Reply_Attr st)))
      else ret (Reply_Err ENOSYS))"

definition fuseserver_read :: "'s env \<Rightarrow> u64 \<Rightarrow> nat \<Rightarrow> int \<Rightarrow> ('s, reply) op" where
  "fuseserver_read E ino sz off =
     andthen (read E ino sz off []) (\<lambda>(r, buf).
     if r = OK then ret (Reply_Buf (bytes_of_string buf)) else ret (Reply_Err ENOENT))"

text \<open>The buffer and its size come together; \<^verbatim>\<open>size\<close> is also passed as \<^verbatim>\<open>bytes_written\<close>.\<close>

definition fuseserver_write :: "'s env \<Rightarrow> u64 \<Rightarrow> string \<Rightarrow> int \<Rightarrow> ('s, reply) op" where
  "fuseserver_write E ino buf off =
     andthen (yfs_write E ino (length buf) off buf (length buf)) (\<lambda>(r, written).
     if r = OK then ret (Reply_Write written) else ret (Reply_Err ENOENT))"

definition mk_entry :: "u64 \<Rightarrow> stat \<Rightarrow> entry_param" where
  "mk_entry ino st = \<lparr>e_ino = ino, e_generation = 0, e_attr = st, e_attr_timeout = 0, e_entry_timeout = 0\<rparr>"

definition fuseserver_createhelper :: "flocals \<Rightarrow> 's env \<Rightarrow> u64 \<Rightarrow> string \<Rightarrow> entry_param \<Rightarrow> u32 \<Rightarrow> ('s, int \<times> entry_param) op" where
  "fuseserver_createhelper fl E parent name e type =
     (let e = e\<lparr>e_attr_timeout := 0, e_entry_timeout := 0, e_generation := 0\<rparr>
      in andthen (if type = T_FILE then create (fl_yfs fl) E parent name (fl_inum fl)
                  else mkdir (fl_yfs fl) E parent name (fl_inum fl)) (\<lambda>(r, inum).
         if r \<noteq> OK then ret (r, e)
         else andthen (fuse_getattr fl E inum) (\<lambda>(r, st).
         ret (r, e\<lparr>e_ino := inum, e_attr := st\<rparr>))))"

text \<open>The end of the three handlers that call it.\<close>

definition reply_made :: "(entry_param \<Rightarrow> reply) \<Rightarrow> int \<times> entry_param \<Rightarrow> reply" where
  "reply_made f x = (if fst x = OK then f (snd x) else if fst x = EXIST then Reply_Err EEXIST else Reply_Err ENOENT)"

definition fuseserver_create :: "flocals \<Rightarrow> 's env \<Rightarrow> entry_param \<Rightarrow> u64 \<Rightarrow> string \<Rightarrow> ('s, reply) op" where
  "fuseserver_create fl E e parent name =
     andthen (fuseserver_createhelper fl E parent name e T_FILE) (\<lambda>x. ret (reply_made Reply_Create x))"

definition fuseserver_mknod :: "flocals \<Rightarrow> 's env \<Rightarrow> entry_param \<Rightarrow> u64 \<Rightarrow> string \<Rightarrow> ('s, reply) op" where
  "fuseserver_mknod fl E e parent name =
     andthen (fuseserver_createhelper fl E parent name e T_FILE) (\<lambda>x. ret (reply_made Reply_Entry x))"

definition fuseserver_mkdir :: "flocals \<Rightarrow> 's env \<Rightarrow> entry_param \<Rightarrow> u64 \<Rightarrow> string \<Rightarrow> ('s, reply) op" where
  "fuseserver_mkdir fl E e parent name =
     andthen (fuseserver_createhelper fl E parent name e T_DIR) (\<lambda>x. ret (reply_made Reply_Entry x))"

definition fuseserver_lookup :: "flocals \<Rightarrow> 's env \<Rightarrow> u64 \<Rightarrow> string \<Rightarrow> ('s, reply) op" where
  "fuseserver_lookup fl E parent name =
     andthen (lookup (fl_yfs fl) E parent name (fl_inum fl)) (\<lambda>(_, found, ino).
     if found then
       andthen (fuse_getattr fl E ino) (\<lambda>(_, st).
       ret (Reply_Entry (mk_entry ino st)))
     else ret (Reply_Err ENOENT))"

text \<open>
  \<^verbatim>\<open>dirbuf_add\<close>: the buffer is enlarged by the size of a record and the record stored at its old end; a
  \<^verbatim>\<open>const char *\<close> ends at the first zero byte.
\<close>

definition c_str :: "string \<Rightarrow> string" where
  "c_str s = takeWhile (\<lambda>c. c \<noteq> CHR 0x00) s"

definition dirbuf_add :: "fuse_lib \<Rightarrow> (nat \<Rightarrow> byte) \<Rightarrow> byte list \<Rightarrow> string \<Rightarrow> u64 \<Rightarrow> byte list" where
  "dirbuf_add L junk b name ino =
     (let oldsize = length b; sz = oldsize + fuse_dirent_size L (length (c_str name))
      in overlay (b @ uninit junk (sz - oldsize)) oldsize (fuse_add_dirent L (c_str name) (stat_zero\<lparr>st_ino := ino\<rparr>) sz))"

definition reply_buf_limited :: "byte list \<Rightarrow> int \<Rightarrow> nat \<Rightarrow> reply" where
  "reply_buf_limited buf off maxsize =
     (let o' = unat (word_of_int off :: u64)
      in if o' < length buf then Reply_Buf (take (min (length buf - o') maxsize) (drop o' buf)) else Reply_Buf [])"

definition fuseserver_readdir :: "fuse_lib \<Rightarrow> flocals \<Rightarrow> 's env \<Rightarrow> u64 \<Rightarrow> nat \<Rightarrow> int \<Rightarrow> ('s, reply) op" where
  "fuseserver_readdir L fl E ino sz off =
     andthen (isdir (fl_yfs fl) E ino) (\<lambda>d.
     if \<not> d then ret (Reply_Err ENOTDIR)
     else andthen (readdir (fl_yfs fl) E ino []) (\<lambda>(_, entries).
     ret (reply_buf_limited (foldl (\<lambda>b e. dirbuf_add L (fl_heap fl) b (de_name e) (de_inum e)) [] entries) off sz)))"

definition fuseserver_open :: "('s, reply) op" where
  "fuseserver_open = ret Reply_Open"

definition fuseserver_unlink :: "flocals \<Rightarrow> 's env \<Rightarrow> u64 \<Rightarrow> string \<Rightarrow> ('s, reply) op" where
  "fuseserver_unlink fl E parent name =
     andthen (unlink (fl_yfs fl) E parent name) (\<lambda>r.
     if r = OK then ret (Reply_Err E_SUCCESS)
     else if r = NOENT then ret (Reply_Err ENOENT)
     else ret (Reply_Err ENOTEMPTY))"

definition fuseserver_statfs :: "('s, reply) op" where
  "fuseserver_statfs = ret (Reply_Statfs 255 512)"

definition fuseserver_symlink :: "flocals \<Rightarrow> 's env \<Rightarrow> string \<Rightarrow> u64 \<Rightarrow> string \<Rightarrow> ('s, reply) op" where
  "fuseserver_symlink fl E link parent name =
     andthen (symlink (fl_yfs fl) E parent name link (fl_inum fl)) (\<lambda>(r, ino_out).
     if r \<noteq> OK then ret (Reply_Err (if r = EXIST then EEXIST else ENOENT))
     else andthen (fuse_getattr fl E ino_out) (\<lambda>(_, st).
     ret (Reply_Entry (mk_entry ino_out st))))"

definition fuseserver_readlink :: "'s env \<Rightarrow> u64 \<Rightarrow> ('s, reply) op" where
  "fuseserver_readlink E ino =
     andthen (readlink E ino []) (\<lambda>(r, link).
     if r \<noteq> OK then ret (Reply_Err ENOENT) else ret (Reply_Readlink (c_str link)))"

section \<open>The session\<close>

text \<open>
  The requests of the kernel; \<open>F_Other\<close> stands for those without a handler in \<^verbatim>\<open>fuseserver_oper\<close> (\<^verbatim>\<open>rmdir\<close>,
  \<^verbatim>\<open>rename\<close>, ...), which the library answers with \<^verbatim>\<open>ENOSYS\<close>.
\<close>

datatype fuse_request =
    F_Getattr u64
  | F_Statfs
  | F_Readdir u64 nat int
  | F_Lookup u64 string
  | F_Create u64 string
  | F_Mknod u64 string
  | F_Open u64
  | F_Read u64 nat int
  | F_Write u64 string int
  | F_Setattr u64 stat u32
  | F_Unlink u64 string
  | F_Mkdir u64 string
  | F_Symlink string u64 string
  | F_Readlink u64
  | F_Other

fun fuseserver_oper :: "fuse_lib \<Rightarrow> flocals \<Rightarrow> entry_param \<Rightarrow> 's env \<Rightarrow> fuse_request \<Rightarrow> ('s, reply) op" where
  "fuseserver_oper L fl e E (F_Getattr ino) = fuseserver_getattr fl E ino"
| "fuseserver_oper L fl e E F_Statfs = fuseserver_statfs"
| "fuseserver_oper L fl e E (F_Readdir ino sz off) = fuseserver_readdir L fl E ino sz off"
| "fuseserver_oper L fl e E (F_Lookup parent name) = fuseserver_lookup fl E parent name"
| "fuseserver_oper L fl e E (F_Create parent name) = fuseserver_create fl E e parent name"
| "fuseserver_oper L fl e E (F_Mknod parent name) = fuseserver_mknod fl E e parent name"
| "fuseserver_oper L fl e E (F_Open ino) = fuseserver_open"
| "fuseserver_oper L fl e E (F_Read ino sz off) = fuseserver_read E ino sz off"
| "fuseserver_oper L fl e E (F_Write ino buf off) = fuseserver_write E ino buf off"
| "fuseserver_oper L fl e E (F_Setattr ino attr to_set) = fuseserver_setattr L fl E ino attr to_set"
| "fuseserver_oper L fl e E (F_Unlink parent name) = fuseserver_unlink fl E parent name"
| "fuseserver_oper L fl e E (F_Mkdir parent name) = fuseserver_mkdir fl E e parent name"
| "fuseserver_oper L fl e E (F_Symlink link parent name) = fuseserver_symlink fl E link parent name"
| "fuseserver_oper L fl e E (F_Readlink ino) = fuseserver_readlink E ino"
| "fuseserver_oper L fl e E F_Other = ret (Reply_Err ENOSYS)"

text \<open>\<^verbatim>\<open>fuse_session_loop\<close> takes one request after the other.\<close>

fun fuse_session :: "fuse_lib \<Rightarrow> flocals \<Rightarrow> entry_param \<Rightarrow> 's env \<Rightarrow> fuse_request list \<Rightarrow> ('s, reply list) op" where
  "fuse_session L fl e E [] = ret []"
| "fuse_session L fl e E (q # qs) = andthen (fuseserver_oper L fl e E q) (\<lambda>r. andthen (fuse_session L fl e E qs) (\<lambda>rs. ret (r # rs)))"

section \<open>The abstract file system\<close>

text \<open>What the store says about a number that may be dead: type 0 and no contents.\<close>

definition kind :: "(u64 \<Rightarrow> (u32 \<times> string) option) \<Rightarrow> u64 \<Rightarrow> u32" where
  "kind T i = (case T i of Some (t, d) \<Rightarrow> t | None \<Rightarrow> 0)"

definition content_of :: "(u64 \<Rightarrow> (u32 \<times> string) option) \<Rightarrow> u64 \<Rightarrow> string" where
  "content_of T i = (case T i of Some (t, d) \<Rightarrow> d | None \<Rightarrow> [])"

text \<open>Attributes of an inode; times are left open.\<close>

definition attr_of :: "u32 \<Rightarrow> string \<Rightarrow> u64 \<Rightarrow> stat \<Rightarrow> bool" where
  "attr_of t d i st \<longleftrightarrow> st_ino st = i \<and>
     (if t = T_FILE then st_mode st = (S_IFREG OR 0x1B6) \<and> st_nlink st = 1 \<and> st_size st = int (length d)
      else if t = T_DIR then st_mode st = (S_IFDIR OR 0x1FF) \<and> st_nlink st = 2 \<and> st_size st = 0
      else st_mode st = (S_IFLNK OR 0x1FF) \<and> st_nlink st = 1 \<and> st_size st = int (length d))"

text \<open>The records of a directory, each with the offset of the one after it.\<close>

fun dir_records :: "fuse_lib \<Rightarrow> nat \<Rightarrow> dirent list \<Rightarrow> byte list" where
  "dir_records L n [] = []"
| "dir_records L n (e # es) =
     (let m = n + fuse_dirent_size L (length (c_str (de_name e)))
      in fuse_add_dirent L (c_str (de_name e)) (stat_zero\<lparr>st_ino := de_inum e\<rparr>) m @ dir_records L m es)"

text \<open>A record has the size the library announces.\<close>

definition lib_ok :: "fuse_lib \<Rightarrow> bool" where
  "lib_ok L \<longleftrightarrow> (\<forall>name st off. length (fuse_add_dirent L name st off) = fuse_dirent_size L (length name))"

text \<open>A name is made in a directory, or reported as existing.\<close>

definition fs_made :: "(u64 \<Rightarrow> (u32 \<times> string) option) \<Rightarrow> u64 \<Rightarrow> string \<Rightarrow> u32 \<Rightarrow> string \<Rightarrow> (entry_param \<Rightarrow> reply) \<Rightarrow> reply \<Rightarrow>
    (u64 \<Rightarrow> (u32 \<times> string) option) \<Rightarrow> bool" where
  "fs_made T p name type d f r T' \<longleftrightarrow>
     (\<exists>es. entries T p es \<and>
       (case find (\<lambda>e. de_name e = name) es of
          Some e \<Rightarrow> r = Reply_Err EEXIST \<and> T' = T
        | None \<Rightarrow> \<exists>i st. T i = None \<and> attr_of type d i st \<and> r = f (mk_entry i st) \<and>
            T' = T(i \<mapsto> (type, d), p \<mapsto> (T_DIR, dir_text (es @ [\<lparr>de_name = name, de_inum = i\<rparr>])))))"

fun fs_spec :: "fuse_lib \<Rightarrow> fuse_request \<Rightarrow> (u64 \<Rightarrow> (u32 \<times> string) option) \<Rightarrow> reply \<Rightarrow> (u64 \<Rightarrow> (u32 \<times> string) option) \<Rightarrow> bool" where
  "fs_spec L (F_Getattr i) T r T' = ((\<exists>st. attr_of (kind T i) (content_of T i) i st \<and> r = Reply_Attr st) \<and> T' = T)"
| "fs_spec L F_Statfs T r T' = (r = Reply_Statfs 255 512 \<and> T' = T)"
| "fs_spec L (F_Readdir i sz off) T r T' = (T' = T \<and>
     (if kind T i = T_DIR then \<exists>es. entries T i es \<and> r = Reply_Buf (take sz (drop (nat off) (dir_records L 0 es)))
      else r = Reply_Err ENOTDIR))"
| "fs_spec L (F_Lookup p name) T r T' = (T' = T \<and> (\<exists>es. entries T p es \<and>
     (case find (\<lambda>e. de_name e = name) es of
        Some e \<Rightarrow> \<exists>st. attr_of (kind T (de_inum e)) (content_of T (de_inum e)) (de_inum e) st \<and> r = Reply_Entry (mk_entry (de_inum e) st)
      | None \<Rightarrow> r = Reply_Err ENOENT)))"
| "fs_spec L (F_Create p name) T r T' = fs_made T p name T_FILE [] Reply_Create r T'"
| "fs_spec L (F_Mknod p name) T r T' = fs_made T p name T_FILE [] Reply_Entry r T'"
| "fs_spec L (F_Open i) T r T' = (r = Reply_Open \<and> T' = T)"
| "fs_spec L (F_Read i sz off) T r T' = (r = Reply_Buf (bytes_of_string (take sz (drop (nat off) (content_of T i)))) \<and> T' = T)"
| "fs_spec L (F_Write i buf off) T r T' = (r = Reply_Write (length buf) \<and>
     T' = T(i \<mapsto> (kind T i, write_spec (content_of T i) (nat off) buf)))"
| "fs_spec L (F_Setattr i attr to_set) T r T' =
     (if set_mask L AND to_set \<noteq> 0 then
        (\<exists>st. attr_of (kind T i) (resize (content_of T i) (nat (st_size attr))) i st \<and> r = Reply_Attr st) \<and>
        T' = T(i \<mapsto> (kind T i, resize (content_of T i) (nat (st_size attr))))
      else r = Reply_Err ENOSYS \<and> T' = T)"
| "fs_spec L (F_Unlink p name) T r T' = (\<exists>es. entries T p es \<and>
     (case find (\<lambda>e. de_name e = name) es of
        Some e \<Rightarrow> r = Reply_Err E_SUCCESS \<and> T' = T(de_inum e := None, p \<mapsto> (T_DIR, dir_text (filter (\<lambda>e. de_name e \<noteq> name) es)))
      | None \<Rightarrow> r = Reply_Err ENOENT \<and> T' = T))"
| "fs_spec L (F_Mkdir p name) T r T' = fs_made T p name T_DIR [] Reply_Entry r T'"
| "fs_spec L (F_Symlink link p name) T r T' = fs_made T p name T_SYMLINK link Reply_Entry r T'"
| "fs_spec L (F_Readlink i) T r T' = (r = Reply_Readlink (c_str (content_of T i)) \<and> T' = T)"
| "fs_spec L F_Other T r T' = (r = Reply_Err ENOSYS \<and> T' = T)"

text \<open>
  What the kernel promises about a request (it only names live inodes, entries are made in directories,
  names are plain, data is not written into directories) and what the disk has room for.
\<close>

definition data_ok :: "(u64 \<Rightarrow> (u32 \<times> string) option) \<Rightarrow> nat \<Rightarrow> u64 \<Rightarrow> (string \<Rightarrow> nat) \<Rightarrow> bool" where
  "data_ok T n i f \<longleftrightarrow> (\<exists>t d. T i = Some (t, d) \<and> t \<noteq> T_DIR \<and> f d \<le> MAXFILE \<and> blocks_needed (f d) \<le> n + blocks_needed (length d))"

fun req_ok :: "fuse_lib \<Rightarrow> (u64 \<Rightarrow> (u32 \<times> string) option) \<Rightarrow> nat \<Rightarrow> fuse_request \<Rightarrow> bool" where
  "req_ok L T n (F_Getattr i) = id_ok i"
| "req_ok L T n F_Statfs = True"
| "req_ok L T n (F_Readdir i sz off) = (T i \<noteq> None \<and> 0 \<le> off \<and> off < 2 ^ 63)"
| "req_ok L T n (F_Lookup p name) = (\<exists>es. entries T p es)"
| "req_ok L T n (F_Create p name) = (plain name \<and> (\<exists>es. entries T p es \<and> room_for T n es name))"
| "req_ok L T n (F_Mknod p name) = (plain name \<and> (\<exists>es. entries T p es \<and> room_for T n es name))"
| "req_ok L T n (F_Open i) = True"
| "req_ok L T n (F_Read i sz off) = (T i \<noteq> None \<and> 0 \<le> off)"
| "req_ok L T n (F_Write i buf off) = (0 \<le> off \<and> data_ok T n i (\<lambda>d. max (length d) (nat off + length buf)))"
| "req_ok L T n (F_Setattr i attr to_set) =
     (set_mask L AND to_set \<noteq> 0 \<longrightarrow> 0 \<le> st_size attr \<and> data_ok T n i (\<lambda>d. nat (st_size attr)))"
| "req_ok L T n (F_Unlink p name) = (\<exists>es. entries T p es \<and>
     (\<forall>xs i ys. es = xs @ \<lparr>de_name = name, de_inum = i\<rparr> # ys \<longrightarrow>
        (numeric name \<longrightarrow> (\<forall>e \<in> set xs. de_name e \<noteq> filename i)) \<and> (name \<noteq> filename i \<or> xs = [])))"
| "req_ok L T n (F_Mkdir p name) = (plain name \<and> (\<exists>es. entries T p es \<and> room_for T n es name))"
| "req_ok L T n (F_Symlink link p name) = (plain name \<and> (\<exists>es. entries T p es \<and> room_for_link T n es name link))"
| "req_ok L T n (F_Readlink i) = (T i \<noteq> None)"
| "req_ok L T n F_Other = True"

section \<open>Buffers of directory records\<close>

lemma foldl_dirbuf:
  assumes "lib_ok L"
  shows "foldl (\<lambda>b e. dirbuf_add L junk b (de_name e) (de_inum e)) b es = b @ dir_records L (length b) es"
proof (induction es arbitrary: b)
  case (Cons e es)
  have "dirbuf_add L junk b (de_name e) (de_inum e) =
      b @ fuse_add_dirent L (c_str (de_name e)) (stat_zero\<lparr>st_ino := de_inum e\<rparr>) (length b + fuse_dirent_size L (length (c_str (de_name e))))"
    using assms by (simp add: dirbuf_add_def Let_def overlay_def lib_ok_def)
  then show ?case using assms by (simp add: Cons.IH Let_def lib_ok_def)
qed simp

lemma reply_buf_limited_eq:
  assumes "0 \<le> off" "off < 2 ^ 63"
  shows "reply_buf_limited buf off sz = Reply_Buf (take sz (drop (nat off) buf))"
proof -
  have "unat (word_of_int off :: u64) = nat off" using assms by (simp add: unat_eq_nat_uint uint_word_of_int)
  then show ?thesis by (auto simp: reply_buf_limited_def Let_def min_def)
qed

section \<open>The handlers refine the abstract file system\<close>

lemma sint_size: "n \<le> MAXFILE \<Longrightarrow> sint (ucast (of_nat n :: u32) :: u64) = int n"
  by (simp add: MAXFILE_def unsigned_of_nat signed_of_nat signed_take_bit_int_eq_self take_bit_nat_eq_self)

lemma createhelper_entry:
  "e\<lparr>e_attr_timeout := 0, e_entry_timeout := 0, e_generation := 0, e_ino := i, e_attr := st\<rparr> = mk_entry i st"
  by (cases e) (simp add: mk_entry_def)

lemma find_split:
  assumes "names_ok es" "find (\<lambda>e. de_name e = name) es = Some e"
  shows "\<exists>xs ys. es = xs @ \<lparr>de_name = name, de_inum = de_inum e\<rparr> # ys \<and> filter (\<lambda>e. de_name e \<noteq> name) es = xs @ ys"
proof -
  obtain k where k: "k < length es" "es ! k = e" "de_name e = name" using assms(2) by (auto simp: find_Some_iff)
  have es: "es = take k es @ e # drop (Suc k) es" using k id_take_nth_drop [OF k(1)] by simp
  have "\<forall>f \<in> set (take k es @ drop (Suc k) es). de_name f \<noteq> name"
    using assms(1) k(3) by (subst (asm) es) (auto simp: names_ok_def image_iff)
  then have "filter (\<lambda>e. de_name e \<noteq> name) es = take k es @ drop (Suc k) es"
    using k(3) by (subst es) (auto simp: filter_id_conv)
  moreover have "e = \<lparr>de_name = name, de_inum = de_inum e\<rparr>" using k(3) by (cases e) simp
  ultimately show ?thesis using es by metis
qed

context yfs
begin

lemma attr_public:
  assumes "tree_world good tab s" "id_ok i"
  shows "\<exists>s'. isfile l E i s = Inr (kind (tab s) i = T_FILE, s') \<and> tree_world good tab s' \<and> tab s' = tab s \<and> room s' = room s"
    "\<exists>s'. isdir l E i s = Inr (kind (tab s) i = T_DIR, s') \<and> tree_world good tab s' \<and> tab s' = tab s \<and> room s' = room s"
    "\<exists>a s'. getfile l E i f0 s = Inr ((OK, a), s') \<and> fi_size a = ucast (of_nat (length (content_of (tab s) i)) :: u32)
       \<and> tree_world good tab s' \<and> tab s' = tab s \<and> room s' = room s"
    "\<exists>a s'. getdir l E i d0 s = Inr ((OK, a), s') \<and> tree_world good tab s' \<and> tab s' = tab s \<and> room s' = room s"
proof -
  have g: "good (lc_acquire E i s)" using assms(1) by (simp add: lock_law tree_world_def)
  obtain a s1 where a: "ec_getattr (ec E) i (l_attr l) (lc_acquire E i s) = Inr ((OK, a), s1)" "a_type a = kind (tab s) i"
    "a_size a = of_nat (length (content_of (tab s) i))" "good s1" "tab s1 = tab s" "room s1 = room s"
    using getattr_law [OF g assms(2), of "l_attr l"] by (auto simp: lock_law kind_def content_of_def split: option.splits)
  have w: "tree_world good tab (lc_release E i s1)" using assms(1) a(4,5) by (simp add: tree_world_def lock_law)
  show "\<exists>s'. isfile l E i s = Inr (kind (tab s) i = T_FILE, s') \<and> tree_world good tab s' \<and> tab s' = tab s \<and> room s' = room s"
    "\<exists>s'. isdir l E i s = Inr (kind (tab s) i = T_DIR, s') \<and> tree_world good tab s' \<and> tab s' = tab s \<and> room s' = room s"
    "\<exists>a s'. getfile l E i f0 s = Inr ((OK, a), s') \<and> fi_size a = ucast (of_nat (length (content_of (tab s) i)) :: u32)
       \<and> tree_world good tab s' \<and> tab s' = tab s \<and> room s' = room s"
    "\<exists>a s'. getdir l E i d0 s = Inr ((OK, a), s') \<and> tree_world good tab s' \<and> tab s' = tab s \<and> room s' = room s"
    using a w by (simp_all add: isfile_def isfile'_def isdir_def isdir'_def getfile_def getfile'_def getdir_def getdir'_def
      locked_def andthen_def ret_def lock_law)
qed

lemma content_small: "tree_world good tab s \<Longrightarrow> length (content_of (tab s) i) \<le> MAXFILE"
  using size_law [of s i] by (auto simp: tree_world_def content_of_def split: option.splits)

lemma fuse_getattr_public:
  assumes "tree_world good tab s" "id_ok i"
  shows "\<exists>st s'. fuse_getattr fl E i s = Inr ((OK, st), s') \<and> attr_of (kind (tab s) i) (content_of (tab s) i) i st
    \<and> tree_world good tab s' \<and> tab s' = tab s \<and> room s' = room s"
proof -
  obtain s1 where s1: "isfile (fl_yfs fl) E i s = Inr (kind (tab s) i = T_FILE, s1)" "tree_world good tab s1" "tab s1 = tab s" "room s1 = room s"
    using attr_public(1) [OF assms] by blast
  obtain s2 where s2: "isfile (fl_yfs fl) E i s1 = Inr (kind (tab s) i = T_FILE, s2)" "tree_world good tab s2" "tab s2 = tab s" "room s2 = room s"
    using attr_public(1) [OF s1(2) assms(2), of "fl_yfs fl"] s1 by auto
  obtain s3 where s3: "isdir (fl_yfs fl) E i s2 = Inr (kind (tab s) i = T_DIR, s3)" "tree_world good tab s3" "tab s3 = tab s" "room s3 = room s"
    using attr_public(2) [OF s2(2) assms(2), of "fl_yfs fl"] s2 by auto
  obtain a s4 where s4: "getfile (fl_yfs fl) E i (fl_file fl) s2 = Inr ((OK, a), s4)" "sint (fi_size a) = int (length (content_of (tab s) i))"
    "tree_world good tab s4" "tab s4 = tab s" "room s4 = room s"
    using attr_public(3) [OF s2(2) assms(2), of "fl_yfs fl" "fl_file fl"] s2 sint_size [OF content_small [OF assms(1), of i]] by auto
  obtain b s5 where s5: "getfile (fl_yfs fl) E i (fl_file fl) s3 = Inr ((OK, b), s5)" "sint (fi_size b) = int (length (content_of (tab s) i))"
    "tree_world good tab s5" "tab s5 = tab s" "room s5 = room s"
    using attr_public(3) [OF s3(2) assms(2), of "fl_yfs fl" "fl_file fl"] s3 sint_size [OF content_small [OF assms(1), of i]] by auto
  obtain c s6 where s6: "getdir (fl_yfs fl) E i (fl_dir fl) s3 = Inr ((OK, c), s6)" "tree_world good tab s6" "tab s6 = tab s" "room s6 = room s"
    using attr_public(4) [OF s3(2) assms(2), of "fl_yfs fl" "fl_dir fl"] s3 by auto
  consider "kind (tab s) i = T_FILE" | "kind (tab s) i \<noteq> T_FILE" "kind (tab s) i = T_DIR" | "kind (tab s) i \<noteq> T_FILE" "kind (tab s) i \<noteq> T_DIR" by blast
  then show ?thesis
  proof cases
    case 1
    then show ?thesis using s1(1) s2(1) s4 by (simp add: fuse_getattr_def andthen_def ret_def file_stat_def attr_of_def stat_zero_def)
  next
    case 2
    then show ?thesis using s1(1) s2(1) s3(1) s6 by (simp add: fuse_getattr_def andthen_def ret_def dir_stat_def attr_of_def stat_zero_def)
  next
    case 3
    then show ?thesis using s1(1) s2(1) s3(1) s5 by (simp add: fuse_getattr_def andthen_def ret_def file_stat_def attr_of_def stat_zero_def)
  qed
qed

lemma live_id: "tab s i = Some x \<Longrightarrow> id_ok i"
  using tab_ok [of s i] by simp

end

context yfs
begin

text \<open>The end of every handler that makes something.\<close>

lemma made_attr:
  assumes "tree_world good tab s" "entries T p es" "T i = None" "tab s = T(i \<mapsto> (type, d), p \<mapsto> (T_DIR, x))"
  shows "\<exists>st s'. fuse_getattr fl E i s = Inr ((OK, st), s') \<and> attr_of type d i st \<and> tree_world good tab s' \<and> tab s' = tab s"
proof -
  have "i \<noteq> p" using assms(2,3) by (auto simp: entries_def)
  then have i: "tab s i = Some (type, d)" using assms(4) by simp
  then have "kind (tab s) i = type" "content_of (tab s) i = d" by (simp_all add: kind_def content_of_def)
  with fuse_getattr_public [OF assms(1) live_id [OF i], of fl] show ?thesis by auto
qed

lemma createhelper_public:
  assumes "tree_world good tab s" "entries (tab s) p es" "plain name" "room_for (tab s) (room s) es name" "type \<in> {T_FILE, T_DIR}"
  shows "\<exists>r e' s'. fuseserver_createhelper fl E p name e type s = Inr ((r, e'), s') \<and> tree_world good tab s'
    \<and> fs_made (tab s) p name type [] f (reply_made f (r, e')) (tab s')"
proof -
  let ?op = "if type = T_FILE then create (fl_yfs fl) E p name (fl_inum fl) else mkdir (fl_yfs fl) E p name (fl_inum fl)"
  show ?thesis
  proof (cases "find (\<lambda>e. de_name e = name) es")
    case None
    have "\<exists>i s'. ?op s = Inr ((OK, i), s') \<and> tree_world good tab s' \<and> tab s i = None
        \<and> tab s' = (tab s)(i \<mapsto> (type, []), p \<mapsto> (T_DIR, dir_text (es @ [\<lparr>de_name = name, de_inum = i\<rparr>])))"
      using make_public [OF assms(1-4) None, of "fl_yfs fl" "fl_inum fl"] assms(5) by auto
    then obtain i s1 where s1: "?op s = Inr ((OK, i), s1)" "tree_world good tab s1" "tab s i = None"
      "tab s1 = (tab s)(i \<mapsto> (type, []), p \<mapsto> (T_DIR, dir_text (es @ [\<lparr>de_name = name, de_inum = i\<rparr>])))" by (elim exE conjE) (rule that)
    obtain st s2 where s2: "fuse_getattr fl E i s1 = Inr ((OK, st), s2)" "attr_of type [] i st" "tree_world good tab s2" "tab s2 = tab s1"
      using made_attr [OF s1(2) assms(2) s1(3,4)] by blast
    have h: "fuseserver_createhelper fl E p name e type s = Inr ((OK, mk_entry i st), s2)"
      using s1(1) s2(1) createhelper_entry [where e = e and i = i and st = st] by (simp add: fuseserver_createhelper_def Let_def andthen_def ret_def split del: if_split)
    have "fs_made (tab s) p name type [] f (reply_made f (OK, mk_entry i st)) (tab s2)"
      unfolding fs_made_def s2(4) s1(4) using assms(2) None s1(3) s2(2) by (intro exI [of _ es]) (auto simp: reply_made_def)
    with h s2(3) show ?thesis by blast
  next
    case (Some x)
    have "\<exists>s'. ?op s = Inr ((EXIST, de_inum x), s') \<and> tree_world good tab s' \<and> tab s' = tab s"
      using make_exists_public(1,2) [OF assms(1,2) Some, of "fl_yfs fl" "fl_inum fl"] by auto
    then obtain s1 where s1: "?op s = Inr ((EXIST, de_inum x), s1)" "tree_world good tab s1" "tab s1 = tab s" by blast
    have "fs_made (tab s) p name type [] f (reply_made f (EXIST, e')) (tab s1)" for e'
      unfolding fs_made_def s1(3) using assms(2) Some by (intro exI [of _ es]) (auto simp: reply_made_def)
    with s1(1,2) show ?thesis by (simp add: fuseserver_createhelper_def andthen_def ret_def Let_def split del: if_split)
  qed
qed

lemma symlink_refines:
  assumes "tree_world good tab s" "entries (tab s) p es" "plain name" "room_for_link (tab s) (room s) es name link"
  shows "\<exists>r s'. fuseserver_symlink fl E link p name s = Inr (r, s') \<and> tree_world good tab s' \<and> fs_made (tab s) p name T_SYMLINK link Reply_Entry r (tab s')"
proof (cases "find (\<lambda>e. de_name e = name) es")
  case None
  obtain i s1 where s1: "symlink (fl_yfs fl) E p name link (fl_inum fl) s = Inr ((OK, i), s1)" "tree_world good tab s1" "tab s i = None"
    "tab s1 = (tab s)(i \<mapsto> (T_SYMLINK, link), p \<mapsto> (T_DIR, dir_text (es @ [\<lparr>de_name = name, de_inum = i\<rparr>])))"
    using symlink_public [OF assms(1-3) None assms(4), of "fl_yfs fl" "fl_inum fl"] by (elim exE conjE) (rule that)
  obtain st s2 where s2: "fuse_getattr fl E i s1 = Inr ((OK, st), s2)" "attr_of T_SYMLINK link i st" "tree_world good tab s2" "tab s2 = tab s1"
    using made_attr [OF s1(2) assms(2) s1(3,4)] by blast
  have "fs_made (tab s) p name T_SYMLINK link Reply_Entry (Reply_Entry (mk_entry i st)) (tab s2)"
    unfolding fs_made_def s2(4) s1(4) using assms(2) None s1(3) s2(2) by (intro exI [of _ es]) auto
  moreover have "fuseserver_symlink fl E link p name s = Inr (Reply_Entry (mk_entry i st), s2)"
    using s1(1) s2(1) by (simp add: fuseserver_symlink_def andthen_def ret_def)
  ultimately show ?thesis using s2(3) by blast
next
  case (Some x)
  obtain s1 where s1: "symlink (fl_yfs fl) E p name link (fl_inum fl) s = Inr ((EXIST, de_inum x), s1)" "tree_world good tab s1" "tab s1 = tab s"
    using make_exists_public(3) [OF assms(1,2) Some, of "fl_yfs fl" link "fl_inum fl"] by blast
  have "fs_made (tab s) p name T_SYMLINK link Reply_Entry (Reply_Err EEXIST) (tab s1)"
    unfolding fs_made_def s1(3) using assms(2) Some by (intro exI [of _ es]) auto
  with s1 show ?thesis by (auto simp: fuseserver_symlink_def andthen_def ret_def)
qed

lemma unlink_refines:
  assumes "tree_world good tab s" "req_ok L (tab s) (room s) (F_Unlink p name)"
  shows "\<exists>r s'. fuseserver_unlink fl E p name s = Inr (r, s') \<and> tree_world good tab s' \<and> fs_spec L (F_Unlink p name) (tab s) r (tab s')"
proof -
  obtain es where es: "entries (tab s) p es" "\<And>xs i ys. es = xs @ \<lparr>de_name = name, de_inum = i\<rparr> # ys \<Longrightarrow>
      (numeric name \<longrightarrow> (\<forall>e \<in> set xs. de_name e \<noteq> filename i)) \<and> (name \<noteq> filename i \<or> xs = [])" using assms(2) by auto
  show ?thesis
  proof (cases "find (\<lambda>e. de_name e = name) es")
    case None
    with unlink_missing_public [OF assms(1) es(1), of name "fl_yfs fl"] es(1) show ?thesis
      by (fastforce simp: fuseserver_unlink_def andthen_def ret_def)
  next
    case (Some x)
    obtain xs ys where x: "es = xs @ \<lparr>de_name = name, de_inum = de_inum x\<rparr> # ys" "filter (\<lambda>e. de_name e \<noteq> name) es = xs @ ys"
      using find_split [OF entriesD(2) [OF es(1)] Some] by blast
    obtain s' where s': "unlink (fl_yfs fl) E p name s = Inr (OK, s')" "tree_world good tab s'"
      "tab s' = (tab s)(de_inum x := None, p \<mapsto> (T_DIR, dir_text (xs @ ys)))"
      using unlink_public [OF assms(1), of p xs name "de_inum x" ys "fl_yfs fl"] es(1) es(2) [OF x(1)] x(1) by auto
    have "fs_spec L (F_Unlink p name) (tab s) (Reply_Err E_SUCCESS) (tab s')"
      unfolding fs_spec.simps using es(1) Some s'(3) x(2) by (intro exI [of _ es]) simp
    with s'(1,2) show ?thesis by (auto simp: fuseserver_unlink_def andthen_def ret_def)
  qed
qed

end

section \<open>Sessions\<close>

text \<open>Every request of a session is in order when its turn comes.\<close>

fun session_ok :: "fuse_lib \<Rightarrow> flocals \<Rightarrow> entry_param \<Rightarrow> 's env \<Rightarrow> ('s \<Rightarrow> u64 \<Rightarrow> (u32 \<times> string) option) \<Rightarrow> ('s \<Rightarrow> nat) \<Rightarrow> fuse_request list \<Rightarrow> 's \<Rightarrow> bool" where
  "session_ok L fl e E tab room [] s = True"
| "session_ok L fl e E tab room (q # qs) s = (req_ok L (tab s) (room s) q \<and>
     (case fuseserver_oper L fl e E q s of Inl _ \<Rightarrow> True | Inr (r, s') \<Rightarrow> session_ok L fl e E tab room qs s'))"

fun fs_run :: "fuse_lib \<Rightarrow> fuse_request list \<Rightarrow> (u64 \<Rightarrow> (u32 \<times> string) option) \<Rightarrow> reply list \<Rightarrow> (u64 \<Rightarrow> (u32 \<times> string) option) \<Rightarrow> bool" where
  "fs_run L [] T rs T' = (rs = [] \<and> T' = T)"
| "fs_run L (q # qs) T rs T' = (\<exists>r rs' T1. rs = r # rs' \<and> fs_spec L q T r T1 \<and> fs_run L qs T1 rs' T')"

context yfs
begin

lemma lookup_refines:
  assumes "tree_world good tab s" "entries (tab s) p es"
  shows "\<exists>r s'. fuseserver_lookup fl E p name s = Inr (r, s') \<and> tree_world good tab s' \<and> fs_spec L (F_Lookup p name) (tab s) r (tab s')"
proof -
  note look = lookup_public [OF assms, of "fl_yfs fl" name "fl_inum fl"]
  show ?thesis
  proof (cases "find (\<lambda>e. de_name e = name) es")
    case None
    obtain s1 where "lookup (fl_yfs fl) E p name (fl_inum fl) s = Inr ((OK, False, fl_inum fl), s1)" "tree_world good tab s1" "tab s1 = tab s"
      using look None by auto
    then show ?thesis using assms(2) None by (auto simp: fuseserver_lookup_def andthen_def ret_def)
  next
    case (Some x)
    obtain s1 where s1: "lookup (fl_yfs fl) E p name (fl_inum fl) s = Inr ((EXIST, True, de_inum x), s1)" "tree_world good tab s1" "tab s1 = tab s"
      using look Some by auto
    have "x \<in> set es" using Some by (auto simp: find_Some_iff)
    then have "tab s (de_inum x) \<noteq> None" using tree_okD(3) [OF tree_worldD(2) [OF assms(1)] assms(2)] by blast
    then have "id_ok (de_inum x)" by (rule tab_ok)
    then obtain st s2 where "fuse_getattr fl E (de_inum x) s1 = Inr ((OK, st), s2)" "attr_of (kind (tab s) (de_inum x)) (content_of (tab s) (de_inum x)) (de_inum x) st"
      "tree_world good tab s2" "tab s2 = tab s"
      using fuse_getattr_public [OF s1(2), of "de_inum x" fl] s1(3) by auto
    moreover from this have "fs_spec L (F_Lookup p name) (tab s) (Reply_Entry (mk_entry (de_inum x) st)) (tab s2)"
      unfolding fs_spec.simps using assms(2) Some by (intro conjI exI [of _ es]) auto
    ultimately show ?thesis using s1(1) by (auto simp: fuseserver_lookup_def andthen_def ret_def)
  qed
qed

lemma readdir_refines:
  assumes "tree_world good tab s" "lib_ok L" "req_ok L (tab s) (room s) (F_Readdir i sz off)"
  shows "\<exists>r s'. fuseserver_readdir L fl E i sz off s = Inr (r, s') \<and> tree_world good tab s' \<and> fs_spec L (F_Readdir i sz off) (tab s) r (tab s')"
proof -
  have i: "id_ok i" and off: "0 \<le> off" "off < 2 ^ 63" using assms(3) tab_ok [of s i] by auto
  obtain s1 where s1: "isdir (fl_yfs fl) E i s = Inr (kind (tab s) i = T_DIR, s1)" "tree_world good tab s1" "tab s1 = tab s"
    using attr_public(2) [OF assms(1) i] by blast
  show ?thesis
  proof (cases "kind (tab s) i = T_DIR")
    case True
    then obtain d where "tab s i = Some (T_DIR, d)" by (auto simp: kind_def split: option.splits)
    then obtain es where es: "entries (tab s) i es" using tree_okD(2) [OF tree_worldD(2) [OF assms(1)]] by blast
    then obtain s2 where s2: "readdir (fl_yfs fl) E i [] s1 = Inr ((OK, es), s2)" "tree_world good tab s2" "tab s2 = tab s"
      using readdir_public [OF s1(2), of i es "fl_yfs fl"] s1(3) by auto
    have "fs_spec L (F_Readdir i sz off) (tab s) (Reply_Buf (take sz (drop (nat off) (dir_records L 0 es)))) (tab s2)"
      using True es s2(3) by auto
    then show ?thesis using s1(1) s2 True reply_buf_limited_eq [OF off] foldl_dirbuf [OF assms(2), of "fl_heap fl" "[]"]
      by (auto simp: fuseserver_readdir_def andthen_def ret_def)
  next
    case False
    then show ?thesis using s1 by (auto simp: fuseserver_readdir_def andthen_def ret_def)
  qed
qed

lemma data_refines:
  assumes "tree_world good tab s"
  shows "req_ok L (tab s) (room s) (F_Write i buf off) \<Longrightarrow> \<exists>r s'. fuseserver_write E i buf off s = Inr (r, s') \<and> tree_world good tab s' \<and> fs_spec L (F_Write i buf off) (tab s) r (tab s')"
    "req_ok L (tab s) (room s) (F_Setattr i attr to_set) \<Longrightarrow>
      \<exists>r s'. fuseserver_setattr L fl E i attr to_set s = Inr (r, s') \<and> tree_world good tab s' \<and> fs_spec L (F_Setattr i attr to_set) (tab s) r (tab s')"
proof -
  assume "req_ok L (tab s) (room s) (F_Write i buf off)"
  then obtain t d where d: "0 \<le> off" "tab s i = Some (t, d)" "t \<noteq> T_DIR" "max (length d) (nat off + length buf) \<le> MAXFILE"
    "blocks_needed (max (length d) (nat off + length buf)) \<le> room s + blocks_needed (length d)" by (auto simp: data_ok_def)
  from write_public [OF assms d(2-5), of "length buf"] d(1,2) show "\<exists>r s'. fuseserver_write E i buf off s = Inr (r, s') \<and> tree_world good tab s' \<and> fs_spec L (F_Write i buf off) (tab s) r (tab s')"
    by (auto simp: fuseserver_write_def andthen_def ret_def kind_def content_of_def)
next
  assume r: "req_ok L (tab s) (room s) (F_Setattr i attr to_set)"
  show "\<exists>r s'. fuseserver_setattr L fl E i attr to_set s = Inr (r, s') \<and> tree_world good tab s' \<and> fs_spec L (F_Setattr i attr to_set) (tab s) r (tab s')"
  proof (cases "set_mask L AND to_set = 0")
    case True
    then show ?thesis using assms by (simp add: fuseserver_setattr_def ret_def)
  next
    case False
    let ?n = "nat (st_size attr)"
    obtain t d where d: "0 \<le> st_size attr" "tab s i = Some (t, d)" "t \<noteq> T_DIR" "?n \<le> MAXFILE"
      "blocks_needed ?n \<le> room s + blocks_needed (length d)" using r False by (auto simp: data_ok_def)
    have n: "unat (word_of_int (st_size attr) :: u64) = ?n" using d(1,4) by (simp add: unat_eq_nat_uint uint_word_of_int MAXFILE_def)
    obtain s1 where s1: "setattr E i ?n s = Inr (OK, s1)" "tree_world good tab s1" "tab s1 = (tab s)(i \<mapsto> (t, resize d ?n))"
      using setattr_public [OF assms d(2-5)] by blast
    have i: "kind (tab s1) i = t" "content_of (tab s1) i = resize d ?n" using s1(3) by (simp_all add: kind_def content_of_def)
    obtain st s2 where "fuse_getattr fl E i s1 = Inr ((OK, st), s2)" "attr_of t (resize d ?n) i st" "tree_world good tab s2" "tab s2 = tab s1"
      using fuse_getattr_public [OF s1(2) live_id [OF d(2)], of fl] i by auto
    with s1 False n d(2) show ?thesis by (auto simp: fuseserver_setattr_def andthen_def ret_def kind_def content_of_def)
  qed
qed

lemma oper_refines:
  assumes "tree_world good tab s" "lib_ok L" "req_ok L (tab s) (room s) q"
  shows "\<exists>r s'. fuseserver_oper L fl e E q s = Inr (r, s') \<and> tree_world good tab s' \<and> fs_spec L q (tab s) r (tab s')"
proof (cases q)
  case (F_Getattr i)
  then show ?thesis using fuse_getattr_public [OF assms(1), of i fl] assms(3) by (auto simp: fuseserver_getattr_def andthen_def ret_def)
next
  case (F_Readdir i sz off)
  then show ?thesis using readdir_refines [OF assms(1,2)] assms(3) by simp
next
  case (F_Lookup p name)
  then obtain es where "entries (tab s) p es" using assms(3) by auto
  from lookup_refines [OF assms(1) this] show ?thesis unfolding F_Lookup by simp
next
  case (F_Create p name)
  then obtain es where "entries (tab s) p es" "plain name" "room_for (tab s) (room s) es name" using assms(3) by auto
  from createhelper_public [OF assms(1) this, of T_FILE fl e Reply_Create] F_Create show ?thesis
    by (auto simp: fuseserver_create_def andthen_def ret_def)
next
  case (F_Mknod p name)
  then obtain es where "entries (tab s) p es" "plain name" "room_for (tab s) (room s) es name" using assms(3) by auto
  from createhelper_public [OF assms(1) this, of T_FILE fl e Reply_Entry] F_Mknod show ?thesis
    by (auto simp: fuseserver_mknod_def andthen_def ret_def)
next
  case (F_Mkdir p name)
  then obtain es where "entries (tab s) p es" "plain name" "room_for (tab s) (room s) es name" using assms(3) by auto
  from createhelper_public [OF assms(1) this, of T_DIR fl e Reply_Entry] F_Mkdir show ?thesis
    by (auto simp: fuseserver_mkdir_def andthen_def ret_def)
next
  case (F_Read i sz off)
  then obtain t d where "tab s i = Some (t, d)" "0 \<le> off" using assms(3) by auto
  with read_public [OF assms(1) this(1), of sz "nat off" "[]"] show ?thesis
    by (auto simp: F_Read fuseserver_read_def andthen_def ret_def content_of_def)
next
  case (F_Write i buf off)
  then show ?thesis using data_refines(1) [OF assms(1)] assms(3) by simp
next
  case (F_Setattr i attr to_set)
  then show ?thesis using data_refines(2) [OF assms(1)] assms(3) by simp
next
  case (F_Unlink p name)
  then show ?thesis using unlink_refines [OF assms(1)] assms(3) by simp
next
  case (F_Symlink link p name)
  then obtain es where "entries (tab s) p es" "plain name" "room_for_link (tab s) (room s) es name link" using assms(3) by auto
  from symlink_refines [OF assms(1) this] show ?thesis unfolding F_Symlink by simp
next
  case (F_Readlink i)
  then obtain t d where "tab s i = Some (t, d)" using assms(3) by auto
  with readlink_public [OF assms(1) this, of "[]"] show ?thesis
    by (auto simp: F_Readlink fuseserver_readlink_def andthen_def ret_def content_of_def)
qed (use assms(1) in \<open>simp_all add: fuseserver_statfs_def fuseserver_open_def ret_def\<close>)

lemma session_refines:
  assumes "tree_world good tab s" "lib_ok L" "session_ok L fl e E tab room qs s"
  shows "\<exists>rs s'. fuse_session L fl e E qs s = Inr (rs, s') \<and> tree_world good tab s' \<and> fs_run L qs (tab s) rs (tab s')"
  using assms
proof (induction qs arbitrary: s)
  case (Cons q qs)
  obtain r s1 where r: "fuseserver_oper L fl e E q s = Inr (r, s1)" "tree_world good tab s1" "fs_spec L q (tab s) r (tab s1)"
    using oper_refines [OF Cons.prems(1,2), of q fl e] Cons.prems(3) by auto
  have "session_ok L fl e E tab room qs s1" using Cons.prems(3) r(1) by simp
  from Cons.IH [OF r(2) Cons.prems(2) this] obtain rs s2 where
    "fuse_session L fl e E qs s1 = Inr (rs, s2)" "tree_world good tab s2" "fs_run L qs (tab s1) rs (tab s2)" by blast
  with r show ?case by (auto simp: andthen_def ret_def)
qed (simp add: ret_def)

end

section \<open>Sessions on the extent server\<close>


text \<open>C39. A request that changes only the times of a file (no size flag among those of \<^verbatim>\<open>to_set\<close>, a zero size field, as the
  kernel sends it for \<^verbatim>\<open>utimes\<close>) empties the file: the handler takes the size field for all three flags.\<close>

theorem touch_truncates:
  assumes "y_ok s" "y_tab s i = Some (T_FILE, d)" "SET_ATTR_SIZE L AND to_set = 0" "SET_ATTR_MTIME L AND to_set \<noteq> 0" "st_size attr = 0"
  shows "\<exists>st s'. fuseserver_setattr L fl (yfs_env junk) i attr to_set s = Inr (Reply_Attr st, s') \<and> st_size st = 0 \<and>
    y_tab s' = (y_tab s)(i \<mapsto> (T_FILE, []))"
proof -
  have m: "set_mask L AND to_set \<noteq> 0"
  proof
    assume z: "set_mask L AND to_set = 0"
    have "\<not> bit (SET_ATTR_MTIME L AND to_set) n" for n
      using z [THEN arg_cong, of "\<lambda>w. bit w n"] by (auto simp: set_mask_def bit_and_iff bit_or_iff)
    then show False using assms(4) by (simp add: bit_eq_iff)
  qed
  have "req_ok L (y_tab s) (y_room s) (F_Setattr i attr to_set)"
    using assms(2,5) by (simp add: data_ok_def blocks_needed_def)
  from yf.data_refines(2) [unfolded y_ok_world, OF assms(1) this, of fl junk] m assms(2,5) show ?thesis
    by (auto simp: kind_def content_of_def resize_def attr_of_def)
qed

section \<open>Concrete sessions\<close>

definition demo_lib :: fuse_lib where
  "demo_lib = \<lparr>SET_ATTR_SIZE = 8, SET_ATTR_ATIME = 16, SET_ATTR_MTIME = 32, fuse_dirent_size = (\<lambda>n. n + 24),
     fuse_add_dirent = (\<lambda>name st off. replicate 24 0 @ bytes_of_string name)\<rparr>"

definition demo_flocals :: flocals where
  "demo_flocals = \<lparr>fl_yfs = some_locals, fl_file = \<lparr>fi_size = 9, fi_atime = 9, fi_mtime = 9, fi_ctime = 9\<rparr>,
     fl_dir = \<lparr>di_atime = 9, di_mtime = 9, di_ctime = 9\<rparr>, fl_inum = 9, fl_heap = (\<lambda>_. 7)\<rparr>"

definition demo_requests :: "fuse_request list" where
  "demo_requests = [F_Create 1 ''b'', F_Lookup 1 ''b'']"

lemma demo_lib_ok: "lib_ok demo_lib"
  by (simp add: lib_ok_def demo_lib_def)

lemma demo_create:
  assumes "fs_spec L (F_Create 1 ''b'') T r T'" "T = [1 \<mapsto> (T_DIR, [])]"
  obtains i st where "r = Reply_Create (mk_entry i st)" "entries T' 1 [\<lparr>de_name = ''b'', de_inum = i\<rparr>]" "T' i = Some (T_FILE, [])"
proof -
  obtain es where es: "entries T 1 es" "case find (\<lambda>e. de_name e = ''b'') es of Some e \<Rightarrow> r = Reply_Err EEXIST \<and> T' = T
      | None \<Rightarrow> \<exists>i st. T i = None \<and> attr_of T_FILE [] i st \<and> r = Reply_Create (mk_entry i st) \<and>
            T' = T(i \<mapsto> (T_FILE, []), 1 \<mapsto> (T_DIR, dir_text (es @ [\<lparr>de_name = ''b'', de_inum = i\<rparr>])))"
    using assms(1) by (auto simp: fs_made_def)
  have "es = []" by (rule entries_unique [OF es(1)]) (use assms(2) in \<open>simp_all add: names_ok_def\<close>)
  with es(2) obtain i st where i: "T i = None" "r = Reply_Create (mk_entry i st)"
    "T' = T(i \<mapsto> (T_FILE, []), 1 \<mapsto> (T_DIR, dir_text [\<lparr>de_name = ''b'', de_inum = i\<rparr>]))" by auto
  have "i \<noteq> 1" using i(1) assms(2) by auto
  then show ?thesis using i by (intro that [of i st]) (simp_all add: entries_def names_ok_def plain_def)
qed

lemma demo_session_ok:
  assumes "tab s = [1 \<mapsto> (T_DIR, [])]" "room s = 31734"
    "\<And>r s'. fuseserver_oper L fl e E (F_Create 1 ''b'') s = Inr (r, s') \<Longrightarrow> fs_spec L (F_Create 1 ''b'') (tab s) r (tab s')"
  shows "session_ok L fl e E tab room demo_requests s"
proof -
  have e: "entries (tab s) 1 []" using assms(1) by (simp add: entries_def names_ok_def)
  have "id_ok 2 \<and> tab s 2 = None" using assms(1) by (simp add: id_ok_def inum_ok_def)
  then have "room_for (tab s) (room s) [] ''b''" using assms(2) by (auto simp: room_for_def MAXFILE_def blocks_needed_def)
  moreover have "\<exists>es. entries (tab s') 1 es" if "fuseserver_oper L fl e E (F_Create 1 ''b'') s = Inr (r, s')" for r s'
    using demo_create [OF assms(3) [OF that] assms(1)] by blast
  ultimately show ?thesis using e by (auto simp: demo_requests_def plain_def split: sum.splits simp del: fuseserver_oper.simps)
qed

lemma demo_session_run:
  assumes "fs_run L demo_requests T rs T'" "T = [1 \<mapsto> (T_DIR, [])]"
  shows "\<exists>i st st'. rs = [Reply_Create (mk_entry i st), Reply_Entry (mk_entry i st')] \<and> T' i = Some (T_FILE, [])"
proof -
  obtain r r' T1 where r: "rs = [r, r']" "fs_spec L (F_Create 1 ''b'') T r T1" "fs_spec L (F_Lookup 1 ''b'') T1 r' T'"
    using assms(1) by (auto simp: demo_requests_def simp del: fs_spec.simps)
  from demo_create [OF r(2) assms(2)] obtain i st where i: "r = Reply_Create (mk_entry i st)"
    "entries T1 1 [\<lparr>de_name = ''b'', de_inum = i\<rparr>]" "T1 i = Some (T_FILE, [])" by blast
  from r(3) obtain es where "entries T1 1 es" "T' = T1" "case find (\<lambda>e. de_name e = ''b'') es of
        Some e \<Rightarrow> \<exists>st. attr_of (kind T1 (de_inum e)) (content_of T1 (de_inum e)) (de_inum e) st \<and> r' = Reply_Entry (mk_entry (de_inum e) st)
      | None \<Rightarrow> r' = Reply_Err ENOENT" by auto
  moreover have "es = [\<lparr>de_name = ''b'', de_inum = i\<rparr>]" by (rule entries_unique [OF \<open>entries T1 1 es\<close>]) (use entriesD [OF i(2)] in simp_all)
  ultimately show ?thesis using r(1) i by auto
qed


theorem touch_truncates_witness:
  "\<exists>s i st s'. y_tab s i = Some (T_FILE, ''ABC'') \<and>
     fuseserver_setattr demo_lib demo_flocals (yfs_env (\<lambda>_. 7)) i stat_zero 32 s = Inr (Reply_Attr st, s') \<and> y_tab s' i = Some (T_FILE, [])"
proof -
  obtain s0 i where s0: "y_ok s0" "y_tab s0 i = Some (T_FILE, [])" "y_room s0 = 31734" using y_file by blast
  have "req_ok demo_lib (y_tab s0) (y_room s0) (F_Write i ''ABC'' 0)"
    using s0(2,3) by (simp add: data_ok_def blocks_needed_def MAXFILE_def)
  from yf.data_refines(1) [unfolded y_ok_world, OF s0(1) this, of "\<lambda>_. 7"] obtain s where
    s: "y_ok s" "y_tab s i = Some (T_FILE, ''ABC'')" using s0(2) by (auto simp: kind_def content_of_def write_spec_def)
  have f: "SET_ATTR_SIZE demo_lib AND 32 = 0" "SET_ATTR_MTIME demo_lib AND 32 \<noteq> 0" "st_size stat_zero = 0"
    by (simp_all add: demo_lib_def stat_zero_def)
  from touch_truncates [OF s f, of demo_flocals "\<lambda>_. 7"] s(2) show ?thesis by (auto intro!: exI [of _ s])
qed


end
