(* ===== verification/Marshall.thy ===== *)
theory Marshall
  imports Prelude
begin

text \<open>
  Marshalling of \<^verbatim>\<open>src/rpc/marshall.h\<close> and \<^verbatim>\<open>src/rpc/rpc.cc\<close>: growing output buffers, checked
  input buffers, the encodings of the basic types, strings, vectors and maps, and the request and
  reply headers.  The locale \<open>codec\<close> is the contract of a pair of operators; every pair of the
  library is an interpretation of it.  Checksumming is compiled out, so a header is 24 bytes; buffer
  sizes are below 2 GiB, as the \<^verbatim>\<open>int\<close> fields require.
\<close>

abbreviation DEFAULT_RPC_SZ :: nat where "DEFAULT_RPC_SZ \<equiv> 1024"
abbreviation RPC_HEADER_SZ :: nat where "RPC_HEADER_SZ \<equiv> 24"

section \<open>Output\<close>

text \<open>\<open>m_buf\<close> is the allocated block, so its length is \<^verbatim>\<open>_capa\<close>; \<open>junk\<close> is fresh memory.\<close>

record marshall =
  m_buf :: "byte list"
  m_ind :: nat

definition marshall_init :: "(nat \<Rightarrow> byte) \<Rightarrow> marshall" where
  "marshall_init junk = \<lparr>m_buf = uninit junk DEFAULT_RPC_SZ, m_ind = RPC_HEADER_SZ\<rparr>"

definition m_rawbyte :: "(nat \<Rightarrow> byte) \<Rightarrow> byte \<Rightarrow> marshall \<Rightarrow> marshall res" where
  "m_rawbyte junk x m =
     (let capa = length (m_buf m);
          buf = (if capa \<le> m_ind m then m_buf m @ uninit junk capa else m_buf m)
      in if length buf \<le> m_ind m then Inl Out_Of_Bounds
         else Inr \<lparr>m_buf = buf[m_ind m := x], m_ind = Suc (m_ind m)\<rparr>)"

definition m_rawbytes :: "(nat \<Rightarrow> byte) \<Rightarrow> byte list \<Rightarrow> marshall \<Rightarrow> marshall res" where
  "m_rawbytes junk p m =
     (let capa = length (m_buf m); n = length p;
          capa1 = (if capa < m_ind m + n then if n < capa then 2 * capa else capa + n else capa);
          buf = m_buf m @ uninit junk (capa1 - capa)
      in if length buf < m_ind m + n then Inl Out_Of_Bounds
         else Inr \<lparr>m_buf = overlay buf (m_ind m) p, m_ind = m_ind m + n\<rparr>)"

definition put_bool :: "(nat \<Rightarrow> byte) \<Rightarrow> bool \<Rightarrow> marshall \<Rightarrow> marshall res" where
  "put_bool junk x = m_rawbyte junk (of_bool x)"

definition put_uchar :: "(nat \<Rightarrow> byte) \<Rightarrow> byte \<Rightarrow> marshall \<Rightarrow> marshall res" where
  "put_uchar junk x = m_rawbyte junk x"

definition put_char :: "(nat \<Rightarrow> byte) \<Rightarrow> char \<Rightarrow> marshall \<Rightarrow> marshall res" where
  "put_char junk x = put_uchar junk (byte_of_char x)"

definition put_ushort :: "(nat \<Rightarrow> byte) \<Rightarrow> u16 \<Rightarrow> marshall \<Rightarrow> marshall res" where
  "put_ushort junk x m =
     rbind (m_rawbyte junk (ucast (drop_bit 8 x AND 0xff)) m) (\<lambda>m.
     m_rawbyte junk (ucast (x AND 0xff)) m)"

definition put_short :: "(nat \<Rightarrow> byte) \<Rightarrow> int \<Rightarrow> marshall \<Rightarrow> marshall res" where
  "put_short junk x = put_ushort junk (word_of_int x)"

definition put_uint :: "(nat \<Rightarrow> byte) \<Rightarrow> u32 \<Rightarrow> marshall \<Rightarrow> marshall res" where
  "put_uint junk x m =
     rbind (m_rawbyte junk (ucast (drop_bit 24 x AND 0xff)) m) (\<lambda>m.
     rbind (m_rawbyte junk (ucast (drop_bit 16 x AND 0xff)) m) (\<lambda>m.
     rbind (m_rawbyte junk (ucast (drop_bit 8 x AND 0xff)) m) (\<lambda>m.
     m_rawbyte junk (ucast (x AND 0xff)) m)))"

definition put_int :: "(nat \<Rightarrow> byte) \<Rightarrow> int \<Rightarrow> marshall \<Rightarrow> marshall res" where
  "put_int junk x = put_uint junk (word_of_int x)"

definition put_string :: "(nat \<Rightarrow> byte) \<Rightarrow> string \<Rightarrow> marshall \<Rightarrow> marshall res" where
  "put_string junk s m =
     rbind (put_uint junk (of_nat (length s)) m) (\<lambda>m.
     m_rawbytes junk (bytes_of_string s) m)"

definition put_ull :: "(nat \<Rightarrow> byte) \<Rightarrow> u64 \<Rightarrow> marshall \<Rightarrow> marshall res" where
  "put_ull junk x m =
     rbind (put_uint junk (ucast (drop_bit 32 x)) m) (\<lambda>m.
     put_uint junk (ucast x) m)"

text \<open>\<^verbatim>\<open>pack\<close> writes the same bytes as \<^verbatim>\<open>operator<<(marshall &, int)\<close>.\<close>

definition pack :: "(nat \<Rightarrow> byte) \<Rightarrow> u32 \<Rightarrow> marshall \<Rightarrow> marshall res" where
  "pack junk x m =
     rbind (m_rawbyte junk (ucast (drop_bit 24 x AND 0xff)) m) (\<lambda>m.
     rbind (m_rawbyte junk (ucast (drop_bit 16 x AND 0xff)) m) (\<lambda>m.
     rbind (m_rawbyte junk (ucast (drop_bit 8 x AND 0xff)) m) (\<lambda>m.
     m_rawbyte junk (ucast (x AND 0xff)) m)))"

fun put_all :: "('a \<Rightarrow> marshall \<Rightarrow> marshall res) \<Rightarrow> 'a list \<Rightarrow> marshall \<Rightarrow> marshall res" where
  "put_all put [] m = Inr m"
| "put_all put (x # xs) m = rbind (put x m) (put_all put xs)"

definition put_vector :: "(nat \<Rightarrow> byte) \<Rightarrow> ('a \<Rightarrow> marshall \<Rightarrow> marshall res) \<Rightarrow> 'a list \<Rightarrow> marshall \<Rightarrow> marshall res" where
  "put_vector junk put v m = rbind (put_uint junk (of_nat (length v)) m) (put_all put v)"

text \<open>\<^verbatim>\<open>m << a << b\<close>.\<close>

definition put_pair :: "('a \<Rightarrow> marshall \<Rightarrow> marshall res) \<Rightarrow> ('b \<Rightarrow> marshall \<Rightarrow> marshall res) \<Rightarrow> 'a \<times> 'b \<Rightarrow> marshall \<Rightarrow> marshall res" where
  "put_pair putA putB x m = rbind (putA (fst x) m) (putB (snd x))"

text \<open>A \<^verbatim>\<open>std::map\<close> is its list of pairs in the order of the keys.\<close>

definition put_map :: "(nat \<Rightarrow> byte) \<Rightarrow> ('a \<Rightarrow> marshall \<Rightarrow> marshall res) \<Rightarrow> ('b \<Rightarrow> marshall \<Rightarrow> marshall res) \<Rightarrow>
    ('a \<times> 'b) list \<Rightarrow> marshall \<Rightarrow> marshall res" where
  "put_map junk putA putB d m =
     rbind (put_uint junk (of_nat (length d)) m) (put_all (put_pair putA putB) d)"

section \<open>Input\<close>

record unmarshall =
  u_buf :: "byte list"
  u_sz :: nat
  u_ind :: nat
  u_ok :: bool

definition unmarshall_null :: unmarshall where
  "unmarshall_null = \<lparr>u_buf = [], u_sz = 0, u_ind = 0, u_ok = False\<rparr>"

definition unmarshall_of :: "byte list \<Rightarrow> unmarshall" where
  "unmarshall_of b = \<lparr>u_buf = b, u_sz = length b, u_ind = 0, u_ok = True\<rparr>"

definition take_content :: "(nat \<Rightarrow> byte) \<Rightarrow> string \<Rightarrow> unmarshall" where
  "take_content junk s =
     \<lparr>u_buf = overlay (uninit junk (length s + RPC_HEADER_SZ)) RPC_HEADER_SZ (bytes_of_string s),
      u_sz = length s + RPC_HEADER_SZ, u_ind = RPC_HEADER_SZ, u_ok = True\<rparr>"

definition take_in :: "unmarshall \<Rightarrow> unmarshall" where
  "take_in another = \<lparr>u_buf = u_buf another, u_sz = u_sz another, u_ind = RPC_HEADER_SZ,
     u_ok = (RPC_HEADER_SZ \<le> u_sz another)\<rparr>"

definition okdone :: "unmarshall \<Rightarrow> bool" where
  "okdone u \<longleftrightarrow> u_ok u \<and> u_ind u = u_sz u"

text \<open>The byte is a signed \<^verbatim>\<open>char\<close>, extended to \<^verbatim>\<open>unsigned int\<close> on return.\<close>

definition u_rawbyte :: "unmarshall \<Rightarrow> u32 \<times> unmarshall" where
  "u_rawbyte u =
     (if u_sz u \<le> u_ind u then (0, u\<lparr>u_ok := False\<rparr>)
      else (scast (u_buf u ! u_ind u), u\<lparr>u_ind := Suc (u_ind u)\<rparr>))"

text \<open>\<^verbatim>\<open>_ind+n\<close> is an \<^verbatim>\<open>unsigned int\<close> and wraps.\<close>

definition u_rawbytes :: "u32 \<Rightarrow> string \<Rightarrow> unmarshall \<Rightarrow> (string \<times> unmarshall) res" where
  "u_rawbytes n ss u =
     (if of_nat (u_sz u) < of_nat (u_ind u) + n then Inr (ss, u\<lparr>u_ok := False\<rparr>)
      else if length (u_buf u) < u_ind u + unat n then Inl Out_Of_Bounds
      else Inr (string_of_bytes (take (unat n) (drop (u_ind u) (u_buf u))), u\<lparr>u_ind := u_ind u + unat n\<rparr>))"

definition get_bool :: "unmarshall \<Rightarrow> (bool \<times> unmarshall) res" where
  "get_bool u = (let (x, u) = u_rawbyte u in Inr (x \<noteq> 0, u))"

definition get_uchar :: "unmarshall \<Rightarrow> (byte \<times> unmarshall) res" where
  "get_uchar u = (let (x, u) = u_rawbyte u in Inr (ucast x, u))"

definition get_char :: "unmarshall \<Rightarrow> (char \<times> unmarshall) res" where
  "get_char u = (let (x, u) = u_rawbyte u in Inr (char_of_byte (ucast x), u))"

definition get_ushort :: "unmarshall \<Rightarrow> (u16 \<times> unmarshall) res" where
  "get_ushort u =
     (let (b1, u) = u_rawbyte u; (b0, u) = u_rawbyte u
      in Inr (ucast (push_bit 8 (b1 AND 0xff)) OR ucast (b0 AND 0xff), u))"

definition get_short :: "unmarshall \<Rightarrow> (int \<times> unmarshall) res" where
  "get_short u = rbind (get_ushort u) (\<lambda>(x, u). Inr (sint x, u))"

definition get_uint :: "unmarshall \<Rightarrow> (u32 \<times> unmarshall) res" where
  "get_uint u =
     (let (b3, u) = u_rawbyte u; (b2, u) = u_rawbyte u; (b1, u) = u_rawbyte u; (b0, u) = u_rawbyte u
      in Inr (push_bit 24 (b3 AND 0xff) OR push_bit 16 (b2 AND 0xff) OR push_bit 8 (b1 AND 0xff) OR (b0 AND 0xff), u))"

definition get_int :: "unmarshall \<Rightarrow> (int \<times> unmarshall) res" where
  "get_int u = rbind (get_uint u) (\<lambda>(x, u). Inr (sint x, u))"

definition get_ull :: "unmarshall \<Rightarrow> (u64 \<times> unmarshall) res" where
  "get_ull u =
     rbind (get_uint u) (\<lambda>(h, u).
     rbind (get_uint u) (\<lambda>(l, u).
     Inr (ucast l OR push_bit 32 (ucast h), u)))"

text \<open>The string read into is empty beforehand, as at every call.\<close>

definition get_string :: "unmarshall \<Rightarrow> (string \<times> unmarshall) res" where
  "get_string u =
     rbind (get_uint u) (\<lambda>(sz, u).
     if u_ok u then u_rawbytes sz [] u else Inr ([], u))"

definition unpack :: "unmarshall \<Rightarrow> u32 \<times> unmarshall" where
  "unpack u =
     (let (b3, u) = u_rawbyte u; (b2, u) = u_rawbyte u; (b1, u) = u_rawbyte u; (b0, u) = u_rawbyte u
      in (push_bit 24 (b3 AND 0xff) OR push_bit 16 (b2 AND 0xff) OR push_bit 8 (b1 AND 0xff) OR (b0 AND 0xff), u))"

fun get_n :: "(unmarshall \<Rightarrow> ('a \<times> unmarshall) res) \<Rightarrow> nat \<Rightarrow> unmarshall \<Rightarrow> ('a list \<times> unmarshall) res" where
  "get_n get 0 u = Inr ([], u)"
| "get_n get (Suc n) u = rbind (get u) (\<lambda>(z, u). rbind (get_n get n u) (\<lambda>(v, u). Inr (z # v, u)))"

definition get_vector :: "(unmarshall \<Rightarrow> ('a \<times> unmarshall) res) \<Rightarrow> unmarshall \<Rightarrow> ('a list \<times> unmarshall) res" where
  "get_vector get u = rbind (get_uint u) (\<lambda>(n, u). get_n get (unat n) u)"

text \<open>\<^verbatim>\<open>u >> a >> b\<close>.\<close>

definition get_pair :: "(unmarshall \<Rightarrow> ('a \<times> unmarshall) res) \<Rightarrow> (unmarshall \<Rightarrow> ('b \<times> unmarshall) res) \<Rightarrow>
    unmarshall \<Rightarrow> (('a \<times> 'b) \<times> unmarshall) res" where
  "get_pair getA getB u = rbind (getA u) (\<lambda>(a, u). rbind (getB u) (\<lambda>(b, u). Inr ((a, b), u)))"

text \<open>\<^verbatim>\<open>d[a] = b\<close>.\<close>

fun map_put :: "'a::linorder \<Rightarrow> 'b \<Rightarrow> ('a \<times> 'b) list \<Rightarrow> ('a \<times> 'b) list" where
  "map_put a b [] = [(a, b)]"
| "map_put a b ((k, v) # d) =
     (if a < k then (a, b) # (k, v) # d else if a = k then (a, b) # d else (k, v) # map_put a b d)"

definition get_map :: "(unmarshall \<Rightarrow> ('a::linorder \<times> unmarshall) res) \<Rightarrow> (unmarshall \<Rightarrow> ('b \<times> unmarshall) res) \<Rightarrow>
    unmarshall \<Rightarrow> (('a \<times> 'b) list \<times> unmarshall) res" where
  "get_map getA getB u =
     rbind (get_uint u) (\<lambda>(n, u).
     rbind (get_n (get_pair getA getB) (unat n) u) (\<lambda>(xs, u).
     Inr (foldl (\<lambda>d (a, b). map_put a b d) [] xs, u)))"

section \<open>Headers\<close>

record req_header =
  rq_xid :: u32
  rq_proc :: u32
  rq_clt_nonce :: u32
  rq_srv_nonce :: u32
  rq_xid_rep :: u32

record reply_header =
  rh_xid :: u32
  rh_ret :: int

definition pack_req_header :: "(nat \<Rightarrow> byte) \<Rightarrow> req_header \<Rightarrow> marshall \<Rightarrow> marshall res" where
  "pack_req_header junk h m =
     rbind (pack junk (rq_xid h) (m\<lparr>m_ind := 4\<rparr>)) (\<lambda>m1.
     rbind (pack junk (rq_proc h) m1) (\<lambda>m1.
     rbind (pack junk (rq_clt_nonce h) m1) (\<lambda>m1.
     rbind (pack junk (rq_srv_nonce h) m1) (\<lambda>m1.
     rbind (pack junk (rq_xid_rep h) m1) (\<lambda>m1.
     Inr (m1\<lparr>m_ind := m_ind m\<rparr>))))))"

definition pack_reply_header :: "(nat \<Rightarrow> byte) \<Rightarrow> reply_header \<Rightarrow> marshall \<Rightarrow> marshall res" where
  "pack_reply_header junk h m =
     rbind (pack junk (rh_xid h) (m\<lparr>m_ind := 4\<rparr>)) (\<lambda>m1.
     rbind (pack junk (word_of_int (rh_ret h)) m1) (\<lambda>m1.
     Inr (m1\<lparr>m_ind := m_ind m\<rparr>)))"

definition unpack_req_header :: "unmarshall \<Rightarrow> req_header \<times> unmarshall" where
  "unpack_req_header u =
     (let (xid, u) = unpack (u\<lparr>u_ind := 4\<rparr>); (proc, u) = unpack u; (clt, u) = unpack u; (srv, u) = unpack u;
          (rep, u) = unpack u
      in (\<lparr>rq_xid = xid, rq_proc = proc, rq_clt_nonce = clt, rq_srv_nonce = srv, rq_xid_rep = rep\<rparr>,
          u\<lparr>u_ind := RPC_HEADER_SZ\<rparr>))"

definition unpack_reply_header :: "unmarshall \<Rightarrow> reply_header \<times> unmarshall" where
  "unpack_reply_header u =
     (let (xid, u) = unpack (u\<lparr>u_ind := 4\<rparr>); (r, u) = unpack u
      in (\<lparr>rh_xid = xid, rh_ret = sint r\<rparr>, u\<lparr>u_ind := RPC_HEADER_SZ\<rparr>))"

text \<open>\<^verbatim>\<open>take_buf\<close>: the bytes handed to the connection.\<close>

definition take_buf :: "marshall \<Rightarrow> byte list" where
  "take_buf m = take (m_ind m) (m_buf m)"

section \<open>Bytes of a word\<close>

definition be32 :: "u32 \<Rightarrow> byte list" where
  "be32 w = [ucast (drop_bit 24 w), ucast (drop_bit 16 w), ucast (drop_bit 8 w), ucast w]"

definition be16 :: "u16 \<Rightarrow> byte list" where
  "be16 w = [ucast (drop_bit 8 w), ucast w]"

lemma length_be [simp]: "length (be32 w) = 4" "length (be16 v) = 2"
  by (simp_all add: be32_def be16_def)

lemma mask_0xff: "(0xff :: 'a::len word) = mask 8"
  by (simp add: mask_eq_exp_minus_1)

lemma ucast_and_0xff [simp]: "(ucast (w AND 0xff) :: byte) = ucast w"
  unfolding mask_0xff
  by (rule bit_word_eqI) (auto simp: bit_ucast_iff bit_and_iff bit_mask_iff dest: bit_imp_le_length)

lemma scast_and_0xff [simp]: "(scast (b :: byte) :: u32) AND 0xff = ucast b"
  unfolding mask_0xff
proof (rule bit_word_eqI)
  fix n assume "n < LENGTH(32)"
  consider "n < 7" | "n = 7" | "8 \<le> n" by linarith
  then show "bit ((scast b :: u32) AND mask 8) n = bit (ucast b :: u32) n"
    using \<open>n < LENGTH(32)\<close>
    by cases (auto simp: bit_ucast_iff bit_and_iff bit_mask_iff bit_signed_iff min_def dest: bit_imp_le_length)
qed

lemma ucast_scast_byte [simp]: "(ucast (scast (b :: byte) :: u32) :: byte) = b"
proof (rule bit_word_eqI)
  fix n assume "n < LENGTH(8)"
  then consider "n < 7" | "n = 7" by fastforce
  then show "bit (ucast (scast b :: u32) :: byte) n = bit b n"
    by cases (auto simp: bit_ucast_iff bit_signed_iff min_def)
qed

lemma scast_byte_0 [simp]: "(scast (b :: byte) :: u32) = 0 \<longleftrightarrow> b = 0"
  using ucast_scast_byte [of b] by (metis scast_0 ucast_0)

lemma of_be32:
  "push_bit 24 (ucast (ucast (drop_bit 24 w) :: byte)) OR push_bit 16 (ucast (ucast (drop_bit 16 w) :: byte))
     OR push_bit 8 (ucast (ucast (drop_bit 8 w) :: byte)) OR ucast (ucast w :: byte) = (w :: u32)"
proof (rule bit_word_eqI)
  fix n assume "n < LENGTH(32)"
  then show "bit (push_bit 24 (ucast (ucast (drop_bit 24 w) :: byte)) OR push_bit 16 (ucast (ucast (drop_bit 16 w) :: byte))
     OR push_bit 8 (ucast (ucast (drop_bit 8 w) :: byte)) OR ucast (ucast w :: byte) :: u32) n = bit w n"
    by (simp only: bit_or_iff bit_byte_0 bit_byte_at) auto
qed

lemma of_be16:
  "ucast (push_bit 8 (ucast (ucast (drop_bit 8 w) :: byte) :: u32)) OR ucast (ucast (ucast w :: byte) :: u32) = (w :: u16)"
  by (rule bit_word_eqI)
    (auto simp: bit_or_iff bit_ucast_iff bit_push_bit_iff bit_drop_bit_eq)

lemma of_be64: "ucast (ucast w :: u32) OR push_bit 32 (ucast (ucast (drop_bit 32 w) :: u32)) = (w :: u64)"
  by (rule bit_word_eqI)
    (auto simp: bit_or_iff bit_ucast_iff bit_push_bit_iff bit_drop_bit_eq)

section \<open>Buffers\<close>

definition m_ok :: "marshall \<Rightarrow> bool" where
  "m_ok m \<longleftrightarrow> m_ind m \<le> length (m_buf m) \<and> m_buf m \<noteq> []"

lemma m_ok_init [simp]: "m_ok (marshall_init junk)"
  by (simp add: m_ok_def marshall_init_def uninit_def)

lemma m_rawbyte_law:
  assumes "m_ok m"
  shows "\<exists>m'. m_rawbyte junk x m = Inr m' \<and> m_ok m' \<and> take_buf m' = take_buf m @ [x] \<and> length (m_buf m) \<le> length (m_buf m')"
proof -
  define buf where "buf = (if length (m_buf m) \<le> m_ind m then m_buf m @ uninit junk (length (m_buf m)) else m_buf m)"
  have b: "m_ind m < length buf" "take (m_ind m) buf = take (m_ind m) (m_buf m)" "length (m_buf m) \<le> length buf"
    using assms by (auto simp: buf_def m_ok_def)
  then have "take (Suc (m_ind m)) (buf[m_ind m := x]) = take (m_ind m) (m_buf m) @ [x]"
    by (simp add: take_Suc_conv_app_nth)
  with b show ?thesis by (auto simp: m_rawbyte_def Let_def buf_def [symmetric] m_ok_def take_buf_def)
qed

lemma m_rawbytes_law:
  assumes "m_ok m"
  shows "\<exists>m'. m_rawbytes junk p m = Inr m' \<and> m_ok m' \<and> take_buf m' = take_buf m @ p"
proof -
  define capa1 where "capa1 = (let capa = length (m_buf m); n = length p in
    if capa < m_ind m + n then if n < capa then 2 * capa else capa + n else capa)"
  define buf where "buf = m_buf m @ uninit junk (capa1 - length (m_buf m))"
  have c: "m_ind m + length p \<le> capa1" "length (m_buf m) \<le> capa1" using assms by (auto simp: capa1_def m_ok_def Let_def)
  have b: "m_ind m + length p \<le> length buf" "take (m_ind m) buf = take (m_ind m) (m_buf m)" "buf \<noteq> []"
    using assms c by (auto simp: buf_def m_ok_def)
  have "m_rawbytes junk p m = (if length buf < m_ind m + length p then Inl Out_Of_Bounds
      else Inr \<lparr>m_buf = overlay buf (m_ind m) p, m_ind = m_ind m + length p\<rparr>)"
    by (simp add: m_rawbytes_def Let_def buf_def capa1_def)
  moreover have "take (m_ind m + length p) (overlay buf (m_ind m) p) = take (m_ind m) (m_buf m) @ p"
    using b assms by (simp add: overlay_def m_ok_def)
  moreover have "overlay buf (m_ind m) p \<noteq> []" using b by (metis length_overlay length_0_conv)
  ultimately show ?thesis using b by (auto simp: m_ok_def take_buf_def)
qed

definition u_good :: "unmarshall \<Rightarrow> bool" where
  "u_good u \<longleftrightarrow> u_ok u \<and> u_sz u = length (u_buf u) \<and> u_ind u \<le> u_sz u \<and> u_sz u < 2147483648"

definition u_rest :: "unmarshall \<Rightarrow> byte list" where
  "u_rest u = drop (u_ind u) (u_buf u)"

lemma okdone_iff: "u_good u \<Longrightarrow> okdone u \<longleftrightarrow> u_rest u = []"
  by (auto simp: u_good_def okdone_def u_rest_def)

lemma u_rawbyte_law:
  assumes "u_good u" "u_rest u = b # r"
  shows "\<exists>u'. u_rawbyte u = (scast b, u') \<and> u_good u' \<and> u_rest u' = r"
proof -
  have "u_ind u < length (u_buf u)" using assms(2) by (metis drop_all leI list.distinct(1) u_rest_def)
  moreover have "u_buf u ! u_ind u = b" "drop (Suc (u_ind u)) (u_buf u) = r"
    using assms(2) calculation by (simp_all add: u_rest_def Cons_nth_drop_Suc [symmetric])
  ultimately show ?thesis using assms(1) by (simp add: u_rawbyte_def u_good_def u_rest_def)
qed

lemma u_rawbytes_law:
  assumes "u_good u" "u_rest u = bytes_of_string s @ r"
  shows "\<exists>u'. u_rawbytes (of_nat (length s)) ss u = Inr (s, u') \<and> u_good u' \<and> u_rest u' = r"
proof -
  have len: "u_ind u + length s \<le> length (u_buf u)"
    using arg_cong [OF assms(2), of length] assms(1) by (auto simp: u_rest_def u_good_def)
  have t: "take (length s) (drop (u_ind u) (u_buf u)) = bytes_of_string s" "drop (u_ind u + length s) (u_buf u) = r"
    using assms(2) drop_drop [of "length s" "u_ind u" "u_buf u"] by (simp_all add: u_rest_def add.commute)
  have sz: "length (u_buf u) < 2147483648" using assms(1) by (simp add: u_good_def)
  have un: "unat (of_nat (length s) :: u32) = length s" using len sz by simp
  have "(of_nat (u_ind u) + of_nat (length s) :: u32) = of_nat (u_ind u + length s)" by simp
  moreover have "\<not> (of_nat (length (u_buf u)) :: u32) < of_nat (u_ind u + length s)"
    using len sz by (simp add: word_less_nat_alt unat_of_nat del: of_nat_add)
  ultimately show ?thesis
    using assms(1) len t un by (simp add: u_rawbytes_def u_good_def u_rest_def comp_def del: of_nat_add)
qed

section \<open>The contract of a pair of operators\<close>

text \<open>
  \<open>put\<close> appends the encoding of its value and \<open>get\<close> takes exactly that encoding off the input.
\<close>

locale codec =
  fixes put :: "'a \<Rightarrow> marshall \<Rightarrow> marshall res" and get :: "unmarshall \<Rightarrow> ('a \<times> unmarshall) res"
    and enc :: "'a \<Rightarrow> byte list" and dom :: "'a \<Rightarrow> bool"
  assumes put_law: "m_ok m \<Longrightarrow> dom x \<Longrightarrow> \<exists>m'. put x m = Inr m' \<and> m_ok m' \<and> take_buf m' = take_buf m @ enc x"
    and get_law: "u_good u \<Longrightarrow> dom x \<Longrightarrow> u_rest u = enc x @ r \<Longrightarrow> \<exists>u'. get u = Inr (x, u') \<and> u_good u' \<and> u_rest u' = r"
begin

lemma put_all_law:
  "m_ok m \<Longrightarrow> \<forall>x \<in> set xs. dom x \<Longrightarrow>
    \<exists>m'. put_all put xs m = Inr m' \<and> m_ok m' \<and> take_buf m' = take_buf m @ concat (map enc xs)"
proof (induction xs arbitrary: m)
  case (Cons x xs)
  then obtain m1 where m1: "put x m = Inr m1" "m_ok m1" "take_buf m1 = take_buf m @ enc x"
    using put_law [of m x] by auto
  with Cons.IH [OF m1(2)] Cons.prems show ?case by auto
qed simp

lemma get_n_law:
  "u_good u \<Longrightarrow> \<forall>x \<in> set xs. dom x \<Longrightarrow> u_rest u = concat (map enc xs) @ r \<Longrightarrow>
    \<exists>u'. get_n get (length xs) u = Inr (xs, u') \<and> u_good u' \<and> u_rest u' = r"
proof (induction xs arbitrary: u)
  case (Cons x xs)
  then obtain u1 where u1: "get u = Inr (x, u1)" "u_good u1" "u_rest u1 = concat (map enc xs) @ r"
    using get_law [of u x "concat (map enc xs) @ r"] by auto
  with Cons.IH [OF u1(2)] Cons.prems show ?case by auto
qed simp

end

lemma codec_pair:
  assumes "codec putA getA encA domA" "codec putB getB encB domB"
  shows "codec (put_pair putA putB) (get_pair getA getB) (\<lambda>(a, b). encA a @ encB b) (\<lambda>(a, b). domA a \<and> domB b)"
proof
  fix m x assume "m_ok m" "case x of (a, b) \<Rightarrow> domA a \<and> domB b"
  then obtain m1 where m1: "putA (fst x) m = Inr m1" "m_ok m1" "take_buf m1 = take_buf m @ encA (fst x)"
    using codec.put_law [OF assms(1), of m "fst x"] by (auto split: prod.splits)
  with codec.put_law [OF assms(2) m1(2), of "snd x"] \<open>case x of (a, b) \<Rightarrow> domA a \<and> domB b\<close>
  show "\<exists>m'. put_pair putA putB x m = Inr m' \<and> m_ok m' \<and> take_buf m' = take_buf m @ (case x of (a, b) \<Rightarrow> encA a @ encB b)"
    by (auto simp: put_pair_def split: prod.splits)
next
  fix u x r assume u: "u_good u" "case x of (a, b) \<Rightarrow> domA a \<and> domB b" "u_rest u = (case x of (a, b) \<Rightarrow> encA a @ encB b) @ r"
  then obtain u1 where u1: "getA u = Inr (fst x, u1)" "u_good u1" "u_rest u1 = encB (snd x) @ r"
    using codec.get_law [OF assms(1) u(1), of "fst x" "encB (snd x) @ r"] by (auto split: prod.splits)
  with codec.get_law [OF assms(2) u1(2), of "snd x" r] u(2)
  show "\<exists>u'. get_pair getA getB u = Inr (x, u') \<and> u_good u' \<and> u_rest u' = r"
    by (auto simp: get_pair_def split: prod.splits)
qed

section \<open>The operators of the library\<close>

lemma put_byte_law: "m_ok m \<Longrightarrow> \<exists>m'. m_rawbyte junk x m = Inr m' \<and> m_ok m' \<and> take_buf m' = take_buf m @ [x]"
  using m_rawbyte_law by blast

lemma put_uint_law:
  assumes "m_ok m"
  shows "\<exists>m'. put_uint junk x m = Inr m' \<and> m_ok m' \<and> take_buf m' = take_buf m @ be32 x"
proof -
  obtain m1 where m1: "m_rawbyte junk (ucast (drop_bit 24 x)) m = Inr m1" "m_ok m1" "take_buf m1 = take_buf m @ [ucast (drop_bit 24 x)]"
    using put_byte_law [OF assms] by blast
  obtain m2 where m2: "m_rawbyte junk (ucast (drop_bit 16 x)) m1 = Inr m2" "m_ok m2" "take_buf m2 = take_buf m1 @ [ucast (drop_bit 16 x)]"
    using put_byte_law [OF m1(2)] by blast
  obtain m3 where m3: "m_rawbyte junk (ucast (drop_bit 8 x)) m2 = Inr m3" "m_ok m3" "take_buf m3 = take_buf m2 @ [ucast (drop_bit 8 x)]"
    using put_byte_law [OF m2(2)] by blast
  obtain m4 where "m_rawbyte junk (ucast x) m3 = Inr m4" "m_ok m4" "take_buf m4 = take_buf m3 @ [ucast x]"
    using put_byte_law [OF m3(2)] by blast
  with m1 m2 m3 show ?thesis by (simp add: put_uint_def be32_def)
qed

lemma get_uint_law:
  assumes "u_good u" "u_rest u = be32 x @ r"
  shows "\<exists>u'. get_uint u = Inr (x, u') \<and> unpack u = (x, u') \<and> u_good u' \<and> u_rest u' = r"
proof -
  have e: "u_rest u = ucast (drop_bit 24 x) # ucast (drop_bit 16 x) # ucast (drop_bit 8 x) # ucast x # r"
    using assms(2) by (simp add: be32_def)
  obtain u1 where u1: "u_rawbyte u = (scast (ucast (drop_bit 24 x) :: byte), u1)" "u_good u1"
    "u_rest u1 = ucast (drop_bit 16 x) # ucast (drop_bit 8 x) # ucast x # r"
    using u_rawbyte_law [OF assms(1) e] by blast
  obtain u2 where u2: "u_rawbyte u1 = (scast (ucast (drop_bit 16 x) :: byte), u2)" "u_good u2"
    "u_rest u2 = ucast (drop_bit 8 x) # ucast x # r"
    using u_rawbyte_law [OF u1(2,3)] by blast
  obtain u3 where u3: "u_rawbyte u2 = (scast (ucast (drop_bit 8 x) :: byte), u3)" "u_good u3" "u_rest u3 = ucast x # r"
    using u_rawbyte_law [OF u2(2,3)] by blast
  obtain u4 where u4: "u_rawbyte u3 = (scast (ucast x :: byte), u4)" "u_good u4" "u_rest u4 = r"
    using u_rawbyte_law [OF u3(2,3)] by blast
  show ?thesis
    by (simp only: get_uint_def unpack_def u1 u2 u3 u4 Let_def prod.case scast_and_0xff of_be32) (simp add: u4)
qed

lemma put_ushort_law:
  assumes "m_ok m"
  shows "\<exists>m'. put_ushort junk x m = Inr m' \<and> m_ok m' \<and> take_buf m' = take_buf m @ be16 x"
proof -
  obtain m1 where m1: "m_rawbyte junk (ucast (drop_bit 8 x)) m = Inr m1" "m_ok m1" "take_buf m1 = take_buf m @ [ucast (drop_bit 8 x)]"
    using put_byte_law [OF assms] by blast
  obtain m2 where "m_rawbyte junk (ucast x) m1 = Inr m2" "m_ok m2" "take_buf m2 = take_buf m1 @ [ucast x]"
    using put_byte_law [OF m1(2)] by blast
  with m1 show ?thesis by (simp add: put_ushort_def be16_def)
qed

lemma get_ushort_law:
  assumes "u_good u" "u_rest u = be16 x @ r"
  shows "\<exists>u'. get_ushort u = Inr (x, u') \<and> u_good u' \<and> u_rest u' = r"
proof -
  have e: "u_rest u = ucast (drop_bit 8 x) # ucast x # r" using assms(2) by (simp add: be16_def)
  obtain u1 where u1: "u_rawbyte u = (scast (ucast (drop_bit 8 x) :: byte), u1)" "u_good u1" "u_rest u1 = ucast x # r"
    using u_rawbyte_law [OF assms(1) e] by blast
  obtain u2 where u2: "u_rawbyte u1 = (scast (ucast x :: byte), u2)" "u_good u2" "u_rest u2 = r"
    using u_rawbyte_law [OF u1(2,3)] by blast
  show ?thesis
    by (simp only: get_ushort_def u1 u2 Let_def prod.case scast_and_0xff of_be16) (simp add: u2)
qed

lemma of_bool_byte_neq_0 [simp]: "(of_bool b :: byte) \<noteq> 0 \<longleftrightarrow> b"
  by simp

interpretation bool_codec: codec "put_bool junk" get_bool "\<lambda>x. [of_bool x]" "\<lambda>_. True" for junk
proof
  fix u x r assume "u_good u" "u_rest u = [of_bool x] @ r"
  then obtain u' where "u_rawbyte u = (scast (of_bool x :: byte), u')" "u_good u'" "u_rest u' = r"
    using u_rawbyte_law [of u "of_bool x" r] by auto
  then show "\<exists>u'. get_bool u = Inr (x, u') \<and> u_good u' \<and> u_rest u' = r"
    by (simp add: get_bool_def)
qed (simp add: put_bool_def put_byte_law)

interpretation uchar_codec: codec "put_uchar junk" get_uchar "\<lambda>x. [x]" "\<lambda>_. True" for junk
proof
  fix u x r assume "u_good u" "u_rest u = [x] @ r"
  then show "\<exists>u'. get_uchar u = Inr (x, u') \<and> u_good u' \<and> u_rest u' = r"
    using u_rawbyte_law [of u x r] by (auto simp: get_uchar_def)
qed (simp add: put_uchar_def put_byte_law)

interpretation char_codec: codec "put_char junk" get_char "\<lambda>x. [byte_of_char x]" "\<lambda>_. True" for junk
proof
  fix u x r assume "u_good u" "u_rest u = [byte_of_char x] @ r"
  then show "\<exists>u'. get_char u = Inr (x, u') \<and> u_good u' \<and> u_rest u' = r"
    using u_rawbyte_law [of u "byte_of_char x" r] by (auto simp: get_char_def)
qed (simp add: put_char_def put_uchar_def put_byte_law)

interpretation ushort_codec: codec "put_ushort junk" get_ushort be16 "\<lambda>_. True" for junk
  by unfold_locales (simp_all add: put_ushort_law get_ushort_law)

interpretation uint_codec: codec "put_uint junk" get_uint be32 "\<lambda>_. True" for junk
  using get_uint_law by unfold_locales (simp add: put_uint_law, blast)

text \<open>\<^verbatim>\<open>short\<close> and \<^verbatim>\<open>int\<close> are integers in the range of the type.\<close>

definition int16 :: "int \<Rightarrow> bool" where "int16 x \<longleftrightarrow> - (2 ^ 15) \<le> x \<and> x < 2 ^ 15"
definition int32 :: "int \<Rightarrow> bool" where "int32 x \<longleftrightarrow> - (2 ^ 31) \<le> x \<and> x < 2 ^ 31"

lemma sint_word_of_int32: "int32 x \<Longrightarrow> sint (word_of_int x :: u32) = x"
  by (simp add: int32_def signed_of_int signed_take_bit_int_eq_self)

lemma sint_word_of_int16: "int16 x \<Longrightarrow> sint (word_of_int x :: u16) = x"
  by (simp add: int16_def signed_of_int signed_take_bit_int_eq_self)

interpretation short_codec: codec "put_short junk" get_short "\<lambda>x. be16 (word_of_int x)" int16 for junk
proof
  fix u x r assume "u_good u" "int16 x" "u_rest u = be16 (word_of_int x) @ r"
  then show "\<exists>u'. get_short u = Inr (x, u') \<and> u_good u' \<and> u_rest u' = r"
    using get_ushort_law [of u "word_of_int x" r] by (auto simp: get_short_def sint_word_of_int16)
qed (simp add: put_short_def put_ushort_law)

interpretation int_codec: codec "put_int junk" get_int "\<lambda>x. be32 (word_of_int x)" int32 for junk
proof
  fix u x r assume "u_good u" "int32 x" "u_rest u = be32 (word_of_int x) @ r"
  then show "\<exists>u'. get_int u = Inr (x, u') \<and> u_good u' \<and> u_rest u' = r"
    using get_uint_law [of u "word_of_int x" r] by (auto simp: get_int_def sint_word_of_int32)
qed (simp add: put_int_def put_uint_law)

definition be64 :: "u64 \<Rightarrow> byte list" where
  "be64 x = be32 (ucast (drop_bit 32 x)) @ be32 (ucast x)"

interpretation ull_codec: codec "put_ull junk" get_ull be64 "\<lambda>_. True" for junk
proof
  fix m and x :: u64 assume "m_ok m"
  then obtain m1 where m1: "put_uint junk (ucast (drop_bit 32 x)) m = Inr m1" "m_ok m1"
    "take_buf m1 = take_buf m @ be32 (ucast (drop_bit 32 x))"
    using put_uint_law by blast
  with put_uint_law [OF m1(2), of junk "ucast x"]
  show "\<exists>m'. put_ull junk x m = Inr m' \<and> m_ok m' \<and> take_buf m' = take_buf m @ be64 x"
    by (auto simp: put_ull_def be64_def)
next
  fix u x r assume u: "u_good u" "u_rest u = be64 x @ r"
  then obtain u1 where u1: "get_uint u = Inr (ucast (drop_bit 32 x), u1)" "u_good u1" "u_rest u1 = be32 (ucast x) @ r"
    using get_uint_law [OF u(1), of "ucast (drop_bit 32 x)" "be32 (ucast x) @ r"] by (auto simp: be64_def)
  with get_uint_law [OF u1(2,3)] show "\<exists>u'. get_ull u = Inr (x, u') \<and> u_good u' \<and> u_rest u' = r"
    by (auto simp: get_ull_def of_be64)
qed

definition enc_string :: "string \<Rightarrow> byte list" where
  "enc_string s = be32 (of_nat (length s)) @ bytes_of_string s"

interpretation string_codec: codec "put_string junk" get_string enc_string "\<lambda>s. length s < 4294967296" for junk
proof
  fix m and s :: string assume "m_ok m"
  then obtain m1 where m1: "put_uint junk (of_nat (length s)) m = Inr m1" "m_ok m1" "take_buf m1 = take_buf m @ be32 (of_nat (length s))"
    using put_uint_law by blast
  with m_rawbytes_law [OF m1(2), of junk "bytes_of_string s"]
  show "\<exists>m'. put_string junk s m = Inr m' \<and> m_ok m' \<and> take_buf m' = take_buf m @ enc_string s"
    by (auto simp: put_string_def enc_string_def)
next
  fix u s r assume u: "u_good u" "u_rest u = enc_string s @ r"
  then obtain u1 where u1: "get_uint u = Inr (of_nat (length s), u1)" "u_good u1" "u_rest u1 = bytes_of_string s @ r"
    using get_uint_law [OF u(1), of "of_nat (length s)" "bytes_of_string s @ r"] by (auto simp: enc_string_def)
  moreover have "u_ok u1" using u1(2) by (simp add: u_good_def)
  ultimately show "\<exists>u'. get_string u = Inr (s, u') \<and> u_good u' \<and> u_rest u' = r"
    using u_rawbytes_law [OF u1(2,3)] by (simp add: get_string_def)
qed

lemma codec_vector:
  assumes "codec put get enc ok"
  shows "codec (put_vector junk put) (get_vector get) (\<lambda>v. be32 (of_nat (length v)) @ concat (map enc v))
           (\<lambda>v. length v < 4294967296 \<and> (\<forall>x \<in> set v. ok x))"
proof
  fix m v assume m: "m_ok m" "length v < 4294967296 \<and> (\<forall>x \<in> set v. ok x)"
  then obtain m1 where m1: "put_uint junk (of_nat (length v)) m = Inr m1" "m_ok m1" "take_buf m1 = take_buf m @ be32 (of_nat (length v))"
    using put_uint_law by blast
  with codec.put_all_law [OF assms m1(2), of v] m(2)
  show "\<exists>m'. put_vector junk put v m = Inr m' \<and> m_ok m' \<and> take_buf m' = take_buf m @ be32 (of_nat (length v)) @ concat (map enc v)"
    by (auto simp: put_vector_def)
next
  fix u v r assume u: "u_good u" "length v < 4294967296 \<and> (\<forall>x \<in> set v. ok x)"
    "u_rest u = (be32 (of_nat (length v)) @ concat (map enc v)) @ r"
  then obtain u1 where u1: "get_uint u = Inr (of_nat (length v), u1)" "u_good u1" "u_rest u1 = concat (map enc v) @ r"
    using get_uint_law [OF u(1), of "of_nat (length v)"] by auto
  moreover have "unat (of_nat (length v) :: u32) = length v" using u(2) by (simp add: unat_of_nat)
  ultimately show "\<exists>u'. get_vector get u = Inr (v, u') \<and> u_good u' \<and> u_rest u' = r"
    using codec.get_n_law [OF assms u1(2) _ u1(3)] u(2) by (simp add: get_vector_def)
qed

text \<open>A map is sorted by its keys; reading it back inserts at the end.\<close>

lemma map_put_last: "\<forall>k \<in> fst ` set d. k < a \<Longrightarrow> map_put a b d = d @ [(a, b)]"
  by (induction d) auto

lemma foldl_map_put:
  "sorted_wrt (<) (map fst (d @ xs)) \<Longrightarrow> foldl (\<lambda>d (a, b). map_put a b d) d xs = d @ xs"
proof (induction xs arbitrary: d)
  case (Cons x xs)
  moreover have "\<forall>k \<in> fst ` set d. k < fst x" using Cons.prems by (auto simp: sorted_wrt_append)
  ultimately show ?case using Cons.IH [of "d @ [x]"] by (simp add: map_put_last case_prod_beta)
qed simp

lemma codec_map:
  assumes "codec putA getA encA domA" "codec putB getB encB domB"
  shows "codec (put_map junk putA putB) (get_map getA getB)
           (\<lambda>d. be32 (of_nat (length d)) @ concat (map (\<lambda>(a, b). encA a @ encB b) d))
           (\<lambda>d. length d < 4294967296 \<and> (\<forall>(a, b) \<in> set d. domA a \<and> domB b) \<and> sorted_wrt (<) (map fst d))"
proof
  note v = codec_vector [OF codec_pair [OF assms], of junk]
  fix m d assume "m_ok m" "length d < 4294967296 \<and> (\<forall>(a, b) \<in> set d. domA a \<and> domB b) \<and> sorted_wrt (<) (map fst d)"
  then show "\<exists>m'. put_map junk putA putB d m = Inr m' \<and> m_ok m' \<and>
      take_buf m' = take_buf m @ be32 (of_nat (length d)) @ concat (map (\<lambda>(a, b). encA a @ encB b) d)"
    using codec.put_law [OF v, of m d] by (simp add: put_map_def put_vector_def)
next
  note v = codec_vector [OF codec_pair [OF assms], of junk]
  fix u d r assume u: "u_good u" "length d < 4294967296 \<and> (\<forall>(a, b) \<in> set d. domA a \<and> domB b) \<and> sorted_wrt (<) (map fst d)"
    "u_rest u = (be32 (of_nat (length d)) @ concat (map (\<lambda>(a, b). encA a @ encB b) d)) @ r"
  have "get_map getA getB u = rbind (get_vector (get_pair getA getB) u) (\<lambda>(xs, u). Inr (foldl (\<lambda>d (a, b). map_put a b d) [] xs, u))"
    by (simp add: get_map_def get_vector_def rbind_def split: sum.splits)
  then show "\<exists>u'. get_map getA getB u = Inr (d, u') \<and> u_good u' \<and> u_rest u' = r"
    using codec.get_law [OF v u(1) _ u(3)] u(2) foldl_map_put [of "[]" d] by auto
qed

section \<open>Header round trips\<close>

lemma m_rawbyte_inside:
  "m_ind m < length (m_buf m) \<Longrightarrow> m_rawbyte junk x m = Inr \<lparr>m_buf = (m_buf m)[m_ind m := x], m_ind = Suc (m_ind m)\<rparr>"
  by (simp add: m_rawbyte_def)

lemma overlay_Cons:
  "i + length ys < length xs \<Longrightarrow> overlay xs i (y # ys) = overlay (xs[i := y]) (Suc i) ys"
  by (simp add: overlay_def take_Suc_conv_app_nth)

lemma overlay_Nil [simp]: "overlay xs i [] = xs"
  by (simp add: overlay_def)

lemma overlay_overlay:
  "i + length ys + length zs \<le> length xs \<Longrightarrow> overlay (overlay xs i ys) (i + length ys) zs = overlay xs i (ys @ zs)"
  by (simp add: overlay_def ac_simps)

lemma pack_inside:
  assumes "m_ind m + 4 \<le> length (m_buf m)"
  shows "pack junk x m = Inr \<lparr>m_buf = overlay (m_buf m) (m_ind m) (be32 x), m_ind = m_ind m + 4\<rparr>"
  using assms by (simp add: pack_def m_rawbyte_inside be32_def overlay_Cons)

definition enc_req_header :: "req_header \<Rightarrow> byte list" where
  "enc_req_header h = be32 (rq_xid h) @ be32 (rq_proc h) @ be32 (rq_clt_nonce h) @ be32 (rq_srv_nonce h) @ be32 (rq_xid_rep h)"

definition enc_reply_header :: "reply_header \<Rightarrow> byte list" where
  "enc_reply_header h = be32 (rh_xid h) @ be32 (word_of_int (rh_ret h))"

lemma length_enc_header [simp]: "length (enc_req_header h) = 20" "length (enc_reply_header g) = 8"
  by (simp_all add: enc_req_header_def enc_reply_header_def)

lemma pack_req_header_effect:
  assumes "24 \<le> length (m_buf m)"
  shows "pack_req_header junk h m = Inr (m\<lparr>m_buf := overlay (m_buf m) 4 (enc_req_header h)\<rparr>)"
proof -
  note o = overlay_overlay [where i = 4]
  have "overlay (overlay (overlay (overlay (overlay (m_buf m) 4 (be32 (rq_xid h))) 8 (be32 (rq_proc h))) 12 (be32 (rq_clt_nonce h)))
      16 (be32 (rq_srv_nonce h))) 20 (be32 (rq_xid_rep h)) = overlay (m_buf m) 4 (enc_req_header h)"
    using assms o [of "be32 (rq_xid h)" "be32 (rq_proc h)"] o [of "be32 (rq_xid h) @ be32 (rq_proc h)" "be32 (rq_clt_nonce h)"]
      o [of "be32 (rq_xid h) @ be32 (rq_proc h) @ be32 (rq_clt_nonce h)" "be32 (rq_srv_nonce h)"]
      o [of "be32 (rq_xid h) @ be32 (rq_proc h) @ be32 (rq_clt_nonce h) @ be32 (rq_srv_nonce h)" "be32 (rq_xid_rep h)"]
    by (simp add: enc_req_header_def)
  then show ?thesis using assms by (simp add: pack_req_header_def pack_inside)
qed

lemma pack_reply_header_effect:
  assumes "24 \<le> length (m_buf m)"
  shows "pack_reply_header junk h m = Inr (m\<lparr>m_buf := overlay (m_buf m) 4 (enc_reply_header h)\<rparr>)"
  using assms overlay_overlay [where i = 4 and ys = "be32 (rh_xid h)" and zs = "be32 (word_of_int (rh_ret h))" and xs = "m_buf m"]
  by (simp add: pack_reply_header_def pack_inside enc_reply_header_def)

lemma unpack_law:
  assumes "u_good u" "u_rest u = be32 x @ r"
  shows "unpack u = (x, u\<lparr>u_ind := u_ind u + 4\<rparr>)" "u_good (u\<lparr>u_ind := u_ind u + 4\<rparr>)" "u_rest (u\<lparr>u_ind := u_ind u + 4\<rparr>) = r"
proof -
  have len: "u_ind u + 4 \<le> u_sz u"
    using arg_cong [OF assms(2), of length] assms(1) by (auto simp: u_rest_def u_good_def)
  have "snd (unpack u) = u\<lparr>u_ind := u_ind u + 4\<rparr>"
    using len by (simp add: unpack_def u_rawbyte_def)
  then show "unpack u = (x, u\<lparr>u_ind := u_ind u + 4\<rparr>)" "u_good (u\<lparr>u_ind := u_ind u + 4\<rparr>)" "u_rest (u\<lparr>u_ind := u_ind u + 4\<rparr>) = r"
    using get_uint_law [OF assms] by auto
qed

lemma unpack_req_header_effect:
  assumes "u_ok u" "u_sz u = length (u_buf u)" "u_sz u < 2147483648" "24 \<le> u_sz u"
    "take 20 (drop 4 (u_buf u)) = enc_req_header h"
  shows "unpack_req_header u = (h, u\<lparr>u_ind := 24\<rparr>)"
proof -
  have g: "u_good (u\<lparr>u_ind := 4\<rparr>)" using assms by (simp add: u_good_def)
  have "drop 4 (u_buf u) = enc_req_header h @ drop 20 (drop 4 (u_buf u))"
    using assms(5) by (metis append_take_drop_id)
  then have "u_rest (u\<lparr>u_ind := 4\<rparr>) = be32 (rq_xid h) @ be32 (rq_proc h) @ be32 (rq_clt_nonce h) @ be32 (rq_srv_nonce h) @ be32 (rq_xid_rep h) @ drop 24 (u_buf u)"
    by (simp add: u_rest_def enc_req_header_def)
  note a = unpack_law [OF g this]
  note b = unpack_law [OF a(2,3)]
  note c = unpack_law [OF b(2,3)]
  note d = unpack_law [OF c(2,3)]
  note e = unpack_law [OF d(2,3)]
  show ?thesis unfolding unpack_req_header_def Let_def a(1) b(1) c(1) d(1) e(1) prod.case by simp
qed

lemma unpack_reply_header_effect:
  assumes "u_ok u" "u_sz u = length (u_buf u)" "u_sz u < 2147483648" "24 \<le> u_sz u"
    "take 8 (drop 4 (u_buf u)) = enc_reply_header h" "int32 (rh_ret h)"
  shows "unpack_reply_header u = (h, u\<lparr>u_ind := 24\<rparr>)"
proof -
  have g: "u_good (u\<lparr>u_ind := 4\<rparr>)" using assms by (simp add: u_good_def)
  have "drop 4 (u_buf u) = enc_reply_header h @ drop 8 (drop 4 (u_buf u))"
    using assms(5) by (metis append_take_drop_id)
  then have "u_rest (u\<lparr>u_ind := 4\<rparr>) = be32 (rh_xid h) @ be32 (word_of_int (rh_ret h)) @ drop 12 (u_buf u)"
    by (simp add: u_rest_def enc_reply_header_def)
  note a = unpack_law [OF g this]
  note b = unpack_law [OF a(2,3)]
  show ?thesis unfolding unpack_reply_header_def Let_def a(1) b(1) prod.case
    by (simp add: sint_word_of_int32 [OF assms(6)])
qed

text \<open>A header overwrites the first 24 bytes of a message and leaves the arguments alone.\<close>

lemma take_overlay_header:
  assumes "4 + length hb \<le> 24" "24 \<le> n" "n \<le> length buf"
  shows "take (length hb) (drop 4 (take n (overlay buf 4 hb))) = hb" "drop 24 (take n (overlay buf 4 hb)) = drop 24 (take n buf)"
proof -
  have "take n (overlay buf 4 hb) = take 4 buf @ hb @ drop (4 + length hb) (take n buf)"
    using assms by (simp add: overlay_def min_def take_drop)
  then show "take (length hb) (drop 4 (take n (overlay buf 4 hb))) = hb" "drop 24 (take n (overlay buf 4 hb)) = drop 24 (take n buf)"
    using assms by simp_all
qed

text \<open>A message under construction: room for the header, and below 2 GiB.\<close>

definition message :: "marshall \<Rightarrow> bool" where
  "message m \<longleftrightarrow> 24 \<le> m_ind m \<and> m_ind m \<le> length (m_buf m) \<and> m_ind m < 2147483648"

lemma message_init [simp]: "message (marshall_init junk)"
  by (simp add: message_def marshall_init_def)

lemma req_header_read:
  assumes "message m"
  shows "\<exists>m'. pack_req_header junk h m = Inr m' \<and> length (take_buf m') = m_ind m \<and> drop 24 (take_buf m') = drop 24 (take_buf m) \<and>
    unpack_req_header (unmarshall_of (take_buf m')) = (h, take_in (unmarshall_of (take_buf m')))"
proof -
  let ?m = "m\<lparr>m_buf := overlay (m_buf m) 4 (enc_req_header h)\<rparr>"
  have m: "24 \<le> m_ind m" "m_ind m \<le> length (m_buf m)" "m_ind m < 2147483648" using assms by (simp_all add: message_def)
  define b where "b = take_buf ?m"
  have b: "take 20 (drop 4 b) = enc_req_header h" "drop 24 b = drop 24 (take_buf m)" "length b = m_ind m"
    using take_overlay_header [of "enc_req_header h" "m_ind m" "m_buf m"] m by (simp_all add: b_def take_buf_def)
  have "unpack_req_header (unmarshall_of b) = (h, (unmarshall_of b)\<lparr>u_ind := 24\<rparr>)"
    using unpack_req_header_effect [of "unmarshall_of b" h] b m by (simp add: unmarshall_of_def)
  moreover have "(unmarshall_of b)\<lparr>u_ind := 24\<rparr> = take_in (unmarshall_of b)" using b(3) m(1) by (simp add: take_in_def unmarshall_of_def)
  ultimately show ?thesis using pack_req_header_effect [of m junk h] m b by (simp add: b_def)
qed

lemma reply_header_read:
  assumes "message m" "int32 (rh_ret h)"
  shows "\<exists>m'. pack_reply_header junk h m = Inr m' \<and> length (take_buf m') = m_ind m \<and> drop 24 (take_buf m') = drop 24 (take_buf m) \<and>
    unpack_reply_header (unmarshall_of (take_buf m')) = (h, take_in (unmarshall_of (take_buf m')))"
proof -
  let ?m = "m\<lparr>m_buf := overlay (m_buf m) 4 (enc_reply_header h)\<rparr>"
  have m: "24 \<le> m_ind m" "m_ind m \<le> length (m_buf m)" "m_ind m < 2147483648" using assms by (simp_all add: message_def)
  define b where "b = take_buf ?m"
  have b: "take 8 (drop 4 b) = enc_reply_header h" "drop 24 b = drop 24 (take_buf m)" "length b = m_ind m"
    using take_overlay_header [of "enc_reply_header h" "m_ind m" "m_buf m"] m by (simp_all add: b_def take_buf_def)
  have "unpack_reply_header (unmarshall_of b) = (h, (unmarshall_of b)\<lparr>u_ind := 24\<rparr>)"
    using unpack_reply_header_effect [of "unmarshall_of b" h] b m assms(2) by (simp add: unmarshall_of_def)
  moreover have "(unmarshall_of b)\<lparr>u_ind := 24\<rparr> = take_in (unmarshall_of b)" using b(3) m(1) by (simp add: take_in_def unmarshall_of_def)
  ultimately show ?thesis using pack_reply_header_effect [of m junk h] m b by (simp add: b_def)
qed

lemma take_in_good:
  assumes "24 \<le> length b" "length b < 2147483648"
  shows "u_good (take_in (unmarshall_of b))" "u_rest (take_in (unmarshall_of b)) = drop 24 b"
  using assms by (simp_all add: take_in_def unmarshall_of_def u_good_def u_rest_def)

lemma take_in_idem [simp]: "take_in (take_in u) = take_in u"
  by (simp add: take_in_def)

context codec
begin

lemma put_message:
  assumes "dom x"
  shows "\<exists>m. put x (marshall_init junk) = Inr m \<and> m_ind m = 24 + length (enc x) \<and> m_ind m \<le> length (m_buf m) \<and>
    drop 24 (take_buf m) = enc x"
proof -
  have t0: "take_buf (marshall_init junk) = uninit junk 24"
    by (simp add: take_buf_def marshall_init_def uninit_def take_map)
  obtain m where m: "put x (marshall_init junk) = Inr m" "m_ok m" "take_buf m = uninit junk 24 @ enc x"
    using put_law [OF m_ok_init assms, of junk] t0 by auto
  moreover have "length (take_buf m) = m_ind m" using m(2) by (simp add: m_ok_def take_buf_def)
  ultimately show ?thesis by (simp add: m_ok_def)
qed

text \<open>Arguments, then the header, to the wire and back.\<close>

lemma request_roundtrip:
  assumes "dom x"
  shows "\<exists>m m'. put x (marshall_init junk) = Inr m \<and> pack_req_header junk h m = Inr m' \<and>
    (length (take_buf m') < 2147483648 \<longrightarrow>
      (\<exists>u u'. unpack_req_header (unmarshall_of (take_buf m')) = (h, u) \<and> get u = Inr (x, u') \<and> okdone u'))"
proof -
  obtain m where m: "put x (marshall_init junk) = Inr m" "24 \<le> m_ind m" "m_ind m \<le> length (m_buf m)" "drop 24 (take_buf m) = enc x"
    using put_message [OF assms, of junk] by auto
  obtain m' where m': "pack_req_header junk h m = Inr m'" "length (take_buf m') = m_ind m"
    using pack_req_header_effect [of m junk h] m(2,3) by (simp add: take_buf_def)
  have "\<exists>u u'. unpack_req_header (unmarshall_of (take_buf m')) = (h, u) \<and> get u = Inr (x, u') \<and> okdone u'" if "length (take_buf m') < 2147483648"
  proof -
    have "message m" using that m(2,3) m'(2) by (simp add: message_def)
    from req_header_read [OF this, of junk h]
    have r: "drop 24 (take_buf m') = enc x" "unpack_req_header (unmarshall_of (take_buf m')) = (h, take_in (unmarshall_of (take_buf m')))"
      using m'(1) m(4) by auto
    note g = take_in_good [OF _ that]
    obtain u' where "get (take_in (unmarshall_of (take_buf m'))) = Inr (x, u')" "u_good u'" "u_rest u' = []"
      using get_law [OF g(1) assms, of "[]"] g(2) r(1) m(2) m'(2) by auto
    with r(2) okdone_iff show ?thesis by auto
  qed
  with m(1) m'(1) show ?thesis by blast
qed

end

section \<open>Properties\<close>

lemmas args_codec = codec_pair [OF bool_codec.codec_axioms codec_pair [OF char_codec.codec_axioms
  codec_pair [OF short_codec.codec_axioms codec_pair [OF int_codec.codec_axioms codec_pair [OF ull_codec.codec_axioms
  codec_pair [OF codec_vector [OF string_codec.codec_axioms]
    codec_map [OF uint_codec.codec_axioms string_codec.codec_axioms]]]]]]]



text \<open>C37. Reading a string whose announced length is \<open>n\<close> either returns its \<open>n\<close> bytes, or marks the
  input bad because fewer than \<open>n\<close> bytes follow, or, exactly when the sum of the position and \<open>n\<close>
  wraps around 32 bits, passes the bounds check and reads beyond the buffer.\<close>

theorem get_string_wraps:
  assumes "u_good u" "u_rest u = be32 n @ r"
  shows "get_string u =
    (if 4294967296 \<le> u_ind u + 4 + unat n then Inl Out_Of_Bounds
     else if unat n \<le> length r then Inr (string_of_bytes (take (unat n) r), u\<lparr>u_ind := u_ind u + 4 + unat n\<rparr>)
     else Inr ([], u\<lparr>u_ind := u_ind u + 4, u_ok := False\<rparr>))"
proof -
  let ?v = "u\<lparr>u_ind := u_ind u + 4\<rparr>"
  note un = unpack_law [OF assms]
  have g: "get_uint u = Inr (n, ?v)" using get_uint_law [OF assms] un(1) by auto
  have v: "u_ind u + 4 \<le> length (u_buf u)" "length (u_buf u) < 2147483648" "u_sz u = length (u_buf u)" "u_ok u"
    using un(2) by (simp_all add: u_good_def)
  have r: "length r = length (u_buf u) - (u_ind u + 4)" "drop (u_ind u + 4) (u_buf u) = r"
    using un(3) v(1) by (auto simp: u_rest_def)
  have n: "unat n < 4294967296" using unsigned_less [of n, where ?'a = nat] by simp
  have w: "unat (of_nat (u_ind u + 4) + n) = (u_ind u + 4 + unat n) mod 4294967296"
    using v by (simp add: unat_word_ariths unat_of_nat mod_add_left_eq)
  have "(of_nat (u_sz u) < of_nat (u_ind u + 4) + n) \<longleftrightarrow> length (u_buf u) < (u_ind u + 4 + unat n) mod 4294967296"
    unfolding word_less_nat_alt w using v by (simp add: unat_of_nat)
  also have "\<dots> \<longleftrightarrow> u_ind u + 4 + unat n < 4294967296 \<and> length r < unat n"
    using v n r(1) by (auto simp: mod_if le_mod_geq)
  finally have c: "(of_nat (u_sz u) < of_nat (u_ind u + 4) + n) \<longleftrightarrow> u_ind u + 4 + unat n < 4294967296 \<and> length r < unat n" .
  have "get_string u = u_rawbytes n [] ?v" using g v(4) by (simp add: get_string_def)
  also have "\<dots> = (if u_ind u + 4 + unat n < 4294967296 \<and> length r < unat n then Inr ([], ?v\<lparr>u_ok := False\<rparr>)
      else if length (u_buf u) < u_ind u + 4 + unat n then Inl Out_Of_Bounds
      else Inr (string_of_bytes (take (unat n) r), ?v\<lparr>u_ind := u_ind u + 4 + unat n\<rparr>))"
    using c r(2) by (simp add: u_rawbytes_def)
  finally show ?thesis using v r(1) n by auto
qed

lemma get_string_wraps_witness:
  "get_string (take_in (unmarshall_of (replicate 24 0 @ [255, 255, 255, 255] @ [104, 105]))) = Inl Out_Of_Bounds"
  using get_string_wraps [of "take_in (unmarshall_of (replicate 24 0 @ [255, 255, 255, 255] @ [104, 105]))" "0xFFFFFFFF" "[104, 105]"]
  by (simp add: take_in_def unmarshall_of_def u_good_def u_rest_def be32_def)

end
