(* ===== verification/Rpc_Stubs.thy ===== *)
theory Rpc_Stubs
  imports Marshall
begin

text \<open>
  The templates of \<^verbatim>\<open>src/rpc/rpc.h\<close>: \<^verbatim>\<open>rpcc::call\<close> with up to seven arguments on the client, and the
  handlers that \<^verbatim>\<open>rpcs::reg\<close> builds around a method with up to seven arguments on the server.  A
  template parameter becomes the operators \<open>put\<close> and \<open>get\<close> of the type; the transport \<^verbatim>\<open>call1\<close> and the
  method are arguments.  Every arity is the unary stub over a tuple, so the locale \<open>rpc_link\<close> states
  once what a transport has to do for a remote call to be the method call.
\<close>

section \<open>Constants\<close>

abbreviation bind_proc :: u32 where "bind_proc \<equiv> 1"
abbreviation timeout_failure :: int where "timeout_failure \<equiv> -1"
abbreviation unmarshal_args_failure :: int where "unmarshal_args_failure \<equiv> -2"
abbreviation unmarshal_reply_failure :: int where "unmarshal_reply_failure \<equiv> -3"
abbreviation atmostonce_failure :: int where "atmostonce_failure \<equiv> -4"
abbreviation oldsrv_failure :: int where "oldsrv_failure \<equiv> -5"
abbreviation bind_failure :: int where "bind_failure \<equiv> -6"
abbreviation cancel_failure :: int where "cancel_failure \<equiv> -7"

section \<open>Client stubs\<close>

text \<open>
  A transport takes the procedure, the marshalled arguments and the timeout, and returns the status
  and the reply to be read.  \<open>r\<close> is the value of the reference argument before the call.
\<close>

type_synonym 's transport = "u32 \<Rightarrow> marshall \<Rightarrow> int \<Rightarrow> ('s, int \<times> unmarshall) op"
type_synonym 'a putter = "'a \<Rightarrow> marshall \<Rightarrow> marshall res"
type_synonym 'a getter = "unmarshall \<Rightarrow> ('a \<times> unmarshall) res"

definition call_m :: "'s transport \<Rightarrow> 'r getter \<Rightarrow> u32 \<Rightarrow> marshall \<Rightarrow> 'r \<Rightarrow> int \<Rightarrow> ('s, int \<times> 'r) op" where
  "call_m call1 get proc req r to s =
     rbind (call1 proc req to s) (\<lambda>((intret, u), s).
     if intret < 0 then Inr ((intret, r), s)
     else rbind (get u) (\<lambda>(r, u).
       if \<not> okdone u then Inl Verify_Failed else Inr ((intret, r), s)))"

definition rpc_call0 :: "'s transport \<Rightarrow> (nat \<Rightarrow> byte) \<Rightarrow> 'r getter \<Rightarrow> u32 \<Rightarrow> 'r \<Rightarrow> int \<Rightarrow> ('s, int \<times> 'r) op" where
  "rpc_call0 call1 junk get proc r to s =
     call_m call1 get proc (marshall_init junk) r to s"

definition rpc_call1 :: "'s transport \<Rightarrow> (nat \<Rightarrow> byte) \<Rightarrow> 'a putter \<Rightarrow> 'r getter \<Rightarrow> u32 \<Rightarrow> 'a \<Rightarrow> 'r \<Rightarrow> int \<Rightarrow> ('s, int \<times> 'r) op" where
  "rpc_call1 call1 junk p1 get proc a1 r to s =
     rbind (p1 a1 (marshall_init junk)) (\<lambda>m.
     call_m call1 get proc m r to s)"

definition rpc_call2 :: "'s transport \<Rightarrow> (nat \<Rightarrow> byte) \<Rightarrow> 'a putter \<Rightarrow> 'b putter \<Rightarrow> 'r getter \<Rightarrow> u32 \<Rightarrow> 'a \<Rightarrow> 'b \<Rightarrow> 'r \<Rightarrow> int \<Rightarrow> ('s, int \<times> 'r) op" where
  "rpc_call2 call1 junk p1 p2 get proc a1 a2 r to s =
     rbind (p1 a1 (marshall_init junk)) (\<lambda>m.
     rbind (p2 a2 m) (\<lambda>m.
     call_m call1 get proc m r to s))"

definition rpc_call3 :: "'s transport \<Rightarrow> (nat \<Rightarrow> byte) \<Rightarrow> 'a putter \<Rightarrow> 'b putter \<Rightarrow> 'c putter \<Rightarrow> 'r getter \<Rightarrow> u32 \<Rightarrow> 'a \<Rightarrow> 'b \<Rightarrow> 'c \<Rightarrow> 'r \<Rightarrow> int \<Rightarrow> ('s, int \<times> 'r) op" where
  "rpc_call3 call1 junk p1 p2 p3 get proc a1 a2 a3 r to s =
     rbind (p1 a1 (marshall_init junk)) (\<lambda>m.
     rbind (p2 a2 m) (\<lambda>m.
     rbind (p3 a3 m) (\<lambda>m.
     call_m call1 get proc m r to s)))"

definition rpc_call4 :: "'s transport \<Rightarrow> (nat \<Rightarrow> byte) \<Rightarrow> 'a putter \<Rightarrow> 'b putter \<Rightarrow> 'c putter \<Rightarrow> 'd putter \<Rightarrow> 'r getter \<Rightarrow> u32 \<Rightarrow> 'a \<Rightarrow> 'b \<Rightarrow> 'c \<Rightarrow> 'd \<Rightarrow> 'r \<Rightarrow> int \<Rightarrow> ('s, int \<times> 'r) op" where
  "rpc_call4 call1 junk p1 p2 p3 p4 get proc a1 a2 a3 a4 r to s =
     rbind (p1 a1 (marshall_init junk)) (\<lambda>m.
     rbind (p2 a2 m) (\<lambda>m.
     rbind (p3 a3 m) (\<lambda>m.
     rbind (p4 a4 m) (\<lambda>m.
     call_m call1 get proc m r to s))))"

definition rpc_call5 :: "'s transport \<Rightarrow> (nat \<Rightarrow> byte) \<Rightarrow> 'a putter \<Rightarrow> 'b putter \<Rightarrow> 'c putter \<Rightarrow> 'd putter \<Rightarrow> 'e putter \<Rightarrow> 'r getter \<Rightarrow> u32 \<Rightarrow> 'a \<Rightarrow> 'b \<Rightarrow> 'c \<Rightarrow> 'd \<Rightarrow> 'e \<Rightarrow> 'r \<Rightarrow> int \<Rightarrow> ('s, int \<times> 'r) op" where
  "rpc_call5 call1 junk p1 p2 p3 p4 p5 get proc a1 a2 a3 a4 a5 r to s =
     rbind (p1 a1 (marshall_init junk)) (\<lambda>m.
     rbind (p2 a2 m) (\<lambda>m.
     rbind (p3 a3 m) (\<lambda>m.
     rbind (p4 a4 m) (\<lambda>m.
     rbind (p5 a5 m) (\<lambda>m.
     call_m call1 get proc m r to s)))))"

definition rpc_call6 :: "'s transport \<Rightarrow> (nat \<Rightarrow> byte) \<Rightarrow> 'a putter \<Rightarrow> 'b putter \<Rightarrow> 'c putter \<Rightarrow> 'd putter \<Rightarrow> 'e putter \<Rightarrow> 'f putter \<Rightarrow> 'r getter \<Rightarrow> u32 \<Rightarrow> 'a \<Rightarrow> 'b \<Rightarrow> 'c \<Rightarrow> 'd \<Rightarrow> 'e \<Rightarrow> 'f \<Rightarrow> 'r \<Rightarrow> int \<Rightarrow> ('s, int \<times> 'r) op" where
  "rpc_call6 call1 junk p1 p2 p3 p4 p5 p6 get proc a1 a2 a3 a4 a5 a6 r to s =
     rbind (p1 a1 (marshall_init junk)) (\<lambda>m.
     rbind (p2 a2 m) (\<lambda>m.
     rbind (p3 a3 m) (\<lambda>m.
     rbind (p4 a4 m) (\<lambda>m.
     rbind (p5 a5 m) (\<lambda>m.
     rbind (p6 a6 m) (\<lambda>m.
     call_m call1 get proc m r to s))))))"

definition rpc_call7 :: "'s transport \<Rightarrow> (nat \<Rightarrow> byte) \<Rightarrow> 'a putter \<Rightarrow> 'b putter \<Rightarrow> 'c putter \<Rightarrow> 'd putter \<Rightarrow> 'e putter \<Rightarrow> 'f putter \<Rightarrow> 'g putter \<Rightarrow> 'r getter \<Rightarrow> u32 \<Rightarrow> 'a \<Rightarrow> 'b \<Rightarrow> 'c \<Rightarrow> 'd \<Rightarrow> 'e \<Rightarrow> 'f \<Rightarrow> 'g \<Rightarrow> 'r \<Rightarrow> int \<Rightarrow> ('s, int \<times> 'r) op" where
  "rpc_call7 call1 junk p1 p2 p3 p4 p5 p6 p7 get proc a1 a2 a3 a4 a5 a6 a7 r to s =
     rbind (p1 a1 (marshall_init junk)) (\<lambda>m.
     rbind (p2 a2 m) (\<lambda>m.
     rbind (p3 a3 m) (\<lambda>m.
     rbind (p4 a4 m) (\<lambda>m.
     rbind (p5 a5 m) (\<lambda>m.
     rbind (p6 a6 m) (\<lambda>m.
     rbind (p7 a7 m) (\<lambda>m.
     call_m call1 get proc m r to s)))))))"

section \<open>Handlers\<close>

text \<open>
  A handler reads the arguments, calls the method and writes the result behind the reply header.  \<open>r\<close>
  is the uninitialised local variable the method's reference argument is bound to.
\<close>

type_synonym 's handler = "unmarshall \<Rightarrow> marshall \<Rightarrow> ('s, int \<times> marshall) op"

definition handler1 :: "'a getter \<Rightarrow> 'r putter \<Rightarrow> ('a \<Rightarrow> 'r \<Rightarrow> ('s, int \<times> 'r) op) \<Rightarrow> 'r \<Rightarrow> 's handler" where
  "handler1 g1 put meth r args rep s =
     rbind (g1 args) (\<lambda>(a1, args).
     if \<not> okdone args then Inr ((unmarshal_args_failure, rep), s)
     else rbind (meth a1 r s) (\<lambda>((b, r), s).
       rbind (put r rep) (\<lambda>rep. Inr ((b, rep), s))))"

definition handler2 :: "'a getter \<Rightarrow> 'b getter \<Rightarrow> 'r putter \<Rightarrow> ('a \<Rightarrow> 'b \<Rightarrow> 'r \<Rightarrow> ('s, int \<times> 'r) op) \<Rightarrow> 'r \<Rightarrow> 's handler" where
  "handler2 g1 g2 put meth r args rep s =
     rbind (g1 args) (\<lambda>(a1, args).
     rbind (g2 args) (\<lambda>(a2, args).
     if \<not> okdone args then Inr ((unmarshal_args_failure, rep), s)
     else rbind (meth a1 a2 r s) (\<lambda>((b, r), s).
       rbind (put r rep) (\<lambda>rep. Inr ((b, rep), s)))))"

definition handler3 :: "'a getter \<Rightarrow> 'b getter \<Rightarrow> 'c getter \<Rightarrow> 'r putter \<Rightarrow> ('a \<Rightarrow> 'b \<Rightarrow> 'c \<Rightarrow> 'r \<Rightarrow> ('s, int \<times> 'r) op) \<Rightarrow> 'r \<Rightarrow> 's handler" where
  "handler3 g1 g2 g3 put meth r args rep s =
     rbind (g1 args) (\<lambda>(a1, args).
     rbind (g2 args) (\<lambda>(a2, args).
     rbind (g3 args) (\<lambda>(a3, args).
     if \<not> okdone args then Inr ((unmarshal_args_failure, rep), s)
     else rbind (meth a1 a2 a3 r s) (\<lambda>((b, r), s).
       rbind (put r rep) (\<lambda>rep. Inr ((b, rep), s))))))"

definition handler4 :: "'a getter \<Rightarrow> 'b getter \<Rightarrow> 'c getter \<Rightarrow> 'd getter \<Rightarrow> 'r putter \<Rightarrow> ('a \<Rightarrow> 'b \<Rightarrow> 'c \<Rightarrow> 'd \<Rightarrow> 'r \<Rightarrow> ('s, int \<times> 'r) op) \<Rightarrow> 'r \<Rightarrow> 's handler" where
  "handler4 g1 g2 g3 g4 put meth r args rep s =
     rbind (g1 args) (\<lambda>(a1, args).
     rbind (g2 args) (\<lambda>(a2, args).
     rbind (g3 args) (\<lambda>(a3, args).
     rbind (g4 args) (\<lambda>(a4, args).
     if \<not> okdone args then Inr ((unmarshal_args_failure, rep), s)
     else rbind (meth a1 a2 a3 a4 r s) (\<lambda>((b, r), s).
       rbind (put r rep) (\<lambda>rep. Inr ((b, rep), s)))))))"

definition handler5 :: "'a getter \<Rightarrow> 'b getter \<Rightarrow> 'c getter \<Rightarrow> 'd getter \<Rightarrow> 'e getter \<Rightarrow> 'r putter \<Rightarrow> ('a \<Rightarrow> 'b \<Rightarrow> 'c \<Rightarrow> 'd \<Rightarrow> 'e \<Rightarrow> 'r \<Rightarrow> ('s, int \<times> 'r) op) \<Rightarrow> 'r \<Rightarrow> 's handler" where
  "handler5 g1 g2 g3 g4 g5 put meth r args rep s =
     rbind (g1 args) (\<lambda>(a1, args).
     rbind (g2 args) (\<lambda>(a2, args).
     rbind (g3 args) (\<lambda>(a3, args).
     rbind (g4 args) (\<lambda>(a4, args).
     rbind (g5 args) (\<lambda>(a5, args).
     if \<not> okdone args then Inr ((unmarshal_args_failure, rep), s)
     else rbind (meth a1 a2 a3 a4 a5 r s) (\<lambda>((b, r), s).
       rbind (put r rep) (\<lambda>rep. Inr ((b, rep), s))))))))"

definition handler6 :: "'a getter \<Rightarrow> 'b getter \<Rightarrow> 'c getter \<Rightarrow> 'd getter \<Rightarrow> 'e getter \<Rightarrow> 'f getter \<Rightarrow> 'r putter \<Rightarrow> ('a \<Rightarrow> 'b \<Rightarrow> 'c \<Rightarrow> 'd \<Rightarrow> 'e \<Rightarrow> 'f \<Rightarrow> 'r \<Rightarrow> ('s, int \<times> 'r) op) \<Rightarrow> 'r \<Rightarrow> 's handler" where
  "handler6 g1 g2 g3 g4 g5 g6 put meth r args rep s =
     rbind (g1 args) (\<lambda>(a1, args).
     rbind (g2 args) (\<lambda>(a2, args).
     rbind (g3 args) (\<lambda>(a3, args).
     rbind (g4 args) (\<lambda>(a4, args).
     rbind (g5 args) (\<lambda>(a5, args).
     rbind (g6 args) (\<lambda>(a6, args).
     if \<not> okdone args then Inr ((unmarshal_args_failure, rep), s)
     else rbind (meth a1 a2 a3 a4 a5 a6 r s) (\<lambda>((b, r), s).
       rbind (put r rep) (\<lambda>rep. Inr ((b, rep), s)))))))))"

definition handler7 :: "'a getter \<Rightarrow> 'b getter \<Rightarrow> 'c getter \<Rightarrow> 'd getter \<Rightarrow> 'e getter \<Rightarrow> 'f getter \<Rightarrow> 'g getter \<Rightarrow> 'r putter \<Rightarrow> ('a \<Rightarrow> 'b \<Rightarrow> 'c \<Rightarrow> 'd \<Rightarrow> 'e \<Rightarrow> 'f \<Rightarrow> 'g \<Rightarrow> 'r \<Rightarrow> ('s, int \<times> 'r) op) \<Rightarrow> 'r \<Rightarrow> 's handler" where
  "handler7 g1 g2 g3 g4 g5 g6 g7 put meth r args rep s =
     rbind (g1 args) (\<lambda>(a1, args).
     rbind (g2 args) (\<lambda>(a2, args).
     rbind (g3 args) (\<lambda>(a3, args).
     rbind (g4 args) (\<lambda>(a4, args).
     rbind (g5 args) (\<lambda>(a5, args).
     rbind (g6 args) (\<lambda>(a6, args).
     rbind (g7 args) (\<lambda>(a7, args).
     if \<not> okdone args then Inr ((unmarshal_args_failure, rep), s)
     else rbind (meth a1 a2 a3 a4 a5 a6 a7 r s) (\<lambda>((b, r), s).
       rbind (put r rep) (\<lambda>rep. Inr ((b, rep), s))))))))))"

section \<open>All arities are the unary stub over a tuple\<close>

lemma rbind_assoc: "rbind (rbind m f) g = rbind m (\<lambda>x. rbind (f x) g)"
  by (cases m) simp_all

lemma rbind_case: "rbind (case x of (a, b) \<Rightarrow> f a b) g = (case x of (a, b) \<Rightarrow> rbind (f a b) g)"
  by (cases x) simp

lemma rpc_call_tuple:
  "rpc_call2 call1 junk p1 p2 get proc a1 a2 r to s = rpc_call1 call1 junk (put_pair p1 p2) get proc (a1, a2) r to s"
  "rpc_call3 call1 junk p1 p2 p3 get proc a1 a2 a3 r to s = rpc_call1 call1 junk (put_pair p1 (put_pair p2 p3)) get proc (a1, a2, a3) r to s"
  "rpc_call4 call1 junk p1 p2 p3 p4 get proc a1 a2 a3 a4 r to s = rpc_call1 call1 junk (put_pair p1 (put_pair p2 (put_pair p3 p4))) get proc (a1, a2, a3, a4) r to s"
  "rpc_call5 call1 junk p1 p2 p3 p4 p5 get proc a1 a2 a3 a4 a5 r to s = rpc_call1 call1 junk (put_pair p1 (put_pair p2 (put_pair p3 (put_pair p4 p5)))) get proc (a1, a2, a3, a4, a5) r to s"
  "rpc_call6 call1 junk p1 p2 p3 p4 p5 p6 get proc a1 a2 a3 a4 a5 a6 r to s = rpc_call1 call1 junk (put_pair p1 (put_pair p2 (put_pair p3 (put_pair p4 (put_pair p5 p6))))) get proc (a1, a2, a3, a4, a5, a6) r to s"
  "rpc_call7 call1 junk p1 p2 p3 p4 p5 p6 p7 get proc a1 a2 a3 a4 a5 a6 a7 r to s = rpc_call1 call1 junk (put_pair p1 (put_pair p2 (put_pair p3 (put_pair p4 (put_pair p5 (put_pair p6 p7)))))) get proc (a1, a2, a3, a4, a5, a6, a7) r to s"
  by (simp_all add: rpc_call1_def put_pair_def rbind_assoc
    rpc_call2_def rpc_call3_def rpc_call4_def rpc_call5_def rpc_call6_def rpc_call7_def)

lemma handler_tuple:
  "handler2 g1 g2 put meth2 r args rep s = handler1 (get_pair g1 g2) put (\<lambda>(a1, a2). meth2 a1 a2) r args rep s"
  "handler3 g1 g2 g3 put meth3 r args rep s = handler1 (get_pair g1 (get_pair g2 g3)) put (\<lambda>(a1, a2, a3). meth3 a1 a2 a3) r args rep s"
  "handler4 g1 g2 g3 g4 put meth4 r args rep s = handler1 (get_pair g1 (get_pair g2 (get_pair g3 g4))) put (\<lambda>(a1, a2, a3, a4). meth4 a1 a2 a3 a4) r args rep s"
  "handler5 g1 g2 g3 g4 g5 put meth5 r args rep s = handler1 (get_pair g1 (get_pair g2 (get_pair g3 (get_pair g4 g5)))) put (\<lambda>(a1, a2, a3, a4, a5). meth5 a1 a2 a3 a4 a5) r args rep s"
  "handler6 g1 g2 g3 g4 g5 g6 put meth6 r args rep s = handler1 (get_pair g1 (get_pair g2 (get_pair g3 (get_pair g4 (get_pair g5 g6))))) put (\<lambda>(a1, a2, a3, a4, a5, a6). meth6 a1 a2 a3 a4 a5 a6) r args rep s"
  "handler7 g1 g2 g3 g4 g5 g6 g7 put meth7 r args rep s = handler1 (get_pair g1 (get_pair g2 (get_pair g3 (get_pair g4 (get_pair g5 (get_pair g6 g7)))))) put (\<lambda>(a1, a2, a3, a4, a5, a6, a7). meth7 a1 a2 a3 a4 a5 a6 a7) r args rep s"
  by (simp_all add: handler1_def get_pair_def rbind_assoc split_def
    handler2_def handler3_def handler4_def handler5_def handler6_def handler7_def cong: if_cong)

section \<open>Transparency\<close>

text \<open>
  A transport is a link to a table of handlers: \<open>n\<close> more calls can be made in a state that is \<open>good n\<close>,
  and each carries the arguments behind the header to the handler and its answer back.
\<close>

locale rpc_link =
  fixes call1 :: "'s transport" and junk :: "nat \<Rightarrow> byte" and handlers :: "'s \<Rightarrow> u32 \<rightharpoonup> 'o handler" and obj :: "'s \<Rightarrow> 'o"
    and good :: "nat \<Rightarrow> 's \<Rightarrow> bool"
  assumes deliver: "good (Suc n) s \<Longrightarrow> 0 \<le> to \<Longrightarrow> handlers s proc = Some f \<Longrightarrow> proc \<noteq> bind_proc \<Longrightarrow> message m \<Longrightarrow>
    (\<And>u. u_good u \<Longrightarrow> u_rest u = drop 24 (take_buf m) \<Longrightarrow> f u (marshall_init junk) (obj s) = Inr ((b, rep), o')) \<Longrightarrow>
    0 \<le> b \<Longrightarrow> int32 b \<Longrightarrow> message rep \<Longrightarrow>
    \<exists>s' u. call1 proc m to s = Inr ((b, u), s') \<and> good n s' \<and> handlers s' = handlers s \<and> obj s' = o' \<and>
      u_good u \<and> u_rest u = drop 24 (take_buf rep)"
begin

lemma remote_call:
  assumes "codec pa ga ea da" "codec pr gr er dr" "handlers s proc = Some (handler1 ga pr meth r0)" "proc \<noteq> bind_proc"
    "good (Suc n) s" "0 \<le> to" "da a" "length (ea a) < 2147483000"
    "meth a r0 (obj s) = Inr ((b, r'), o')" "dr r'" "length (er r') < 2147483000" "0 \<le> b" "int32 b"
  shows "\<exists>s'. rpc_call1 call1 junk pa gr proc a r to s = Inr ((b, r'), s') \<and> good n s' \<and> handlers s' = handlers s \<and> obj s' = o'"
proof -
  obtain m where m: "pa a (marshall_init junk) = Inr m" "message m" "drop 24 (take_buf m) = ea a"
    using codec.put_message [OF assms(1,7), of junk] assms(8) by (auto simp: message_def)
  obtain rep where rep: "pr r' (marshall_init junk) = Inr rep" "message rep" "drop 24 (take_buf rep) = er r'"
    using codec.put_message [OF assms(2,10), of junk] assms(11) by (auto simp: message_def)
  have f: "handler1 ga pr meth r0 u (marshall_init junk) (obj s) = Inr ((b, rep), o')"
    if u: "u_good u" "u_rest u = drop 24 (take_buf m)" for u
  proof -
    obtain u' where "ga u = Inr (a, u')" "u_good u'" "u_rest u' = []"
      using codec.get_law [OF assms(1) u(1) assms(7), of "[]"] u(2) m(3) by auto
    with assms(9) rep(1) okdone_iff show ?thesis by (simp add: handler1_def)
  qed
  obtain s' u where s': "call1 proc m to s = Inr ((b, u), s')" "good n s'" "handlers s' = handlers s" "obj s' = o'"
    "u_good u" "u_rest u = er r' @ []"
    using deliver [OF assms(5,6,3,4) m(2) f assms(12,13) rep(2)] rep(3) by auto
  obtain u' where "gr u = Inr (r', u')" "u_good u'" "u_rest u' = []"
    using codec.get_law [OF assms(2) s'(5) assms(10) s'(6)] by auto
  with s' m(1) assms(12) okdone_iff show ?thesis by (simp add: rpc_call1_def call_m_def)
qed

end

end
