(* ===== verification/Rpc_Server.thy ===== *)
theory Rpc_Server
  imports Rpc_Stubs
begin

text \<open>
  The server end of the RPC library (\<^verbatim>\<open>class rpcs\<close> of \<^verbatim>\<open>src/rpc/rpc.h\<close> and \<^verbatim>\<open>src/rpc/rpc.cc\<close>): the table
  of handlers, the statistics, the window of replies kept per client, and the dispatch of a request.
  A connection is a number; what the connection layer answers (\<^verbatim>\<open>isdead\<close>, \<^verbatim>\<open>compare\<close>) is a parameter
  and what is sent on it is an output.  Reference counts are kept, since \<^verbatim>\<open>dispatch\<close> takes and drops
  them.  The body of the handler runs outside every mutex, so a dispatch is two atomic parts around
  it; the step relation \<open>srv_step\<close> interleaves the parts of any number of dispatches.
\<close>

section \<open>State\<close>

datatype rpcstate = NEW | INPROGRESS | DONE | FORGOTTEN

text \<open>\<open>r_buf\<close> holds the \<^verbatim>\<open>sz\<close> bytes at \<^verbatim>\<open>buf\<close>.\<close>

record reply_t =
  r_xid :: u32
  cb_present :: bool
  r_buf :: "byte list"

type_synonym conn = nat

record net =
  isdead :: "conn \<Rightarrow> bool"
  conn_compare :: "conn \<Rightarrow> conn \<Rightarrow> int"

record 's rpcs =
  srv_nonce :: u32
  reply_window :: "u32 \<rightharpoonup> reply_t list"
  conns :: "u32 \<rightharpoonup> conn"
  counting :: int
  curr_counts :: int
  counts :: "u32 \<Rightarrow> int"
  srv_reachable :: bool
  procs :: "u32 \<rightharpoonup> 's handler"
  refs :: "conn \<Rightarrow> int"
  jobs :: "(conn \<times> byte list) list"

definition reply_t_new :: "u32 \<Rightarrow> reply_t" where
  "reply_t_new xid = \<lparr>r_xid = xid, cb_present = False, r_buf = []\<rparr>"

text \<open>\<^verbatim>\<open>reply_window_[clt_nonce]\<close>, which creates an empty list.\<close>

definition window_of :: "'s rpcs \<Rightarrow> u32 \<Rightarrow> reply_t list" where
  "window_of srv clt = (case reply_window srv clt of Some w \<Rightarrow> w | None \<Rightarrow> [])"

definition incref :: "conn \<Rightarrow> 's rpcs \<Rightarrow> 's rpcs" where
  "incref c srv = srv\<lparr>refs := (refs srv)(c := refs srv c + 1)\<rparr>"

definition decref :: "conn \<Rightarrow> 's rpcs \<Rightarrow> 's rpcs" where
  "decref c srv = srv\<lparr>refs := (refs srv)(c := refs srv c - 1)\<rparr>"

section \<open>Registration\<close>

definition reg1 :: "u32 \<Rightarrow> 's handler \<Rightarrow> 's rpcs \<Rightarrow> 's rpcs res" where
  "reg1 proc h srv =
     (if procs srv proc \<noteq> None then Inl Verify_Failed else Inr (srv\<lparr>procs := (procs srv)(proc \<mapsto> h)\<rparr>))"

definition rpcbind :: "u32 \<Rightarrow> int \<Rightarrow> int \<Rightarrow> ('s, int \<times> int) op" where
  "rpcbind nonce a r s = Inr ((0, sint nonce), s)"

text \<open>The constructor; \<open>nonce\<close> is what \<^verbatim>\<open>random()\<close> returned, \<open>r\<close> the handler's uninitialised local.\<close>

definition rpcs_init :: "(nat \<Rightarrow> byte) \<Rightarrow> u32 \<Rightarrow> int \<Rightarrow> int \<Rightarrow> 's rpcs res" where
  "rpcs_init junk nonce count r =
     reg1 bind_proc (handler1 get_int (put_int junk) (rpcbind nonce) r)
       \<lparr>srv_nonce = nonce, reply_window = Map.empty, conns = Map.empty, counting = count, curr_counts = count,
        counts = (\<lambda>_. 0), srv_reachable = True, procs = Map.empty, refs = (\<lambda>_. 0), jobs = []\<rparr>"

section \<open>The reply window\<close>

fun insert_reply :: "reply_t \<Rightarrow> reply_t list \<Rightarrow> reply_t list" where
  "insert_reply reply [] = [reply]"
| "insert_reply reply (r # rs) = (if r_xid reply < r_xid r then reply # r # rs else r # insert_reply reply rs)"

definition check_window :: "u32 \<Rightarrow> u32 \<Rightarrow> reply_t list \<Rightarrow> rpcstate \<times> byte list \<times> reply_t list" where
  "check_window xid xid_rep rlist =
     (case find (\<lambda>r. r_xid r = xid) rlist of
        Some r \<Rightarrow> if cb_present r then (DONE, r_buf r, rlist) else (INPROGRESS, [], rlist)
      | None \<Rightarrow>
          if rlist \<noteq> [] \<and> xid < r_xid (hd rlist) then (FORGOTTEN, [], rlist)
          else (NEW, [], dropWhile (\<lambda>r. r_xid r < xid_rep) (insert_reply (reply_t_new xid) rlist)))"

definition checkduplicate_and_update :: "u32 \<Rightarrow> u32 \<Rightarrow> u32 \<Rightarrow> 's rpcs \<Rightarrow> rpcstate \<times> byte list \<times> 's rpcs" where
  "checkduplicate_and_update clt_nonce xid xid_rep srv =
     (let (stat, b, w) = check_window xid xid_rep (window_of srv clt_nonce)
      in (stat, b, srv\<lparr>reply_window := (reply_window srv)(clt_nonce \<mapsto> w)\<rparr>))"

definition add_to_window :: "u32 \<Rightarrow> byte list \<Rightarrow> reply_t list \<Rightarrow> reply_t list" where
  "add_to_window xid b = map (\<lambda>r. if r_xid r = xid then r\<lparr>r_buf := b, cb_present := True\<rparr> else r)"

definition add_reply :: "u32 \<Rightarrow> u32 \<Rightarrow> byte list \<Rightarrow> 's rpcs \<Rightarrow> 's rpcs" where
  "add_reply clt_nonce xid b srv =
     srv\<lparr>reply_window := (reply_window srv)(clt_nonce \<mapsto> add_to_window xid b (window_of srv clt_nonce))\<rparr>"

definition free_reply_window :: "'s rpcs \<Rightarrow> 's rpcs" where
  "free_reply_window srv = srv\<lparr>reply_window := Map.empty\<rparr>"

section \<open>Dispatch\<close>

definition updatestat :: "u32 \<Rightarrow> 's rpcs \<Rightarrow> 's rpcs" where
  "updatestat proc srv =
     (let n = curr_counts srv - 1
      in srv\<lparr>counts := (counts srv)(proc := counts srv proc + 1), curr_counts := (if n = 0 then counting srv else n)\<rparr>)"

text \<open>The latest good connection to the client.\<close>

definition save_conn :: "net \<Rightarrow> u32 \<Rightarrow> conn \<Rightarrow> 's rpcs \<Rightarrow> 's rpcs" where
  "save_conn net clt_nonce c srv =
     (case conns srv clt_nonce of
        None \<Rightarrow> (incref c srv)\<lparr>conns := (conns srv)(clt_nonce \<mapsto> c)\<rparr>
      | Some c0 \<Rightarrow>
          if conn_compare net c0 c < 0 then (incref c (decref c0 srv))\<lparr>conns := (conns srv)(clt_nonce \<mapsto> c)\<rparr> else srv)"

text \<open>Packs the header into a reply and sends it.\<close>

definition reply_bytes :: "(nat \<Rightarrow> byte) \<Rightarrow> reply_header \<Rightarrow> marshall \<Rightarrow> byte list res" where
  "reply_bytes junk rh rep = rbind (pack_reply_header junk rh rep) (\<lambda>rep. Inr (take_buf rep))"

text \<open>What a dispatch does before its handler runs: it is over, having sent something, or goes on.\<close>

datatype 's begun = Over "(conn \<times> byte list) list" | Execute req_header unmarshall "'s handler"

definition dispatch_begin :: "(nat \<Rightarrow> byte) \<Rightarrow> net \<Rightarrow> conn \<Rightarrow> byte list \<Rightarrow> ('s rpcs, 's begun) op" where
  "dispatch_begin junk net c buf srv =
     (let (h, req) = unpack_req_header (unmarshall_of buf)
      in if \<not> u_ok req then Inr (Over [], decref c srv)
      else if rq_srv_nonce h \<noteq> 0 \<and> rq_srv_nonce h \<noteq> srv_nonce srv then
        rbind (reply_bytes junk \<lparr>rh_xid = rq_xid h, rh_ret = oldsrv_failure\<rparr> (marshall_init junk)) (\<lambda>b.
        Inr (Over [(c, b)], srv))
      else case procs srv (rq_proc h) of
        None \<Rightarrow> Inl Verify_Failed
      | Some f \<Rightarrow>
          let (stat, b1, srv) =
            (if rq_clt_nonce h \<noteq> 0 then
               checkduplicate_and_update (rq_clt_nonce h) (rq_xid h) (rq_xid_rep h) (save_conn net (rq_clt_nonce h) c srv)
             else (NEW, [], srv))
          in (case stat of
                NEW \<Rightarrow> Inr (Execute h req f, if counting srv \<noteq> 0 then updatestat (rq_proc h) srv else srv)
              | INPROGRESS \<Rightarrow> Inr (Over [], decref c srv)
              | DONE \<Rightarrow> Inr (Over [(c, b1)], decref c srv)
              | FORGOTTEN \<Rightarrow>
                  rbind (reply_bytes junk \<lparr>rh_xid = rq_xid h, rh_ret = atmostonce_failure\<rparr> (marshall_init junk)) (\<lambda>b.
                  Inr (Over [(c, b)], decref c srv))))"

text \<open>
  What it does after the handler has returned \<open>b\<close> and filled \<open>rep\<close>.  For a client without nonce,
  \<^verbatim>\<open>conns_[0]\<close> is a null pointer.
\<close>

definition dispatch_end :: "(nat \<Rightarrow> byte) \<Rightarrow> net \<Rightarrow> conn \<Rightarrow> req_header \<Rightarrow> int \<Rightarrow> marshall \<Rightarrow> ('s rpcs, (conn \<times> byte list) list) op" where
  "dispatch_end junk net c h b rep srv =
     (if b < 0 then Inl Verify_Failed
      else rbind (reply_bytes junk \<lparr>rh_xid = rq_xid h, rh_ret = b\<rparr> rep) (\<lambda>b1.
        let srv = (if rq_clt_nonce h > 0 then add_reply (rq_clt_nonce h) (rq_xid h) b1 srv else srv)
        in if isdead net c \<and> conns srv (rq_clt_nonce h) \<noteq> Some c then
             (case conns srv (rq_clt_nonce h) of
                None \<Rightarrow> Inl Null_Deref
              | Some c' \<Rightarrow> Inr ([(c', b1)], decref c' (incref c' (decref c srv))))
           else Inr ([(c, b1)], decref c srv)))"

definition dispatch :: "(nat \<Rightarrow> byte) \<Rightarrow> net \<Rightarrow> conn \<Rightarrow> byte list \<Rightarrow> ('s rpcs \<times> 's, (conn \<times> byte list) list) op" where
  "dispatch junk net c buf = (\<lambda>(srv, obj).
     rbind (dispatch_begin junk net c buf srv) (\<lambda>(x, srv).
     case x of
       Over out \<Rightarrow> Inr (out, (srv, obj))
     | Execute h req f \<Rightarrow>
         rbind (f req (marshall_init junk) obj) (\<lambda>((b, rep), obj).
         rbind (dispatch_end junk net c h b rep srv) (\<lambda>(out, srv).
         Inr (out, (srv, obj))))))"

text \<open>\<open>room\<close> is the answer of the thread pool, which refuses a job when its queue is full.\<close>

definition srv_got_pdu :: "bool \<Rightarrow> conn \<Rightarrow> byte list \<Rightarrow> 's rpcs \<Rightarrow> bool \<times> 's rpcs" where
  "srv_got_pdu room c b srv =
     (if \<not> srv_reachable srv then (True, srv)
      else let srv = incref c srv
           in if room then (True, srv\<lparr>jobs := jobs srv @ [(c, b)]\<rparr>) else (False, decref c srv))"

section \<open>Windows\<close>

lemma set_insert_reply: "set (insert_reply r rs) = insert r (set rs)"
  by (induction rs) auto

lemma sorted_insert_reply:
  "sorted_wrt (<) (map r_xid rs) \<Longrightarrow> r_xid r \<notin> r_xid ` set rs \<Longrightarrow> sorted_wrt (<) (map r_xid (insert_reply r rs))"
  by (induction rs) (auto simp: set_insert_reply)

lemma hd_insert_reply: "rs \<noteq> [] \<Longrightarrow> r_xid (hd rs) \<le> r_xid r \<Longrightarrow> hd (insert_reply r rs) = hd rs"
  by (cases rs) auto

lemma hd_window_le: "sorted_wrt (<) (map r_xid w) \<Longrightarrow> r \<in> set w \<Longrightarrow> r_xid (hd w) \<le> r_xid r"
  by (cases w) auto

text \<open>
  \<open>seen\<close> is the set of requests accepted so far: each is still in the window or older than all of it.
\<close>

definition window_inv :: "u32 set \<Rightarrow> reply_t list \<Rightarrow> bool" where
  "window_inv seen w \<longleftrightarrow> sorted_wrt (<) (map r_xid w) \<and> r_xid ` set w \<subseteq> seen \<and>
     (\<forall>x \<in> seen. w \<noteq> [] \<and> (x \<in> r_xid ` set w \<or> x < r_xid (hd w)))"

lemma window_inv_empty: "window_inv {} []"
  by (simp add: window_inv_def)

lemma find_xid_None: "find (\<lambda>r. r_xid r = xid) w = None \<longleftrightarrow> xid \<notin> r_xid ` set w"
  by (auto simp: find_None_iff)

lemma check_window_new:
  assumes "window_inv seen w" "check_window xid xid_rep w = (NEW, b, w')" "xid_rep \<le> xid"
  shows "xid \<notin> seen" "window_inv (insert xid seen) w'"
proof -
  let ?r = "reply_t_new xid"
  have nf: "xid \<notin> r_xid ` set w" and no: "w = [] \<or> r_xid (hd w) \<le> xid"
    and w': "w' = dropWhile (\<lambda>r. r_xid r < xid_rep) (insert_reply ?r w)"
    using assms(2) by (auto simp: check_window_def find_xid_None [symmetric] split: option.splits if_splits)
  then show "xid \<notin> seen" using assms(1) by (auto simp: window_inv_def)
  let ?v = "insert_reply ?r w"
  have sv: "sorted_wrt (<) (map r_xid ?v)" and setv: "r_xid ` set ?v = insert xid (r_xid ` set w)"
    using assms(1) nf sorted_insert_reply [of w ?r] by (simp_all add: window_inv_def reply_t_new_def set_insert_reply)
  have suf: "?v = takeWhile (\<lambda>r. r_xid r < xid_rep) ?v @ w'" by (simp add: w')
  have rin: "?r \<in> set w'"
    using set_takeWhileD [of ?r "\<lambda>r. r_xid r < xid_rep" ?v] assms(3) set_insert_reply [of ?r w] suf
    by (metis Un_iff insertI1 leD reply_t.select_convs(1) reply_t_new_def set_append)
  then have ne: "w' \<noteq> []" by auto
  have sub: "set w' \<subseteq> set ?v" using set_dropWhileD w' by fast
  have ge: "xid_rep \<le> r_xid (hd w')" using hd_dropWhile [of "\<lambda>r. r_xid r < xid_rep" ?v] ne w' by (simp add: not_less)
  have s': "sorted_wrt (<) (map r_xid w')" using sv suf by (metis map_append sorted_wrt_append)
  have "x \<in> r_xid ` set w' \<or> x < r_xid (hd w')" if x: "x \<in> insert xid seen" for x
  proof (cases "x \<in> r_xid ` set ?v")
    case True
    then obtain r where r: "r \<in> set ?v" "r_xid r = x" by auto
    have "set ?v = set (takeWhile (\<lambda>r. r_xid r < xid_rep) ?v) \<union> set w'" using arg_cong [OF suf, of set] by simp
    with r have "r \<in> set w' \<or> x < xid_rep" using set_takeWhileD [of r "\<lambda>r. r_xid r < xid_rep" ?v] by blast
    with r(2) ge show ?thesis by (auto simp del: set_takeWhileD)
  next
    case False
    then have w: "w \<noteq> []" "x < r_xid (hd w)" using x setv assms(1) by (auto simp: window_inv_def)
    have "hd ?v = hd w" using no w(1) by (intro hd_insert_reply) (auto simp: reply_t_new_def)
    moreover have "r_xid (hd ?v) \<le> r_xid (hd w')" using hd_window_le [OF sv] hd_in_set [OF ne] sub by blast
    ultimately have "x < r_xid (hd w')" using w(2) by (simp only: order.strict_trans2)
    then show ?thesis ..
  qed
  moreover have "r_xid ` set w' \<subseteq> insert xid seen" using setv sub assms(1) by (auto simp: window_inv_def)
  ultimately show "window_inv (insert xid seen) w'" using s' ne by (simp add: window_inv_def)
qed

lemma check_window_other:
  assumes "check_window xid xid_rep w = (stat, b, w')" "stat \<noteq> NEW"
  shows "w' = w"
  using assms by (auto simp: check_window_def split: option.splits if_splits)

lemma add_to_window_inv: "window_inv seen (add_to_window xid b w) = window_inv seen w"
proof -
  have "map r_xid (add_to_window xid b w) = map r_xid w" by (simp add: add_to_window_def)
  then have "r_xid ` set (add_to_window xid b w) = r_xid ` set w" "add_to_window xid b w = [] \<longleftrightarrow> w = []"
    "w \<noteq> [] \<Longrightarrow> r_xid (hd (add_to_window xid b w)) = r_xid (hd w)"
    by (metis list.set_map) (simp_all add: add_to_window_def hd_map)
  with \<open>map r_xid (add_to_window xid b w) = map r_xid w\<close> show ?thesis by (auto simp: window_inv_def)
qed

lemma window_of_upd [simp]:
  "window_of (incref c srv) = window_of srv" "window_of (decref c srv) = window_of srv"
  "window_of (save_conn net clt c srv) = window_of srv" "window_of (updatestat proc srv) = window_of srv"
  "window_of (srv\<lparr>conns := cs\<rparr>) = window_of srv"
  "window_of (srv\<lparr>reply_window := (reply_window srv)(clt \<mapsto> w)\<rparr>) = (window_of srv)(clt := w)"
  by (auto simp: window_of_def fun_eq_iff incref_def decref_def save_conn_def updatestat_def Let_def split: option.splits)

lemma reply_window_keep [simp]:
  "reply_window (incref c srv) = reply_window srv" "reply_window (decref c srv) = reply_window srv"
  "reply_window (save_conn net clt c srv) = reply_window srv" "reply_window (updatestat proc srv) = reply_window srv"
  by (auto simp: incref_def decref_def save_conn_def updatestat_def Let_def split: option.splits)

lemma checkduplicate_window:
  assumes "checkduplicate_and_update clt xid xid_rep srv = (stat, b, srv')"
  shows "\<exists>w. check_window xid xid_rep (window_of srv clt) = (stat, b, w) \<and> window_of srv' = (window_of srv)(clt := w)"
  using assms by (auto simp: checkduplicate_and_update_def split: prod.splits)

lemma dispatch_begin_Execute:
  assumes "dispatch_begin junk net c buf srv = Inr (Execute h req f, srv')"
  shows "h = fst (unpack_req_header (unmarshall_of buf)) \<and>
    (if rq_clt_nonce h = 0 then window_of srv' = window_of srv
     else \<exists>b w. check_window (rq_xid h) (rq_xid_rep h) (window_of srv (rq_clt_nonce h)) = (NEW, b, w) \<and>
       window_of srv' = (window_of srv)(rq_clt_nonce h := w))"
proof (cases "unpack_req_header (unmarshall_of buf)")
  case (Pair h0 req0)
  obtain stat b1 srv1 where d: "checkduplicate_and_update (rq_clt_nonce h0) (rq_xid h0) (rq_xid_rep h0) (save_conn net (rq_clt_nonce h0) c srv) = (stat, b1, srv1)"
    by (metis prod_cases3)
  have "h = h0 \<and> (rq_clt_nonce h0 = 0 \<and> window_of srv' = window_of srv \<or> rq_clt_nonce h0 \<noteq> 0 \<and> stat = NEW \<and> window_of srv' = window_of srv1)"
    using assms Pair d by (auto simp: dispatch_begin_def rbind_def split: if_splits option.splits rpcstate.splits sum.splits)
  with checkduplicate_window [OF d] Pair show ?thesis by auto
qed

lemma dispatch_begin_Over:
  assumes "dispatch_begin junk net c buf srv = Inr (Over out, srv')"
  shows "window_of srv' = window_of srv"
proof (cases "unpack_req_header (unmarshall_of buf)")
  case (Pair h0 req0)
  obtain stat b1 srv1 where d: "checkduplicate_and_update (rq_clt_nonce h0) (rq_xid h0) (rq_xid_rep h0) (save_conn net (rq_clt_nonce h0) c srv) = (stat, b1, srv1)"
    by (metis prod_cases3)
  have "window_of srv' = window_of srv \<or> stat \<noteq> NEW \<and> window_of srv' = window_of srv1"
    using assms Pair d by (auto simp: dispatch_begin_def rbind_def split: if_splits option.splits rpcstate.splits sum.splits)
  with checkduplicate_window [OF d] check_window_other show ?thesis by (metis fun_upd_triv window_of_upd(3))
qed

lemma dispatch_end_window:
  assumes "dispatch_end junk net c h b rep srv = Inr (out, srv')"
  shows "\<exists>b1 c'. reply_bytes junk \<lparr>rh_xid = rq_xid h, rh_ret = b\<rparr> rep = Inr b1 \<and> out = [(c', b1)] \<and>
    window_of srv' = (if rq_clt_nonce h = 0 then window_of srv
      else (window_of srv)(rq_clt_nonce h := add_to_window (rq_xid h) b1 (window_of srv (rq_clt_nonce h))))"
  using assms
  by (auto simp: dispatch_end_def add_reply_def Let_def rbind_def word_gt_0 split: if_splits option.splits sum.splits)

section \<open>Concurrent dispatches\<close>

text \<open>
  \<open>running\<close> are the dispatches whose handler has not finished, \<open>executed\<close> logs the client and the xid
  of every request whose handler was started, \<open>answers\<close> the replies computed for them, \<open>sent\<close> every
  message sent, and \<open>ok\<close> restricts the requests that may arrive.  Requests arrive in any order and any number of times.
\<close>

record 's ssys =
  s_srv :: "'s rpcs"
  s_obj :: 's
  running :: "(conn \<times> req_header \<times> unmarshall \<times> 's handler) list"
  executed :: "(u32 \<times> u32) list"
  answers :: "((u32 \<times> u32) \<times> byte list) list"
  sent :: "byte list list"

inductive srv_step :: "(nat \<Rightarrow> byte) \<Rightarrow> net \<Rightarrow> (byte list \<Rightarrow> bool) \<Rightarrow> 's ssys \<Rightarrow> 's ssys \<Rightarrow> bool"
  for junk net ok where
  over: "ok buf \<Longrightarrow> dispatch_begin junk net c buf (s_srv S) = Inr (Over out, srv) \<Longrightarrow>
    srv_step junk net ok S (S\<lparr>s_srv := srv, sent := map snd out @ sent S\<rparr>)"
| start: "ok buf \<Longrightarrow> dispatch_begin junk net c buf (s_srv S) = Inr (Execute h req f, srv) \<Longrightarrow>
    srv_step junk net ok S (S\<lparr>s_srv := srv, running := (c, h, req, f) # running S,
      executed := (rq_clt_nonce h, rq_xid h) # executed S\<rparr>)"
| finish: "running S = js @ (c, h, req, f) # ks \<Longrightarrow> f req (marshall_init junk) (s_obj S) = Inr ((b, rep), obj) \<Longrightarrow>
    dispatch_end junk net c h b rep (s_srv S) = Inr ([(c', b1)], srv) \<Longrightarrow>
    srv_step junk net ok S (S\<lparr>s_srv := srv, s_obj := obj, running := js @ ks,
      answers := ((rq_clt_nonce h, rq_xid h), b1) # answers S, sent := b1 # sent S\<rparr>)"

definition ssys_init :: "'s rpcs \<Rightarrow> 's \<Rightarrow> 's ssys" where
  "ssys_init srv obj = \<lparr>s_srv = srv, s_obj = obj, running = [], executed = [], answers = [], sent = []\<rparr>"

text \<open>A request is proper when it does not claim that its own reply has been received.\<close>

definition proper :: "byte list \<Rightarrow> bool" where
  "proper buf = (let h = fst (unpack_req_header (unmarshall_of buf)) in rq_xid_rep h \<le> rq_xid h)"

definition ssys_inv :: "'s ssys \<Rightarrow> bool" where
  "ssys_inv S \<longleftrightarrow> distinct (filter (\<lambda>e. fst e \<noteq> 0) (executed S)) \<and>
     (\<forall>clt. clt \<noteq> 0 \<longrightarrow> window_inv {x. (clt, x) \<in> set (executed S)} (window_of (s_srv S) clt) \<and>
       (\<forall>r \<in> set (window_of (s_srv S) clt). cb_present r \<longrightarrow> ((clt, r_xid r), r_buf r) \<in> set (answers S)))"

lemma check_window_new_set:
  assumes "check_window xid xid_rep w = (NEW, b, w')" "r \<in> set w'"
  shows "r = reply_t_new xid \<or> r \<in> set w"
  using assms set_dropWhileD set_insert_reply
  by (fastforce simp: check_window_def split: option.splits if_splits)

lemma set_add_to_window:
  "r \<in> set (add_to_window xid b w) \<Longrightarrow> r \<in> set w \<or> r_xid r = xid \<and> r_buf r = b"
  by (auto simp: add_to_window_def)

lemma srv_step_inv:
  assumes "srv_step junk net ok S S'" "ssys_inv S" "\<And>buf. ok buf \<Longrightarrow> proper buf"
  shows "ssys_inv S'"
  using assms(1)
proof cases
  case (over buf c out srv)
  then show ?thesis using assms(2) dispatch_begin_Over [OF over(3)] by (simp add: ssys_inv_def)
next
  case (start buf c h req f srv)
  note e = dispatch_begin_Execute [OF start(3)]
  show ?thesis
  proof (cases "rq_clt_nonce h = 0")
    case True
    then show ?thesis using start(1) e assms(2) by (auto simp: ssys_inv_def)
  next
    case False
    then obtain b w where w: "check_window (rq_xid h) (rq_xid_rep h) (window_of (s_srv S) (rq_clt_nonce h)) = (NEW, b, w)"
      "window_of srv = (window_of (s_srv S))(rq_clt_nonce h := w)" using e by auto
    have le: "rq_xid_rep h \<le> rq_xid h" using assms(3) [OF start(2)] e by (simp add: proper_def Let_def)
    have i: "window_inv {x. (rq_clt_nonce h, x) \<in> set (executed S)} (window_of (s_srv S) (rq_clt_nonce h))"
      using assms(2) False by (simp add: ssys_inv_def)
    note n = check_window_new [OF i w(1) le]
    have "insert (rq_xid h) {x. (rq_clt_nonce h, x) \<in> set (executed S)} = {x. (rq_clt_nonce h, x) \<in> set (executed S')}"
      by (auto simp: start(1))
    moreover have "{x. (clt, x) \<in> set (executed S')} = {x. (clt, x) \<in> set (executed S)}" if "clt \<noteq> rq_clt_nonce h" for clt
      using that by (auto simp: start(1))
    moreover have "\<forall>r \<in> set w. cb_present r \<longrightarrow> ((rq_clt_nonce h, r_xid r), r_buf r) \<in> set (answers S)"
    proof (intro ballI impI)
      fix r assume r: "r \<in> set w" "cb_present r"
      then have "r \<in> set (window_of (s_srv S) (rq_clt_nonce h))"
        using check_window_new_set [OF w(1) r(1)] by (auto simp: reply_t_new_def)
      then show "((rq_clt_nonce h, r_xid r), r_buf r) \<in> set (answers S)" using assms(2) False r(2) by (simp add: ssys_inv_def)
    qed
    ultimately show ?thesis
      using assms(2) n w(2) False by (auto simp: ssys_inv_def start(1))
  qed
next
  case (finish js c h req f ks b rep obj c' b1 srv)
  have "window_of srv = (if rq_clt_nonce h = 0 then window_of (s_srv S)
      else (window_of (s_srv S))(rq_clt_nonce h := add_to_window (rq_xid h) b1 (window_of (s_srv S) (rq_clt_nonce h))))"
    using dispatch_end_window [OF finish(4)] by auto
  then show ?thesis
    using assms(2) set_add_to_window by (fastforce simp: ssys_inv_def finish(1) add_to_window_inv)
qed

lemma ssys_inv_init: "reply_window srv = Map.empty \<Longrightarrow> ssys_inv (ssys_init srv obj)"
  by (simp add: ssys_inv_def ssys_init_def window_inv_empty window_of_def)

lemma srv_reachable_inv:
  assumes "(srv_step junk net ok)\<^sup>*\<^sup>* S S'" "ssys_inv S" "\<And>buf. ok buf \<Longrightarrow> proper buf"
  shows "ssys_inv S'"
  using assms(1,2) by (induction rule: rtranclp_induct) (auto intro: srv_step_inv assms(3))

section \<open>References on connections\<close>

text \<open>The references on a connection that are not held by the table of clients.\<close>

definition held :: "'s rpcs \<Rightarrow> conn \<Rightarrow> int" where
  "held srv k = refs srv k - int (card {clt. conns srv clt = Some k})"

lemma card_conns_upd:
  assumes "finite (dom m)"
  shows "int (card {clt. (m(x \<mapsto> c)) clt = Some k}) =
    int (card {clt. m clt = Some k}) - (if m x = Some k then 1 else 0) + (if c = k then 1 else 0)"
proof -
  let ?A = "{clt. m clt = Some k}"
  have f: "finite ?A" by (rule finite_subset [OF _ assms]) auto
  have e: "{clt. (m(x \<mapsto> c)) clt = Some k} = (if c = k then insert x (?A - {x}) else ?A - {x})" by auto
  show ?thesis
  proof (cases "m x = Some k")
    case True
    then have "x \<in> ?A" by simp
    then have "card ?A = Suc (card (?A - {x}))" by (metis card.remove f)
    with f True show ?thesis unfolding e by (simp add: card_insert_if)
  next
    case False
    then have "?A - {x} = ?A" by auto
    with f False show ?thesis unfolding e by (simp add: card_insert_if)
  qed
qed

lemma held_simps [simp]:
  "held (incref c srv) = (held srv)(c := held srv c + 1)" "held (decref c srv) = (held srv)(c := held srv c - 1)"
  "held (updatestat proc srv) = held srv" "held (srv\<lparr>reply_window := w\<rparr>) = held srv"
  by (auto simp: held_def incref_def decref_def updatestat_def Let_def fun_eq_iff)

lemma held_save_conn:
  assumes "finite (dom (conns srv))"
  shows "held (save_conn net clt c srv) = held srv" "finite (dom (conns (save_conn net clt c srv)))"
proof -
  show "held (save_conn net clt c srv) = held srv"
    using card_conns_upd [OF assms, of clt c]
    by (auto simp: held_def save_conn_def incref_def decref_def fun_eq_iff split: option.splits)
  show "finite (dom (conns (save_conn net clt c srv)))"
    using assms by (auto simp: save_conn_def incref_def decref_def split: option.splits)
qed

lemma held_checkduplicate:
  "checkduplicate_and_update clt xid xid_rep srv = (stat, b, srv') \<Longrightarrow> held srv' = held srv \<and> conns srv' = conns srv"
  by (auto simp: checkduplicate_and_update_def split: prod.splits)

lemma dispatch_begin_held:
  assumes "dispatch_begin junk net c buf srv = Inr (x, srv')" "finite (dom (conns srv))"
    "(h, req) = unpack_req_header (unmarshall_of buf)"
  shows "held srv' = (case x of Execute h f r \<Rightarrow> held srv
    | Over out \<Rightarrow> if u_ok req \<and> rq_srv_nonce h \<noteq> 0 \<and> rq_srv_nonce h \<noteq> srv_nonce srv then held srv
        else (held srv)(c := held srv c - 1))"
proof -
  obtain stat b1 srv1 where d: "checkduplicate_and_update (rq_clt_nonce h) (rq_xid h) (rq_xid_rep h) (save_conn net (rq_clt_nonce h) c srv) = (stat, b1, srv1)"
    by (metis prod_cases3)
  note hc = held_checkduplicate [OF d]
  show ?thesis
    using assms(1) d hc held_save_conn [OF assms(2), of net "rq_clt_nonce h" c] assms(3) [symmetric]
    by (auto simp: dispatch_begin_def rbind_def split: if_splits option.splits rpcstate.splits sum.splits)
qed

lemma dispatch_end_held:
  assumes "dispatch_end junk net c h b rep srv = Inr (out, srv')"
  shows "held srv' = (held srv)(c := held srv c - 1)"
  using assms
  by (auto simp: dispatch_end_def add_reply_def Let_def rbind_def fun_eq_iff split: if_splits option.splits sum.splits)

section \<open>Properties\<close>

lemma count_list_nonce: "clt \<noteq> 0 \<Longrightarrow> count_list xs (clt, xid) = count_list (filter (\<lambda>e. fst e \<noteq> 0) xs) (clt, xid)"
  by (induction xs) auto

lemma count_list_distinct: "distinct xs \<Longrightarrow> count_list xs x \<le> 1"
  by (induction xs) (auto simp: count_list_0_iff)

text \<open>C25. At-most-once execution.  Whatever requests arrive, in whatever order, however often each is
  repeated, and however the dispatches of different threads interleave, the handler of a request of a
  client that asks for at-most-once semantics (its nonce is not 0) is started at most once, as long as
  no request claims that its own reply has already been received.\<close>

theorem at_most_once:
  assumes "(srv_step junk net proper)\<^sup>*\<^sup>* (ssys_init srv obj) S" "reply_window srv = Map.empty" "clt \<noteq> 0"
  shows "count_list (executed S) (clt, xid) \<le> 1"
proof -
  have "ssys_inv S" using srv_reachable_inv [OF assms(1) ssys_inv_init [OF assms(2)]] by simp
  then have "distinct (filter (\<lambda>e. fst e \<noteq> 0) (executed S))" by (simp add: ssys_inv_def)
  moreover have "count_list (executed S) (clt, xid) = count_list (filter (\<lambda>e. fst e \<noteq> 0) (executed S)) (clt, xid)"
    by (rule count_list_nonce [OF assms(3)])
  ultimately show ?thesis using count_list_distinct by metis
qed

text \<open>A server with one procedure that takes no arguments, and a request for it.\<close>

definition demo_srv :: "unit rpcs" where
  "demo_srv = \<lparr>srv_nonce = 7, reply_window = Map.empty, conns = Map.empty, counting = 0, curr_counts = 0,
     counts = (\<lambda>_. 0), srv_reachable = True, procs = [9 \<mapsto> \<lambda>args rep s. Inr ((0, rep), s)], refs = (\<lambda>_. 1), jobs = []\<rparr>"

definition demo_request :: "u32 \<Rightarrow> byte list" where
  "demo_request xid = replicate 4 0 @ enc_req_header \<lparr>rq_xid = xid, rq_proc = 9, rq_clt_nonce = 3, rq_srv_nonce = 7, rq_xid_rep = 0\<rparr>"

lemma unpack_demo_request:
  "unpack_req_header (unmarshall_of (demo_request xid)) =
    (\<lparr>rq_xid = xid, rq_proc = 9, rq_clt_nonce = 3, rq_srv_nonce = 7, rq_xid_rep = 0\<rparr>, (unmarshall_of (demo_request xid))\<lparr>u_ind := 24\<rparr>)"
  by (rule unpack_req_header_effect) (simp_all add: unmarshall_of_def demo_request_def)

lemma u_ok_unmarshall_of [simp]: "u_ok (unmarshall_of b)"
  by (simp add: unmarshall_of_def)

abbreviation demo_net :: net where
  "demo_net \<equiv> \<lparr>isdead = \<lambda>_. False, conn_compare = \<lambda>_ _. 0\<rparr>"

abbreviation demo_junk :: "nat \<Rightarrow> byte" where
  "demo_junk \<equiv> \<lambda>_. 0"

lemma demo_begin:
  obtains h req f srv where "dispatch_begin demo_junk demo_net 0 (demo_request 1) demo_srv = Inr (Execute h req f, srv)"
    "rq_clt_nonce h = 3" "rq_xid h = 1" "f = (\<lambda>args rep s. Inr ((0, rep), s))"
    "window_of srv 3 = [reply_t_new 1]" "srv_nonce srv = 7" "procs srv 9 \<noteq> None" "counting srv = 0"
  by (simp add: dispatch_begin_def unpack_demo_request demo_srv_def checkduplicate_and_update_def check_window_def
      window_of_def save_conn_def incref_def reply_t_new_def)

lemma demo_run:
  "\<exists>S srv'. (srv_step demo_junk demo_net proper)\<^sup>*\<^sup>* (ssys_init demo_srv ()) S \<and> executed S = [(3, 1)] \<and>
     srv_nonce (s_srv S) = 7 \<and> dispatch_begin demo_junk demo_net 0 (demo_request 1) (s_srv S) = Inr (Over [], srv')"
proof -
  let ?S = "ssys_init demo_srv ()"
  obtain h req f srv where b: "dispatch_begin demo_junk demo_net 0 (demo_request 1) demo_srv = Inr (Execute h req f, srv)"
    "rq_clt_nonce h = 3" "rq_xid h = 1" "f = (\<lambda>args rep s. Inr ((0, rep), s))"
    "window_of srv 3 = [reply_t_new 1]" "srv_nonce srv = 7" "procs srv 9 \<noteq> None" "counting srv = 0"
    by (rule demo_begin)
  let ?T = "?S\<lparr>s_srv := srv, running := (0, h, req, f) # running ?S, executed := (rq_clt_nonce h, rq_xid h) # executed ?S\<rparr>"
  have "dispatch_begin demo_junk demo_net 0 (demo_request 1) (s_srv ?S) = Inr (Execute h req f, srv)"
    using b(1) by (simp add: ssys_init_def)
  then have 1: "srv_step demo_junk demo_net proper ?S ?T"
    by (rule srv_step.start [where ok = proper, rotated]) (simp add: proper_def unpack_demo_request)
  obtain srv' where "dispatch_begin demo_junk demo_net 0 (demo_request 1) (s_srv ?T) = Inr (Over [], srv')"
    using b(5-8) by (auto simp: dispatch_begin_def unpack_demo_request checkduplicate_and_update_def check_window_def reply_t_new_def)
  with 1 b show ?thesis by (intro exI [of _ ?T] exI [of _ srv']) (auto simp: ssys_init_def)
qed

lemma at_most_once_witness:
  "\<exists>S. (srv_step demo_junk demo_net proper)\<^sup>*\<^sup>* (ssys_init demo_srv ()) S \<and> executed S = [(3, 1)] \<and>
     count_list (executed S) (3, 1) \<le> 1"
proof -
  obtain S where S: "(srv_step demo_junk demo_net proper)\<^sup>*\<^sup>* (ssys_init demo_srv ()) S" "executed S = [(3, 1)]"
    using demo_run by blast
  have "count_list (executed S) (3, 1) \<le> 1" by (rule at_most_once [OF S(1)]) (simp_all add: demo_srv_def)
  with S show ?thesis by blast
qed

text \<open>C35. A duplicate of a request whose handler has been started never starts it again: it is dropped
  while the handler is running, answered with the very bytes of the first answer, or, when the window
  has moved on, refused with \<^verbatim>\<open>atmostonce_failure\<close>.\<close>

theorem duplicate_answered:
  assumes "(srv_step junk net proper)\<^sup>*\<^sup>* (ssys_init srv obj) S" "reply_window srv = Map.empty"
    "unpack_req_header (unmarshall_of buf) = (h, req)" "u_ok req" "rq_clt_nonce h \<noteq> 0" "rq_srv_nonce h \<in> {0, srv_nonce (s_srv S)}"
    "(rq_clt_nonce h, rq_xid h) \<in> set (executed S)"
    "dispatch_begin junk net c buf (s_srv S) = Inr (x, srv')"
  shows "x = Over [] \<or> (\<exists>b. x = Over [(c, b)] \<and>
    (((rq_clt_nonce h, rq_xid h), b) \<in> set (answers S) \<or>
     reply_bytes junk \<lparr>rh_xid = rq_xid h, rh_ret = atmostonce_failure\<rparr> (marshall_init junk) = Inr b))"
proof -
  let ?w = "window_of (s_srv S) (rq_clt_nonce h)"
  have "ssys_inv S" using srv_reachable_inv [OF assms(1) ssys_inv_init [OF assms(2)]] by simp
  with assms(5) have i: "window_inv {x. (rq_clt_nonce h, x) \<in> set (executed S)} ?w"
    and a: "\<forall>r \<in> set ?w. cb_present r \<longrightarrow> ((rq_clt_nonce h, r_xid r), r_buf r) \<in> set (answers S)"
    by (simp_all add: ssys_inv_def)
  obtain stat b1 srv1 where d: "checkduplicate_and_update (rq_clt_nonce h) (rq_xid h) (rq_xid_rep h) (save_conn net (rq_clt_nonce h) c (s_srv S)) = (stat, b1, srv1)"
    by (metis prod_cases3)
  obtain w where w: "check_window (rq_xid h) (rq_xid_rep h) ?w = (stat, b1, w)" using checkduplicate_window [OF d] by auto
  have "rq_xid h \<in> r_xid ` set ?w \<or> ?w \<noteq> [] \<and> rq_xid h < r_xid (hd ?w)" using i assms(7) by (auto simp: window_inv_def)
  then have n: "stat \<noteq> NEW" using w find_xid_None by (fastforce simp: check_window_def split: option.splits if_splits)
  have "((rq_clt_nonce h, rq_xid h), b1) \<in> set (answers S)" if "stat = DONE"
    using that w a by (auto simp: check_window_def find_Some_iff split: option.splits if_splits)
  then show ?thesis
    using assms(3-6,8) d n by (auto simp: dispatch_begin_def rbind_def split: if_splits option.splits rpcstate.splits sum.splits)
qed

lemma duplicate_answered_witness:
  "\<exists>(S :: unit ssys) x srv'. dispatch_begin demo_junk demo_net 0 (demo_request 1) (s_srv S) = Inr (x, srv') \<and> executed S = [(3, 1)] \<and>
    (x = Over [] \<or> (\<exists>b. x = Over [(0, b)] \<and> (((3, 1), b) \<in> set (answers S) \<or>
      reply_bytes demo_junk \<lparr>rh_xid = 1, rh_ret = atmostonce_failure\<rparr> (marshall_init demo_junk) = Inr b)))"
proof -
  obtain S srv' where S: "(srv_step demo_junk demo_net proper)\<^sup>*\<^sup>* (ssys_init demo_srv ()) S" "executed S = [(3, 1)]" "srv_nonce (s_srv S) = 7"
    "dispatch_begin demo_junk demo_net 0 (demo_request 1) (s_srv S) = Inr (Over [], srv')"
    using demo_run by blast
  have "Over [] = (Over [] :: unit begun) \<or> (\<exists>b. Over [] = (Over [(0, b)] :: unit begun) \<and> (((3, 1), b) \<in> set (answers S) \<or>
      reply_bytes demo_junk \<lparr>rh_xid = 1, rh_ret = atmostonce_failure\<rparr> (marshall_init demo_junk) = Inr b))"
    using duplicate_answered [OF S(1) _ unpack_demo_request _ _ _ _ S(4)] S(2,3) by (simp add: demo_srv_def)
  with S(2,4) show ?thesis by blast
qed

text \<open>A request can be refused without ever having been executed: if two requests of a client are
  under way and the later one is the first to reach the server, the earlier one is older than the
  window and is answered \<^verbatim>\<open>FORGOTTEN\<close>.\<close>

lemma premature_forgotten:
  assumes "window_of srv clt = []" "xid_rep \<le> x" "x < y"
  shows "\<exists>srv1 srv2. checkduplicate_and_update clt y xid_rep srv = (NEW, [], srv1) \<and>
    checkduplicate_and_update clt x xid_rep srv1 = (FORGOTTEN, [], srv2)"
  using assms
  by (auto simp: checkduplicate_and_update_def check_window_def reply_t_new_def split: prod.splits)

lemma premature_forgotten_witness:
  "\<exists>srv1 srv2. checkduplicate_and_update 3 2 0 demo_srv = (NEW, [], srv1) \<and>
    checkduplicate_and_update 3 1 0 srv1 = (FORGOTTEN, [], srv2)"
  using premature_forgotten [of demo_srv 3 0 1 2] by (simp add: window_of_def demo_srv_def)

text \<open>C36. A dispatch gives back exactly the reference it was given on its connection, whatever it does
  with the table of clients, with one exception: on the path of a request for an old instance of the
  server the reference is never dropped.\<close>

theorem dispatch_references:
  assumes "dispatch junk net c buf (srv, obj) = Inr (out, srv', obj')" "finite (dom (conns srv))"
    "unpack_req_header (unmarshall_of buf) = (h, req)"
  shows "held srv' =
    (if u_ok req \<and> rq_srv_nonce h \<noteq> 0 \<and> rq_srv_nonce h \<noteq> srv_nonce srv then held srv
     else (held srv)(c := held srv c - 1))"
proof -
  obtain x srv1 where b: "dispatch_begin junk net c buf srv = Inr (x, srv1)"
    using assms(1) by (auto simp: dispatch_def rbind_Inr_iff)
  note hb = dispatch_begin_held [OF b assms(2) assms(3) [symmetric]]
  show ?thesis
  proof (cases x)
    case (Over out')
    then show ?thesis using assms(1) b hb by (simp add: dispatch_def)
  next
    case (Execute h' req' f)
    then obtain r rep where "dispatch_end junk net c h' r rep srv1 = Inr (out, srv')"
      using assms(1) b by (auto simp: dispatch_def rbind_Inr_iff)
    moreover have "\<not> (u_ok req \<and> rq_srv_nonce h \<noteq> 0 \<and> rq_srv_nonce h \<noteq> srv_nonce srv)"
      using b Execute assms(3) by (auto simp: dispatch_begin_def rbind_def split: if_splits sum.splits)
    ultimately show ?thesis using dispatch_end_held hb Execute by fastforce
  qed
qed

lemma dispatch_references_witness:
  "\<exists>out srv'. dispatch demo_junk demo_net 0 (demo_request 1) (demo_srv, ()) = Inr (out, srv', ()) \<and>
     held srv' = (held demo_srv)(0 := held demo_srv 0 - 1)"
proof -
  obtain h req f srv where b: "dispatch_begin demo_junk demo_net 0 (demo_request 1) demo_srv = Inr (Execute h req f, srv)"
    "f = (\<lambda>args rep s. Inr ((0, rep), s))"
    by (rule demo_begin) (rule that)
  have "\<exists>out srv'. dispatch_end demo_junk demo_net 0 h 0 (marshall_init demo_junk) srv = Inr (out, srv')"
    using pack_reply_header_effect [of "marshall_init demo_junk" demo_junk]
    by (simp add: dispatch_end_def reply_bytes_def marshall_init_def)
  then obtain out srv' where d: "dispatch demo_junk demo_net 0 (demo_request 1) (demo_srv, ()) = Inr (out, srv', ())"
    using b by (auto simp: dispatch_def)
  from dispatch_references [OF d _ unpack_demo_request] d show ?thesis by (auto simp: demo_srv_def)
qed

text \<open>A client without at-most-once semantics whose connection dies while its request is being
  executed takes the server down: there is no entry of \<^verbatim>\<open>conns_\<close> for nonce 0 to fall back to.\<close>

lemma anonymous_client_crash:
  assumes "rq_clt_nonce h = 0" "isdead net c" "conns srv 0 = None" "0 \<le> b" "24 \<le> length (m_buf rep)"
  shows "dispatch_end junk net c h b rep srv = Inl Null_Deref"
  using assms pack_reply_header_effect [of rep junk "\<lparr>rh_xid = rq_xid h, rh_ret = b\<rparr>"]
  by (simp add: dispatch_end_def reply_bytes_def)

lemma anonymous_client_crash_witness:
  "dispatch_end (\<lambda>_. 0) \<lparr>isdead = \<lambda>_. True, conn_compare = \<lambda>_ _. 0\<rparr> 4
     \<lparr>rq_xid = 1, rq_proc = 9, rq_clt_nonce = 0, rq_srv_nonce = 7, rq_xid_rep = 0\<rparr> 0 (marshall_init (\<lambda>_. 0)) demo_srv = Inl Null_Deref"
  by (rule anonymous_client_crash) (simp_all add: demo_srv_def marshall_init_def)

end
