(* ===== verification/Rpc_Client.thy ===== *)
theory Rpc_Client
  imports Rpc_Server "HOL-Library.Signed_Division"
begin

text \<open>
  The client end of the RPC library (\<^verbatim>\<open>class rpcc\<close> of \<^verbatim>\<open>src/rpc/rpc.h\<close> and \<^verbatim>\<open>src/rpc/rpc.cc\<close>) and the time
  arithmetic it uses.  \<^verbatim>\<open>call1\<close> is cut where it gives up the mutex: \<open>call1_begin\<close> registers the call,
  \<open>call1_loop\<close> sends and waits, \<open>call1_end\<close> takes the call off the table.  What happens around an
  iteration of the loop is a \<open>round\<close>: the clock, the answers of the connection layer and the packets
  that arrive while the thread waits.
\<close>

section \<open>Time\<close>

record timespec =
  tv_sec :: int
  tv_nsec :: int

definition cmp_timespec :: "timespec \<Rightarrow> timespec \<Rightarrow> int" where
  "cmp_timespec a b =
     (if tv_sec a > tv_sec b then 1
      else if tv_sec a < tv_sec b then -1
      else if tv_nsec a > tv_nsec b then 1
      else if tv_nsec a < tv_nsec b then -1
      else 0)"

function carry_nsec :: "int \<Rightarrow> int \<Rightarrow> timespec" where
  "carry_nsec sec nsec = (if nsec > 1000000000 then carry_nsec (sec + 1) (nsec - 1000000000) else \<lparr>tv_sec = sec, tv_nsec = nsec\<rparr>)"
  by auto
termination by (relation "measure (\<lambda>(sec, nsec). nat nsec)") auto

declare carry_nsec.simps [simp del]

definition add_timespec :: "timespec \<Rightarrow> int \<Rightarrow> timespec res" where
  "add_timespec a b =
     (let sec = tv_sec a + b sdiv 1000; nsec = tv_nsec a + (b smod 1000) * 1000000
      in if nsec < 0 then Inl Verify_Failed else Inr (carry_nsec sec nsec))"

text \<open>The difference is stored in an \<^verbatim>\<open>int\<close>.\<close>

definition to_int :: "int \<Rightarrow> int" where
  "to_int x = sint (word_of_int x :: u32)"

definition diff_timespec :: "timespec \<Rightarrow> timespec \<Rightarrow> int res" where
  "diff_timespec end start =
     (let diff = to_int (if tv_sec end > tv_sec start then (tv_sec end - tv_sec start) * 1000 else 0)
      in if diff = 0 \<and> tv_sec end \<noteq> tv_sec start then Inl Verify_Failed
         else if tv_nsec end > tv_nsec start then Inr (to_int (diff + (tv_nsec end - tv_nsec start) div 1000000))
         else Inr (to_int (diff - (tv_nsec start - tv_nsec end) div 1000000)))"

section \<open>State\<close>

abbreviation to_max :: int where "to_max \<equiv> 120000"
abbreviation to_min :: int where "to_min \<equiv> 1000"

record caller =
  ca_un :: unmarshall
  ca_intret :: int
  ca_done :: bool

text \<open>\<^verbatim>\<open>xid = -1\<close> marks an empty \<^verbatim>\<open>request\<close>.\<close>

record request =
  rq_buf :: "byte list"
  rq_id :: int

definition request_clear :: request where
  "request_clear = \<lparr>rq_buf = [], rq_id = -1\<rparr>"

definition isvalid :: "request \<Rightarrow> bool" where
  "isvalid r \<longleftrightarrow> rq_id r \<noteq> -1"

record rpcc =
  clt_nonce :: u32
  c_srv_nonce :: u32
  bind_done :: bool
  next_xid :: u32
  lossytest :: int
  retrans :: bool
  c_reachable :: bool
  chan :: "conn option"
  destroy_wait :: bool
  calls :: "u32 \<rightharpoonup> caller"
  xid_rep_window :: "u32 list"
  dup_req :: request
  xid_rep_done :: int
  c_refs :: "conn \<Rightarrow> int"

text \<open>The constructor; \<open>nonce\<close> is what \<^verbatim>\<open>random()\<close> returned and \<open>lossy\<close> the value of \<^verbatim>\<open>RPC_LOSSY\<close>.\<close>

definition rpcc_init :: "u32 \<Rightarrow> int \<Rightarrow> bool \<Rightarrow> rpcc" where
  "rpcc_init nonce lossy rt =
     \<lparr>clt_nonce = (if rt then nonce else 0), c_srv_nonce = 0, bind_done = False, next_xid = 1, lossytest = lossy,
      retrans = rt, c_reachable = True, chan = None, destroy_wait = False, calls = Map.empty, xid_rep_window = [0],
      dup_req = request_clear, xid_rep_done = -1, c_refs = (\<lambda>_. 0)\<rparr>"

definition rpcc_destroy :: "rpcc \<Rightarrow> rpcc res" where
  "rpcc_destroy c =
     (let c = (case chan c of None \<Rightarrow> c | Some k \<Rightarrow> c\<lparr>c_refs := (c_refs c)(k := c_refs c k - 1)\<rparr>)
      in if calls c \<noteq> Map.empty then Inl Verify_Failed else Inr c)"

section \<open>The window of received replies\<close>

fun insert_xid :: "u32 \<Rightarrow> u32 list \<Rightarrow> u32 list" where
  "insert_xid xid [] = [xid]"
| "insert_xid xid (x # xs) = (if xid < x then xid # x # xs else x # insert_xid xid xs)"

text \<open>
  The loop after \<^verbatim>\<open>compress:\<close>.  The list is \<open>pre\<close> followed by the elements from the iterator on; popping
  the front stops at the iterator, since no element is its own successor.
\<close>

fun compress :: "u32 list \<Rightarrow> u32 list \<Rightarrow> u32 list" where
  "compress pre [] = pre"
| "compress pre (x # xs) = compress (dropWhile (\<lambda>f. f + 1 = x) pre @ [x]) xs"

definition update_xid_rep :: "u32 \<Rightarrow> u32 list \<Rightarrow> u32 list" where
  "update_xid_rep xid w =
     (if xid \<le> hd w then w
      else let w = insert_xid xid w in compress [hd w] (tl w))"

section \<open>Calls\<close>

text \<open>The first critical section of \<^verbatim>\<open>call1\<close>: the call is refused, or gets its number and its header.\<close>

definition call1_begin :: "(nat \<Rightarrow> byte) \<Rightarrow> u32 \<Rightarrow> marshall \<Rightarrow> (rpcc, int + (u32 \<times> marshall \<times> u32)) op" where
  "call1_begin junk proc req c =
     (if proc \<noteq> bind_proc \<and> \<not> bind_done c \<or> proc = bind_proc \<and> bind_done c then Inr (Inl bind_failure, c)
      else if destroy_wait c then Inr (Inl cancel_failure, c)
      else
        let xid = next_xid c;
            c = c\<lparr>next_xid := xid + 1, calls := (calls c)(xid \<mapsto> \<lparr>ca_un = unmarshall_null, ca_intret = 0, ca_done = False\<rparr>)\<rparr>;
            xid_rep = hd (xid_rep_window c)
        in rbind (pack_req_header junk \<lparr>rq_xid = xid, rq_proc = proc, rq_clt_nonce = clt_nonce c,
                    rq_srv_nonce = c_srv_nonce c, rq_xid_rep = xid_rep\<rparr> req) (\<lambda>req.
           Inr (Inr (xid, req, xid_rep), c)))"

definition clt_got_pdu :: "byte list \<Rightarrow> rpcc \<Rightarrow> rpcc" where
  "clt_got_pdu b c =
     (let (h, rep) = unpack_reply_header (unmarshall_of b)
      in if \<not> u_ok rep then c
         else let c = c\<lparr>xid_rep_window := update_xid_rep (rh_xid h) (xid_rep_window c)\<rparr>
         in case calls c (rh_xid h) of
              None \<Rightarrow> c
            | Some ca \<Rightarrow>
                if ca_done ca then c
                else c\<lparr>calls := (calls c)(rh_xid h \<mapsto> \<lparr>ca_un = take_in rep, ca_intret = rh_ret h, ca_done = True\<rparr>)\<rparr>)"

text \<open>\<open>connect\<close> is the answer of \<^verbatim>\<open>connect_to_dst\<close>; the loop's own pointer is \<open>ch\<close>.\<close>

definition c_incref :: "conn \<Rightarrow> rpcc \<Rightarrow> rpcc" where
  "c_incref k c = c\<lparr>c_refs := (c_refs c)(k := c_refs c k + 1)\<rparr>"

definition c_decref :: "conn \<Rightarrow> rpcc \<Rightarrow> rpcc" where
  "c_decref k c = c\<lparr>c_refs := (c_refs c)(k := c_refs c k - 1)\<rparr>"

definition get_refconn :: "(conn \<Rightarrow> bool) \<Rightarrow> conn option \<Rightarrow> conn option \<Rightarrow> rpcc \<Rightarrow> conn option \<times> rpcc" where
  "get_refconn dead connect ch c =
     (let c = (case chan c of
                 None \<Rightarrow> c\<lparr>chan := connect\<rparr>
               | Some k \<Rightarrow> if dead k then (c_decref k c)\<lparr>chan := connect\<rparr> else c)
      in case chan c of
           None \<Rightarrow> (ch, c)
         | Some k \<Rightarrow> (Some k, c_incref k (case ch of None \<Rightarrow> c | Some k0 \<Rightarrow> c_decref k0 c)))"

record round =
  rd_dead :: "conn \<Rightarrow> bool"
  rd_connect :: "conn option"
  rd_now :: timespec
  rd_pdus :: "byte list list"
  rd_dead_after :: "conn \<Rightarrow> bool"

text \<open>The sending part of an iteration.\<close>

definition transmit_req :: "round \<Rightarrow> byte list \<Rightarrow> conn option \<Rightarrow> rpcc \<Rightarrow> (conn option \<times> (conn \<times> byte list) list) \<times> rpcc" where
  "transmit_req rd req ch c =
     (let (ch, c) = get_refconn (rd_dead rd) (rd_connect rd) ch c
      in case ch of
           None \<Rightarrow> ((ch, []), c)
         | Some k \<Rightarrow>
             if c_reachable c then
               if isvalid (dup_req c) \<and> xid_rep_done c > rq_id (dup_req c)
               then ((ch, [(k, rq_buf (dup_req c)), (k, req)]), c\<lparr>dup_req := request_clear\<rparr>)
               else ((ch, [(k, req)]), c)
             else ((ch, []), c))"

text \<open>
  The loop, for the rounds that the environment offers; \<open>None\<close> means that they did not suffice.  The
  result is the loop's connection and what was sent.
\<close>

fun call1_loop :: "u32 \<Rightarrow> byte list \<Rightarrow> round list \<Rightarrow> bool \<Rightarrow> int \<Rightarrow> timespec \<Rightarrow> conn option \<Rightarrow> (conn \<times> byte list) list \<Rightarrow> rpcc \<Rightarrow>
    ((conn option \<times> (conn \<times> byte list) list) \<times> rpcc) option res" where
  "call1_loop xid req [] transmit curr_to final ch out c = Inr None"
| "call1_loop xid req (rd # rds) transmit curr_to final ch out c =
     (let ((ch, snt), c) = (if transmit then transmit_req rd req ch c else ((ch, []), c));
          out = out @ snt
      in if tv_sec final = 0 then Inr (Some ((ch, out), c))
         else rbind (add_timespec (rd_now rd) curr_to) (\<lambda>next.
           let final = (if cmp_timespec next final > 0 then final\<lparr>tv_sec := 0\<rparr> else final);
               c = fold clt_got_pdu (rd_pdus rd) c
           in case calls c xid of
                None \<Rightarrow> Inl Null_Deref
              | Some ca \<Rightarrow>
                  if ca_done ca then Inr (Some ((ch, out), c))
                  else call1_loop xid req rds
                    (retrans c \<and> (case ch of None \<Rightarrow> True | Some k \<Rightarrow> rd_dead_after rd k))
                    (curr_to * 2) final ch out c))"

text \<open>The last critical sections; the caller's own record is read after it has left the table.\<close>

definition call1_end :: "u32 \<Rightarrow> byte list \<Rightarrow> u32 \<Rightarrow> conn option \<Rightarrow> (rpcc, int \<times> unmarshall) op" where
  "call1_end xid req xid_rep ch c =
     (case calls c xid of
        None \<Rightarrow> Inl Null_Deref
      | Some ca \<Rightarrow>
          let c = c\<lparr>calls := (calls c)(xid := None), xid_rep_window := update_xid_rep xid (xid_rep_window c)\<rparr>;
              c = (if ca_done ca \<and> lossytest c \<noteq> 0 then
                     c\<lparr>dup_req := (if isvalid (dup_req c) then dup_req c else \<lparr>rq_buf = req, rq_id = sint xid\<rparr>),
                       xid_rep_done := (if sint xid_rep > xid_rep_done c then sint xid_rep else xid_rep_done c)\<rparr>
                   else c);
              c = (case ch of None \<Rightarrow> c | Some k \<Rightarrow> c_decref k c)
          in Inr ((if ca_done ca then ca_intret ca else timeout_failure, ca_un ca), c))"

definition call1 :: "(nat \<Rightarrow> byte) \<Rightarrow> timespec \<Rightarrow> round list \<Rightarrow> u32 \<Rightarrow> marshall \<Rightarrow> int \<Rightarrow> rpcc \<Rightarrow>
    ((int \<times> unmarshall) \<times> (conn \<times> byte list) list \<times> rpcc) option res" where
  "call1 junk now rds proc req to c =
     rbind (call1_begin junk proc req c) (\<lambda>(x, c).
     case x of
       Inl e \<Rightarrow> Inr (Some ((e, unmarshall_null), [], c))
     | Inr (xid, req, xid_rep) \<Rightarrow>
         rbind (add_timespec now to) (\<lambda>final.
         rbind (call1_loop xid (take_buf req) rds True to_min final None [] c) (\<lambda>y.
         case y of
           None \<Rightarrow> Inr None
         | Some ((ch, out), c) \<Rightarrow>
             rbind (call1_end xid (take_buf req) xid_rep ch c) (\<lambda>(z, c). Inr (Some (z, out, c))))))"

text \<open>The first part of \<^verbatim>\<open>cancel\<close>; the rest waits until the calls have left the table.\<close>

definition cancel :: "rpcc \<Rightarrow> rpcc" where
  "cancel c =
     (let cs = map_option (\<lambda>ca. ca\<lparr>ca_done := True, ca_intret := cancel_failure\<rparr>) \<circ> calls c
      in c\<lparr>calls := cs, destroy_wait := (if cs \<noteq> Map.empty then True else destroy_wait c)\<rparr>)"

text \<open>What \<^verbatim>\<open>bind\<close> does with the result of its call.\<close>

definition bind_result :: "int \<Rightarrow> int \<Rightarrow> rpcc \<Rightarrow> rpcc" where
  "bind_result r status c = (if status = 0 then c\<lparr>bind_done := True, c_srv_nonce := word_of_int r\<rparr> else c)"

section \<open>Time arithmetic\<close>

definition nanos :: "timespec \<Rightarrow> int" where
  "nanos t = tv_sec t * 1000000000 + tv_nsec t"

definition normal :: "timespec \<Rightarrow> bool" where
  "normal t \<longleftrightarrow> 0 \<le> tv_nsec t \<and> tv_nsec t < 1000000000"

lemma carry_nsec_small:
  "nsec < 2000000000 \<Longrightarrow> carry_nsec sec nsec =
    (if nsec > 1000000000 then \<lparr>tv_sec = sec + 1, tv_nsec = nsec - 1000000000\<rparr> else \<lparr>tv_sec = sec, tv_nsec = nsec\<rparr>)"
  by (simp add: carry_nsec.simps [of sec nsec] carry_nsec.simps [of "sec + 1" "nsec - 1000000000"])

lemma add_timespec_nonneg:
  assumes "normal a" "0 \<le> b"
  shows "\<exists>r. add_timespec a b = Inr r \<and> nanos r = nanos a + b * 1000000 \<and> 0 \<le> tv_nsec r \<and> tv_nsec r \<le> 1000000000 \<and>
    (tv_nsec r = 1000000000 \<longleftrightarrow> tv_nsec a + b mod 1000 * 1000000 = 1000000000)"
proof -
  let ?sec = "tv_sec a + b div 1000" and ?nsec = "tv_nsec a + (b mod 1000) * 1000000"
  have m: "0 \<le> b mod 1000" "b mod 1000 < 1000" by simp_all
  have n: "0 \<le> ?nsec" "?nsec < 2000000000" using assms(1) m by (auto simp: normal_def)
  have "b = b div 1000 * 1000 + b mod 1000" by simp
  then have "b * 1000000 = b div 1000 * 1000000000 + b mod 1000 * 1000000" by linarith
  moreover have "b sdiv 1000 = b div 1000" "b smod 1000 = b mod 1000"
    using assms(2) by (simp_all add: signed_divide_int_def signed_modulo_int_def sgn_if)
  ultimately show ?thesis
    using n carry_nsec_small [OF n(2), of ?sec] assms(1) by (simp add: add_timespec_def Let_def nanos_def normal_def) linarith
qed

lemma cmp_timespec_pos:
  assumes "nanos b < nanos a" "tv_nsec a \<le> 1000000000" "0 \<le> tv_nsec b"
  shows "cmp_timespec a b > 0"
proof -
  have "\<not> tv_sec a < tv_sec b" using assms by (auto simp: nanos_def)
  then show ?thesis using assms(1) by (auto simp: cmp_timespec_def nanos_def)
qed

section \<open>Termination of a call\<close>

lemma calls_got_pdu: "calls (clt_got_pdu b c) xid = None \<longleftrightarrow> calls c xid = None"
  by (auto simp: clt_got_pdu_def Let_def split: prod.splits option.splits)

lemma calls_fold_got_pdu: "calls (fold clt_got_pdu bs c) xid = None \<longleftrightarrow> calls c xid = None"
  by (induction bs arbitrary: c) (simp_all add: calls_got_pdu)

lemma calls_transmit: "transmit_req rd req ch c = (x, c') \<Longrightarrow> calls c' = calls c"
  by (auto simp: transmit_req_def get_refconn_def c_incref_def c_decref_def Let_def split: prod.splits option.splits if_splits)

text \<open>An iteration after the deadline has been reached is the last one.\<close>

lemma call1_loop_last:
  "tv_sec final = 0 \<Longrightarrow> rds \<noteq> [] \<Longrightarrow>
    \<exists>ch' out' c'. call1_loop xid req rds transmit curr_to final ch out c = Inr (Some ((ch', out'), c')) \<and> calls c' = calls c"
proof (cases rds)
  case (Cons rd rds')
  assume "tv_sec final = 0"
  obtain x c1 where x: "transmit_req rd req ch c = (x, c1)" by (metis prod.exhaust)
  then show ?thesis using Cons \<open>tv_sec final = 0\<close> calls_transmit [OF x] by (cases x) auto
qed simp

text \<open>Each iteration doubles the timeout, so \<open>j\<close> doublings that exceed the total suffice.\<close>

lemma call1_loop_returns:
  assumes "normal start" "\<forall>rd \<in> set rds. normal (rd_now rd) \<and> nanos start \<le> nanos (rd_now rd)"
    "add_timespec start to = Inr final" "0 \<le> to" "0 \<le> curr_to" "to < curr_to * 2 ^ j" "j + 2 \<le> length rds" "calls c xid \<noteq> None"
  shows "\<exists>ch' out' c'. call1_loop xid req rds transmit curr_to final ch out c = Inr (Some ((ch', out'), c')) \<and> calls c' xid \<noteq> None"
  using assms(2,5-8)
proof (induction rds arbitrary: transmit curr_to j ch out c)
  case (Cons rd rds)
  obtain ch1 snt c1 where x: "(if transmit then transmit_req rd req ch c else ((ch, []), c)) = ((ch1, snt), c1)"
    by (metis prod.exhaust)
  then have c1: "calls c1 xid \<noteq> None" using calls_transmit Cons.prems(5) by (metis prod.sel(2))
  obtain nxt where n: "add_timespec (rd_now rd) curr_to = Inr nxt" "nanos nxt = nanos (rd_now rd) + curr_to * 1000000"
    "tv_nsec nxt \<le> 1000000000" using add_timespec_nonneg Cons.prems(1,2) by fastforce
  have f: "nanos final = nanos start + to * 1000000" "0 \<le> tv_nsec final"
    using add_timespec_nonneg [OF assms(1,4)] assms(3) by auto
  let ?c = "fold clt_got_pdu (rd_pdus rd) c1"
  obtain ca where ca: "calls ?c xid = Some ca" using c1 calls_fold_got_pdu [of "rd_pdus rd" c1 xid] by auto
  let ?t = "retrans ?c \<and> (case ch1 of None \<Rightarrow> True | Some k \<Rightarrow> rd_dead_after rd k)"
  let ?final = "if cmp_timespec nxt final > 0 then final\<lparr>tv_sec := 0\<rparr> else final"
  have step: "call1_loop xid req (rd # rds) transmit curr_to final ch out c =
      (if tv_sec final = 0 then Inr (Some ((ch1, out @ snt), c1))
       else if ca_done ca then Inr (Some ((ch1, out @ snt), ?c))
       else call1_loop xid req rds ?t (curr_to * 2) ?final ch1 (out @ snt) ?c)"
    by (simp add: x n(1) ca Let_def)
  have rest: "\<exists>ch' out' c'. call1_loop xid req rds ?t (curr_to * 2) ?final ch1 (out @ snt) ?c = Inr (Some ((ch', out'), c')) \<and> calls c' xid \<noteq> None"
  proof (cases "cmp_timespec nxt final > 0")
    case True
    have "rds \<noteq> []" using Cons.prems(4) by auto
    with call1_loop_last [of "final\<lparr>tv_sec := 0\<rparr>" rds xid req ?t "curr_to * 2" ch1 "out @ snt" ?c] True ca
    show ?thesis by auto
  next
    case False
    then have "\<not> to < curr_to" using cmp_timespec_pos [of final nxt] n(2,3) f Cons.prems(1) by fastforce
    then obtain i where "j = Suc i" using Cons.prems(3) by (cases j) auto
    then show ?thesis using Cons.IH [of "curr_to * 2" i ?c ?t ch1 "out @ snt"] Cons.prems(1-4) False ca by auto
  qed
  show ?case using rest c1 ca unfolding step by auto
qed simp

section \<open>The window is the longest run of received replies\<close>

lemma set_insert_xid [simp]: "set (insert_xid xid w) = insert xid (set w)"
  by (induction w) auto

lemma sorted_insert_xid: "sorted w \<Longrightarrow> sorted (insert_xid xid w)"
  by (induction w) auto

lemma insert_xid_Cons: "w \<noteq> [] \<Longrightarrow> hd w < xid \<Longrightarrow> insert_xid xid w = hd w # insert_xid xid (tl w)"
  by (cases w) auto

lemma next_word: "(p :: u32) < y \<Longrightarrow> p + 1 \<le> y"
  by (rule inc_le)

lemma succ_gt: "(p :: u32) < y \<Longrightarrow> p < p + 1"
  using unsigned_less [of y, where ?'a = nat] by (simp add: word_less_nat_alt unat_word_ariths)

lemma between_words: "(p :: u32) \<le> f \<Longrightarrow> f \<le> p + 1 \<Longrightarrow> f \<noteq> p + 1 \<Longrightarrow> f = p"
  using next_word [of p f] by (metis antisym_conv2 leD order_le_less)

text \<open>
  \<open>runs_from p L r\<close>: the front of \<open>r\<close> is the end of the run of consecutive numbers of \<open>L\<close> that starts at
  \<open>p\<close>, and \<open>r\<close> holds everything of \<open>L\<close> beyond it.  The window satisfies it for \<open>p = 0\<close> and the set of
  numbers whose replies have been received, 0 included.
\<close>

definition runs_from :: "u32 \<Rightarrow> u32 set \<Rightarrow> u32 list \<Rightarrow> bool" where
  "runs_from p L r \<longleftrightarrow> r \<noteq> [] \<and> sorted r \<and> set r \<subseteq> L \<and> p \<le> hd r \<and> (\<forall>x. p \<le> x \<longrightarrow> x \<le> hd r \<longrightarrow> x \<in> L) \<and>
     (\<forall>x \<in> L. x \<le> hd r \<or> x \<in> set r) \<and> hd r + 1 \<notin> set r"

lemma runs_fromD:
  assumes "runs_from p L r"
  shows "r \<noteq> []" "sorted r" "set r \<subseteq> L" "p \<le> hd r" "hd r + 1 \<notin> set r"
    "p \<le> y \<Longrightarrow> y \<le> hd r \<Longrightarrow> y \<in> L" "y \<in> L \<Longrightarrow> y \<le> hd r \<or> y \<in> set r"
proof -
  note a = assms [unfolded runs_from_def]
  show "r \<noteq> []" "sorted r" "set r \<subseteq> L" "p \<le> hd r" "hd r + 1 \<notin> set r" by (insert a, elim conjE, assumption)+
  show "p \<le> y \<Longrightarrow> y \<le> hd r \<Longrightarrow> y \<in> L" using a by blast
  show "y \<in> L \<Longrightarrow> y \<le> hd r \<or> y \<in> set r" using a by (elim conjE) (rule bspec)
qed

lemma runs_fromI:
  assumes "r \<noteq> []" "sorted r" "set r \<subseteq> L" "p \<le> hd r" "hd r + 1 \<notin> set r"
    "\<And>y. p \<le> y \<Longrightarrow> y \<le> hd r \<Longrightarrow> y \<in> L" "\<And>y. y \<in> L \<Longrightarrow> y \<le> hd r \<or> y \<in> set r"
  shows "runs_from p L r"
  unfolding runs_from_def by (intro conjI allI impI ballI) (assumption | rule assms)+

lemma compress_runs:
  "sorted (pre @ rest) \<Longrightarrow> pre \<noteq> [] \<Longrightarrow> hd pre + 1 \<notin> set pre \<Longrightarrow> runs_from (hd pre) (set (pre @ rest)) (compress pre rest)"
proof (induction rest arbitrary: pre)
  case Nil
  moreover have "x = hd pre" if "hd pre \<le> x" "x \<le> hd pre" for x using that by simp
  ultimately show ?case by (auto simp: runs_from_def)
next
  case (Cons x rest)
  have pre: "hd pre \<le> f \<and> f \<le> x" if "f \<in> set pre" for f
    using Cons.prems(1,2) that by (cases pre) (auto simp: sorted_append)
  show ?case
  proof (cases "hd pre + 1 = x")
    case False
    then have "dropWhile (\<lambda>f. f + 1 = x) pre = pre" using Cons.prems(2) by (cases pre) auto
    with Cons.IH [of "pre @ [x]"] Cons.prems False show ?thesis by simp
  next
    case True
    then have all: "f = hd pre" if "f \<in> set pre" for f
      using pre [OF that] that Cons.prems(3) between_words [of "hd pre" f] by auto
    have "f + 1 = x" if "f \<in> set pre" for f unfolding all [OF that] by (rule True)
    then have d: "dropWhile (\<lambda>f. f + 1 = x) pre = []" by simp
    let ?r = "compress [x] rest"
    have ih: "runs_from x (insert x (set rest)) ?r" using Cons.IH [of "[x]"] Cons.prems(1) by (simp add: sorted_append)
    note r = runs_fromD [OF ih]
    have le: "hd pre \<le> x" by (rule conjunct2 [OF pre [OF hd_in_set [OF Cons.prems(2)]]])
    have "runs_from (hd pre) (set (pre @ x # rest)) ?r"
    proof (rule runs_fromI)
      show "?r \<noteq> []" "sorted ?r" "hd ?r + 1 \<notin> set ?r" by (rule r)+
      show "set ?r \<subseteq> set (pre @ x # rest)" using r(3) by auto
      show "hd pre \<le> hd ?r" by (rule order_trans [OF le r(4)])
      show "y \<in> set (pre @ x # rest)" if y: "hd pre \<le> y" "y \<le> hd ?r" for y
      proof (cases "y = hd pre")
        case True then show ?thesis using hd_in_set [OF Cons.prems(2)] by simp
      next
        case False
        with y(1) have "hd pre < y" by simp
        then have "x \<le> y" using next_word True by blast
        from r(6) [OF this y(2)] show ?thesis by auto
      qed
      show "y \<le> hd ?r \<or> y \<in> set ?r" if "y \<in> set (pre @ x # rest)" for y
      proof (cases "y \<in> set pre")
        case True
        show ?thesis using order_trans [OF le r(4)] by (simp only: all [OF True] simp_thms)
      next
        case False
        then have "y \<in> insert x (set rest)" using that by auto
        then show ?thesis by (rule r(7))
      qed
    qed
    then show ?thesis by (simp only: compress.simps d append_Nil)
  qed
qed

lemma runs_from_trans:
  assumes w: "runs_from 0 F w" and r: "runs_from (hd w) (insert xid (set w)) r"
  shows "runs_from 0 (insert xid F) r"
proof (rule runs_fromI)
  show "r \<noteq> []" "sorted r" "hd r + 1 \<notin> set r" by (rule runs_fromD [OF r])+
  show "set r \<subseteq> insert xid F" using runs_fromD(3) [OF r] runs_fromD(3) [OF w] by auto
  show "0 \<le> hd r" by simp
  show "y \<in> insert xid F" if "0 \<le> y" "y \<le> hd r" for y
  proof (cases "y \<le> hd w")
    case True
    then show ?thesis using runs_fromD(6) [OF w that(1)] by simp
  next
    case False
    then have "hd w \<le> y" by simp
    then show ?thesis using runs_fromD(6) [OF r _ that(2)] runs_fromD(3) [OF w] by auto
  qed
  show "y \<le> hd r \<or> y \<in> set r" if y: "y \<in> insert xid F" for y
  proof (cases "y \<in> insert xid (set w)")
    case True
    then show ?thesis by (rule runs_fromD(7) [OF r])
  next
    case False
    then have "y \<le> hd w" using runs_fromD(7) [OF w, of y] y by auto
    then show ?thesis using order_trans [OF _ runs_fromD(4) [OF r]] by blast
  qed
qed

lemma update_xid_rep_runs:
  assumes "runs_from 0 F w"
  shows "runs_from 0 (insert xid F) (update_xid_rep xid w)"
proof (cases "xid \<le> hd w")
  case True
  then have "insert xid F = F" using runs_fromD(6) [OF assms, of xid] by auto
  with assms True show ?thesis by (simp add: update_xid_rep_def)
next
  case False
  let ?w = "insert_xid xid w"
  have w: "w \<noteq> []" "sorted w" using runs_fromD(1,2) [OF assms] .
  have e: "?w = hd w # insert_xid xid (tl w)" using insert_xid_Cons [OF w(1)] False by simp
  have "sorted ([hd w] @ insert_xid xid (tl w))" using sorted_insert_xid [OF w(2), of xid] unfolding e by simp
  then have "runs_from (hd [hd w]) (set ([hd w] @ insert_xid xid (tl w))) (compress [hd w] (insert_xid xid (tl w)))"
    by (rule compress_runs) simp_all
  moreover have "set ([hd w] @ insert_xid xid (tl w)) = insert xid (set w)"
    using arg_cong [OF e, of set] by simp
  moreover have "update_xid_rep xid w = compress [hd w] (insert_xid xid (tl w))"
    using False e by (simp add: update_xid_rep_def)
  ultimately show ?thesis using runs_from_trans [OF assms] by (simp only: list.sel)
qed

lemma runs_from_init: "runs_from 0 {0} [0]"
  by (simp add: runs_from_def)

lemma fold_update_runs: "runs_from 0 F w \<Longrightarrow> runs_from 0 (F \<union> set xs) (fold update_xid_rep xs w)"
proof (induction xs arbitrary: F w)
  case (Cons x xs)
  from Cons.IH [OF update_xid_rep_runs [OF Cons.prems, of x]] show ?case by simp
qed simp

lemma runs_from_front:
  assumes "runs_from 0 F w"
  shows "x \<le> hd w \<longleftrightarrow> (\<forall>y \<le> x. y \<in> F)"
proof
  assume x: "x \<le> hd w"
  show "\<forall>y \<le> x. y \<in> F"
  proof (intro allI impI)
    fix y assume "y \<le> x"
    then show "y \<in> F" using runs_fromD(6) [OF assms, of y] order_trans [OF _ x] by simp
  qed
next
  assume all: "\<forall>y \<le> x. y \<in> F"
  show "x \<le> hd w"
  proof (rule ccontr)
    assume "\<not> x \<le> hd w"
    then have lt: "hd w < x" by simp
    then have le: "hd w + 1 \<le> x" by (rule next_word)
    have "\<not> hd w + 1 \<le> hd w" using succ_gt [OF lt] by simp
    then show False using runs_fromD(5,7) [OF assms] all le by blast
  qed
qed

section \<open>Invariant of the client\<close>

text \<open>
  Every number the window accounts for has been issued, and its call is over or has its reply: what
  the client tells the server in \<^verbatim>\<open>xid_rep\<close> never covers a call that still waits.
\<close>

definition settled :: "rpcc \<Rightarrow> u32 \<Rightarrow> bool" where
  "settled c x \<longleftrightarrow> x < next_xid c \<and> (case calls c x of None \<Rightarrow> True | Some ca \<Rightarrow> ca_done ca)"

definition rpcc_inv :: "rpcc \<Rightarrow> bool" where
  "rpcc_inv c \<longleftrightarrow> (\<forall>x. calls c x \<noteq> None \<longrightarrow> x < next_xid c) \<and> (\<exists>G. runs_from 0 G (xid_rep_window c) \<and> (\<forall>x \<in> G. settled c x))"

lemma rpcc_inv_init: "rpcc_inv (rpcc_init nonce lossy rt)"
  using runs_from_init by (auto simp: rpcc_inv_def rpcc_init_def settled_def intro!: exI [of _ "{0}"])

lemma rpcc_inv_front:
  assumes "rpcc_inv c" "x \<le> hd (xid_rep_window c)"
  shows "settled c x"
proof -
  obtain G where G: "runs_from 0 G (xid_rep_window c)" "\<forall>x \<in> G. settled c x" using assms(1) by (auto simp: rpcc_inv_def)
  with runs_fromD(6) [OF G(1), of x] assms(2) show ?thesis by simp
qed

text \<open>A step that settles numbers, and one that also records a settled number in the window.\<close>

lemma rpcc_inv_mono:
  assumes "rpcc_inv c" "xid_rep_window c' = xid_rep_window c" "\<And>x. settled c x \<Longrightarrow> settled c' x"
    "\<And>x. calls c' x \<noteq> None \<Longrightarrow> x < next_xid c'"
  shows "rpcc_inv c'"
  using assms by (auto simp: rpcc_inv_def)

lemma rpcc_inv_update:
  assumes "rpcc_inv c" "xid_rep_window c' = update_xid_rep xid (xid_rep_window c)" "\<And>x. settled c x \<Longrightarrow> settled c' x" "settled c' xid"
    "\<And>x. calls c' x \<noteq> None \<Longrightarrow> x < next_xid c'"
  shows "rpcc_inv c'"
proof -
  obtain G where G: "runs_from 0 G (xid_rep_window c)" "\<forall>x \<in> G. settled c x" using assms(1) by (auto simp: rpcc_inv_def)
  have "runs_from 0 (insert xid G) (xid_rep_window c')" unfolding assms(2) by (rule update_xid_rep_runs [OF G(1)])
  with G(2) assms(3-5) show ?thesis unfolding rpcc_inv_def by blast
qed

lemma call1_begin_step:
  assumes "call1_begin junk proc req c = Inr (Inr (xid, req', xid_rep), c')"
  shows "xid = next_xid c \<and> xid_rep = hd (xid_rep_window c) \<and>
    pack_req_header junk \<lparr>rq_xid = xid, rq_proc = proc, rq_clt_nonce = clt_nonce c, rq_srv_nonce = c_srv_nonce c, rq_xid_rep = xid_rep\<rparr> req = Inr req' \<and>
    c' = c\<lparr>next_xid := xid + 1, calls := (calls c)(xid \<mapsto> \<lparr>ca_un = unmarshall_null, ca_intret = 0, ca_done = False\<rparr>)\<rparr>"
  using assms by (auto simp: call1_begin_def Let_def rbind_Inr_iff split: if_splits)

lemma call1_begin_inv:
  assumes "call1_begin junk proc req c = Inr (Inr (xid, req', xid_rep), c')" "rpcc_inv c" "next_xid c \<noteq> - 1"
  shows "rpcc_inv c'" "xid_rep < xid"
proof -
  note s = call1_begin_step [OF assms(1)]
  have gt: "next_xid c < next_xid c + 1" using assms(3) by (intro succ_gt [of _ "- 1"]) (simp add: order_less_le)
  have lt: "x < next_xid c + 1" if "x < next_xid c" for x using that gt by (rule order_less_trans)
  show "xid_rep < xid" using rpcc_inv_front [OF assms(2)] s by (auto simp: settled_def)
  show "rpcc_inv c'"
    using s lt gt assms(2) by (intro rpcc_inv_mono [OF assms(2)]) (auto simp: settled_def rpcc_inv_def split: if_splits)
qed

lemma clt_got_pdu_inv:
  assumes "rpcc_inv c" "rh_xid (fst (unpack_reply_header (unmarshall_of b))) < next_xid c"
  shows "rpcc_inv (clt_got_pdu b c)"
proof -
  obtain h rep where u: "unpack_reply_header (unmarshall_of b) = (h, rep)" by fastforce
  show ?thesis
  proof (cases "u_ok rep")
    case False
    then show ?thesis using assms(1) u by (simp add: clt_got_pdu_def)
  next
    case True
    have "settled (clt_got_pdu b c) x" if "settled c x" for x
      using that by (auto simp: settled_def clt_got_pdu_def Let_def split: prod.splits option.splits if_splits)
    moreover have "settled (clt_got_pdu b c) (rh_xid h)"
      using assms(2) u True by (auto simp: settled_def clt_got_pdu_def Let_def split: option.splits if_splits)
    moreover have "xid_rep_window (clt_got_pdu b c) = update_xid_rep (rh_xid h) (xid_rep_window c)"
      using u True by (auto simp: clt_got_pdu_def Let_def split: option.splits)
    moreover have "calls (clt_got_pdu b c) x \<noteq> None \<Longrightarrow> x < next_xid (clt_got_pdu b c)" for x
      using assms(1) calls_got_pdu [of b c x] u by (auto simp: rpcc_inv_def clt_got_pdu_def Let_def split: option.splits)
    ultimately show ?thesis using rpcc_inv_update [OF assms(1)] by blast
  qed
qed

lemma call1_end_inv:
  assumes "call1_end xid req xid_rep ch c = Inr (z, c')" "rpcc_inv c"
  shows "rpcc_inv c'" "calls c' = (calls c)(xid := None)" "next_xid c' = next_xid c" "clt_nonce c' = clt_nonce c"
    "c_srv_nonce c' = c_srv_nonce c"
proof -
  obtain ca where ca: "calls c xid = Some ca" using assms(1) by (auto simp: call1_end_def split: option.splits)
  have e: "xid_rep_window c' = update_xid_rep xid (xid_rep_window c)" "calls c' = (calls c)(xid := None)" "next_xid c' = next_xid c"
    "clt_nonce c' = clt_nonce c" "c_srv_nonce c' = c_srv_nonce c"
    using assms(1) ca by (auto simp: call1_end_def Let_def c_decref_def split: option.splits if_splits)
  then show "calls c' = (calls c)(xid := None)" "next_xid c' = next_xid c" "clt_nonce c' = clt_nonce c" "c_srv_nonce c' = c_srv_nonce c" by simp_all
  show "rpcc_inv c'"
    using ca assms(2) e by (intro rpcc_inv_update [OF assms(2) e(1)]) (auto simp: settled_def rpcc_inv_def split: if_splits)
qed

lemma cancel_inv: "rpcc_inv c \<Longrightarrow> rpcc_inv (cancel c)"
  by (rule rpcc_inv_mono [of c]) (auto simp: settled_def cancel_def Let_def rpcc_inv_def split: option.splits)

section \<open>Properties\<close>



text \<open>C34. The acknowledgement a client puts into its requests is exact: after the replies \<open>xs\<close> have been
  received, in any order and with any repetitions, the front of the window reaches \<open>x\<close> if and only if
  every number from 1 to \<open>x\<close> is among them.\<close>

theorem xid_rep_exact:
  "x \<le> hd (fold update_xid_rep xs [0]) \<longleftrightarrow> (\<forall>y. y \<le> x \<longrightarrow> y = 0 \<or> y \<in> set xs)"
  using runs_from_front [OF fold_update_runs [OF runs_from_init, of xs], of x] by simp

lemma xid_rep_exact_witness: "2 \<le> hd (fold update_xid_rep [2, 4, 1] [0]) \<and> \<not> 3 \<le> hd (fold update_xid_rep [2, 4, 1] [0])"
proof -
  have "\<not> (\<forall>y :: u32. y \<le> 3 \<longrightarrow> y = 0 \<or> y \<in> set [2, 4, 1])" by (rule notI, drule spec [of _ 3]) simp
  moreover have "\<forall>y :: u32. y \<le> 2 \<longrightarrow> y = 0 \<or> y \<in> set [2, 4, 1]"
    by (auto simp: word_le_nat_alt word_unat_eq_iff)
  ultimately show ?thesis unfolding xid_rep_exact by blast
qed

text \<open>Adding a timeout to a time is exact, but leaves a full second of nanoseconds uncarried: the
  result is normalised except when the nanoseconds add up to exactly one second, and
  \<^verbatim>\<open>pthread_cond_timedwait\<close> rejects such a deadline.\<close>

lemma add_timespec_exact:
  assumes "normal a" "0 \<le> b"
  shows "\<exists>r. add_timespec a b = Inr r \<and> nanos r = nanos a + b * 1000000 \<and>
    (normal r \<longleftrightarrow> tv_nsec a + b mod 1000 * 1000000 \<noteq> 1000000000)"
  using add_timespec_nonneg [OF assms] by (auto simp: normal_def)

lemma add_timespec_exact_witness:
  "\<exists>r. add_timespec \<lparr>tv_sec = 7, tv_nsec = 500000000\<rparr> 500 = Inr r \<and> \<not> normal r"
  using add_timespec_exact [of "\<lparr>tv_sec = 7, tv_nsec = 500000000\<rparr>" 500] by (auto simp: normal_def)

end
