(* ===== verification/Rpc_System.thy ===== *)
theory Rpc_System
  imports Rpc_Client
begin

text \<open>
  Client and server of the RPC library together.  The first part is a client with any number of
  threads and a server with any number of dispatches on a network that may lose, delay, reorder and
  repeat messages; it shows that a call that comes back with a status of the handler was executed
  exactly once and returns what that execution answered.  The second part is a client whose requests
  and replies are delivered; it interprets \<open>rpc_link\<close> on the library's own client and server.
\<close>

section \<open>Reading what was sent\<close>

lemma proper_request:
  assumes "message req" "call1_begin junk proc req c = Inr (Inr (xid, req', xid_rep), c')"
  shows "unpack_req_header (unmarshall_of (take_buf req')) =
    (\<lparr>rq_xid = xid, rq_proc = proc, rq_clt_nonce = clt_nonce c, rq_srv_nonce = c_srv_nonce c, rq_xid_rep = xid_rep\<rparr>,
     take_in (unmarshall_of (take_buf req')))"
  using req_header_read [OF assms(1), of junk "\<lparr>rq_xid = xid, rq_proc = proc, rq_clt_nonce = clt_nonce c, rq_srv_nonce = c_srv_nonce c, rq_xid_rep = xid_rep\<rparr>"]
    call1_begin_step [OF assms(2)] by auto

text \<open>\<open>b\<close> is a reply to \<open>xid\<close> with status \<open>st\<close>.\<close>

definition reply_is :: "byte list \<Rightarrow> u32 \<Rightarrow> int \<Rightarrow> bool" where
  "reply_is b xid st \<longleftrightarrow> unpack_reply_header (unmarshall_of b) = (\<lparr>rh_xid = xid, rh_ret = st\<rparr>, take_in (unmarshall_of b)) \<and>
     24 \<le> length b \<and> length b < 2147483648"

lemma reply_bytes_is:
  assumes "message rep" "int32 st" "reply_bytes junk \<lparr>rh_xid = xid, rh_ret = st\<rparr> rep = Inr b"
  shows "reply_is b xid st"
proof -
  obtain m' where "pack_reply_header junk \<lparr>rh_xid = xid, rh_ret = st\<rparr> rep = Inr m'" "length (take_buf m') = m_ind rep"
    "unpack_reply_header (unmarshall_of (take_buf m')) = (\<lparr>rh_xid = xid, rh_ret = st\<rparr>, take_in (unmarshall_of (take_buf m')))"
    using reply_header_read [OF assms(1), of "\<lparr>rh_xid = xid, rh_ret = st\<rparr>" junk] assms(2) by auto
  with assms(1,3) show ?thesis by (auto simp: reply_bytes_def reply_is_def message_def)
qed

lemma u_buf_take_in [simp]: "u_buf (take_in (unmarshall_of b)) = b"
  by (simp add: take_in_def unmarshall_of_def)

text \<open>What a dispatch that runs no handler sends: a saved reply, or a failure.\<close>

lemma dispatch_begin_sent:
  assumes "dispatch_begin junk net c buf srv = Inr (Over out, srv')" "b \<in> snd ` set out"
    "h = fst (unpack_req_header (unmarshall_of buf))"
  shows "(\<exists>r \<in> set (window_of srv (rq_clt_nonce h)). rq_clt_nonce h \<noteq> 0 \<and> cb_present r \<and> r_xid r = rq_xid h \<and> r_buf r = b) \<or>
    (\<exists>st. st < 0 \<and> int32 st \<and> reply_bytes junk \<lparr>rh_xid = rq_xid h, rh_ret = st\<rparr> (marshall_init junk) = Inr b)"
proof -
  obtain req where u: "unpack_req_header (unmarshall_of buf) = (h, req)" using assms(3) by (metis prod.collapse)
  obtain stat b1 srv1 where d: "checkduplicate_and_update (rq_clt_nonce h) (rq_xid h) (rq_xid_rep h) (save_conn net (rq_clt_nonce h) c srv) = (stat, b1, srv1)"
    by (metis prod_cases3)
  have "stat = DONE \<and> rq_clt_nonce h \<noteq> 0 \<and> b = b1 \<or>
    (\<exists>st \<in> {oldsrv_failure, atmostonce_failure}. reply_bytes junk \<lparr>rh_xid = rq_xid h, rh_ret = st\<rparr> (marshall_init junk) = Inr b)"
    using assms(1,2) u d by (auto simp: dispatch_begin_def rbind_def split: if_splits option.splits rpcstate.splits sum.splits)
  moreover have "\<exists>r \<in> set (window_of srv (rq_clt_nonce h)). cb_present r \<and> r_xid r = rq_xid h \<and> r_buf r = b1" if "stat = DONE"
    using that checkduplicate_window [OF d] by (auto simp: check_window_def find_Some_iff split: option.splits if_splits)
  ultimately show ?thesis by (auto simp: int32_def)
qed

section \<open>The system\<close>

record 's rsys =
  y_clt :: rpcc
  y_srv :: "'s ssys"
  reqs :: "byte list set"
  results :: "(u32 \<times> int \<times> unmarshall) list"

text \<open>
  A request that was sent once may arrive any number of times, at any time, which covers its
  retransmission; so may a reply.  A call may end whenever it likes: it does so when its reply is in,
  or on a timeout.  The numbers of the calls do not wrap around.
\<close>

inductive sys_step :: "(nat \<Rightarrow> byte) \<Rightarrow> net \<Rightarrow> 's rsys \<Rightarrow> 's rsys \<Rightarrow> bool" for junk net where
  call: "call1_begin junk proc req (y_clt S) = Inr (Inr (xid, req', xid_rep), c) \<Longrightarrow> message req \<Longrightarrow> next_xid (y_clt S) \<noteq> - 1 \<Longrightarrow>
    sys_step junk net S (S\<lparr>y_clt := c, reqs := insert (take_buf req') (reqs S)\<rparr>)"
| serve: "srv_step junk net (\<lambda>b. b \<in> reqs S) (y_srv S) s \<Longrightarrow> sys_step junk net S (S\<lparr>y_srv := s\<rparr>)"
| reply: "b \<in> set (sent (y_srv S)) \<Longrightarrow> sys_step junk net S (S\<lparr>y_clt := clt_got_pdu b (y_clt S)\<rparr>)"
| return: "call1_end xid req xid_rep ch (y_clt S) = Inr (z, c) \<Longrightarrow>
    sys_step junk net S (S\<lparr>y_clt := c, results := (xid, z) # results S\<rparr>)"
| cancelled: "sys_step junk net S (S\<lparr>y_clt := cancel (y_clt S)\<rparr>)"
| bound: "sys_step junk net S (S\<lparr>y_clt := bind_result r st (y_clt S)\<rparr>)"

definition rsys_init :: "rpcc \<Rightarrow> 's rpcs \<Rightarrow> 's \<Rightarrow> 's rsys" where
  "rsys_init c srv obj = \<lparr>y_clt = c, y_srv = ssys_init srv obj, reqs = {}, results = []\<rparr>"

text \<open>Handlers that leave a message behind and return an \<^verbatim>\<open>int\<close>.\<close>

definition well_behaved :: "'s handler \<Rightarrow> bool" where
  "well_behaved f \<longleftrightarrow> (\<forall>u junk s b rep s'. f u (marshall_init junk) s = Inr ((b, rep), s') \<longrightarrow> message rep \<and> int32 b)"

text \<open>What the network and the server hold, relative to the client.\<close>

definition reqs_inv :: "rpcc \<Rightarrow> byte list set \<Rightarrow> bool" where
  "reqs_inv c rq \<longleftrightarrow> (\<forall>b \<in> rq. let h = fst (unpack_req_header (unmarshall_of b)) in
     rq_clt_nonce h = clt_nonce c \<and> rq_xid h < next_xid c \<and> rq_xid_rep h < rq_xid h \<and> (\<forall>y \<le> rq_xid_rep h. settled c y))"

definition srv_inv :: "rpcc \<Rightarrow> 's ssys \<Rightarrow> bool" where
  "srv_inv c s \<longleftrightarrow> ssys_inv s \<and> (\<forall>f \<in> ran (procs (s_srv s)). well_behaved f) \<and>
     (\<forall>(k, h, req, f) \<in> set (running s). well_behaved f \<and> (rq_clt_nonce h, rq_xid h) \<in> set (executed s)) \<and>
     (\<forall>e \<in> set (executed s). fst e = clt_nonce c \<and> snd e < next_xid c) \<and>
     (\<forall>((k, x), b) \<in> set (answers s). (k, x) \<in> set (executed s) \<and> (\<exists>st \<ge> 0. reply_is b x st)) \<and>
     (\<forall>b \<in> set (sent s). \<exists>x st. reply_is b x st \<and> x < next_xid c \<and> (0 \<le> st \<longrightarrow> ((clt_nonce c, x), b) \<in> set (answers s))) \<and>
     (clt_nonce c \<noteq> 0 \<longrightarrow> (\<forall>x. (clt_nonce c, x) \<in> set (executed s) \<longrightarrow> \<not> settled c x \<longrightarrow> x \<in> r_xid ` set (window_of (s_srv s) (clt_nonce c))))"

definition clt_inv :: "rpcc \<Rightarrow> 's ssys \<Rightarrow> (u32 \<times> int \<times> unmarshall) list \<Rightarrow> bool" where
  "clt_inv c s rs \<longleftrightarrow> rpcc_inv c \<and>
     (\<forall>x ca. calls c x = Some ca \<longrightarrow> ca_done ca \<longrightarrow> 0 \<le> ca_intret ca \<longrightarrow> ((clt_nonce c, x), u_buf (ca_un ca)) \<in> set (answers s)) \<and>
     (\<forall>(x, st, u) \<in> set rs. 0 \<le> st \<longrightarrow> ((clt_nonce c, x), u_buf u) \<in> set (answers s))"

definition rsys_inv :: "'s rsys \<Rightarrow> bool" where
  "rsys_inv S \<longleftrightarrow> reqs_inv (y_clt S) (reqs S) \<and> srv_inv (y_clt S) (y_srv S) \<and> clt_inv (y_clt S) (y_srv S) (results S)"

lemma srv_inv_sent:
  "srv_inv c s \<Longrightarrow> b \<in> set (sent s) \<Longrightarrow>
    \<exists>x st. reply_is b x st \<and> x < next_xid c \<and> (0 \<le> st \<longrightarrow> ((clt_nonce c, x), b) \<in> set (answers s))"
  unfolding srv_inv_def by (elim conjE) (erule bspec)

section \<open>Client steps\<close>

definition grows :: "rpcc \<Rightarrow> rpcc \<Rightarrow> bool" where
  "grows c c' \<longleftrightarrow> clt_nonce c' = clt_nonce c \<and> next_xid c \<le> next_xid c' \<and> (\<forall>x. settled c x \<longrightarrow> settled c' x)"

lemma grows_less: "grows c c' \<Longrightarrow> x < next_xid c \<Longrightarrow> x < next_xid c'"
  unfolding grows_def by (meson order_less_le_trans)

lemma reqs_inv_grows: "grows c c' \<Longrightarrow> reqs_inv c rq \<Longrightarrow> reqs_inv c' rq"
  by (auto simp: reqs_inv_def Let_def grows_less grows_def)

lemma srv_inv_grows: "grows c c' \<Longrightarrow> srv_inv c s \<Longrightarrow> srv_inv c' s"
  unfolding srv_inv_def using grows_less [of c c'] by (auto simp: grows_def) fastforce+

lemma call1_begin_grows:
  assumes "call1_begin junk proc req c = Inr (Inr (xid, req', xid_rep), c')" "rpcc_inv c" "next_xid c \<noteq> - 1"
  shows "grows c c'" "xid < next_xid c'"
proof -
  note s = call1_begin_step [OF assms(1)]
  have gt: "next_xid c < next_xid c + 1" using assms(3) by (intro succ_gt [of _ "- 1"]) (simp add: order_less_le)
  with s show "grows c c'" "xid < next_xid c'"
    by (auto simp: grows_def settled_def dest: order_less_trans [OF _ gt] intro: order_less_imp_le)
qed

lemma call_step:
  assumes "call1_begin junk proc req c = Inr (Inr (xid, req', xid_rep), c')" "message req" "next_xid c \<noteq> - 1"
    "reqs_inv c rq" "srv_inv c s" "clt_inv c s rs"
  shows "reqs_inv c' (insert (take_buf req') rq)" "srv_inv c' s" "clt_inv c' s rs"
proof -
  have i: "rpcc_inv c" using assms(6) by (simp add: clt_inv_def)
  note g = call1_begin_grows [OF assms(1) i assms(3)] and st = call1_begin_step [OF assms(1)] and b = call1_begin_inv [OF assms(1) i assms(3)]
  have "\<forall>y \<le> xid_rep. settled c' y" using rpcc_inv_front [OF i] st g(1) by (auto simp: grows_def)
  then show "reqs_inv c' (insert (take_buf req') rq)"
    using reqs_inv_grows [OF g(1) assms(4)] proper_request [OF assms(2,1)] b(2) g(2) st by (auto simp: reqs_inv_def Let_def)
  show "srv_inv c' s" by (rule srv_inv_grows [OF g(1) assms(5)])
  show "clt_inv c' s rs" using assms(6) b(1) st by (auto simp: clt_inv_def)
qed

lemma clt_got_pdu_is:
  assumes "reply_is b x st"
  shows "clt_got_pdu b c = (let c = c\<lparr>xid_rep_window := update_xid_rep x (xid_rep_window c)\<rparr> in
    case calls c x of None \<Rightarrow> c | Some ca \<Rightarrow> if ca_done ca then c
      else c\<lparr>calls := (calls c)(x \<mapsto> \<lparr>ca_un = take_in (unmarshall_of b), ca_intret = st, ca_done = True\<rparr>)\<rparr>)"
proof -
  have "u_ok (take_in (unmarshall_of b))" using assms by (simp add: reply_is_def take_in_def unmarshall_of_def)
  then show ?thesis using assms by (auto simp: clt_got_pdu_def reply_is_def Let_def split: option.splits)
qed

lemma reply_step:
  assumes "b \<in> set (sent s)" "reqs_inv c rq" "srv_inv c s" "clt_inv c s rs"
  shows "reqs_inv (clt_got_pdu b c) rq" "srv_inv (clt_got_pdu b c) s" "clt_inv (clt_got_pdu b c) s rs"
proof -
  obtain x st where r: "reply_is b x st" "x < next_xid c" "0 \<le> st \<longrightarrow> ((clt_nonce c, x), b) \<in> set (answers s)"
    using srv_inv_sent [OF assms(3,1)] by blast
  note e = clt_got_pdu_is [OF r(1), of c]
  have g: "grows c (clt_got_pdu b c)" unfolding e by (auto simp: grows_def settled_def Let_def split: option.splits if_splits)
  show "reqs_inv (clt_got_pdu b c) rq" "srv_inv (clt_got_pdu b c) s"
    using reqs_inv_grows [OF g assms(2)] srv_inv_grows [OF g assms(3)] .
  have "rpcc_inv (clt_got_pdu b c)" using r assms(4) by (intro clt_got_pdu_inv) (auto simp: clt_inv_def reply_is_def)
  then show "clt_inv (clt_got_pdu b c) s rs"
    using assms(4) r(3) unfolding clt_inv_def e by (auto simp: Let_def split: option.splits if_splits)
qed

lemma return_step:
  assumes "call1_end xid req xid_rep ch c = Inr (z, c')" "reqs_inv c rq" "srv_inv c s" "clt_inv c s rs"
  shows "reqs_inv c' rq" "srv_inv c' s" "clt_inv c' s ((xid, z) # rs)"
proof -
  have i: "rpcc_inv c" using assms(4) by (simp add: clt_inv_def)
  note e = call1_end_inv [OF assms(1) i]
  have g: "grows c c'" using e by (auto simp: grows_def settled_def)
  show "reqs_inv c' rq" "srv_inv c' s" using reqs_inv_grows [OF g assms(2)] srv_inv_grows [OF g assms(3)] .
  obtain ca where "calls c xid = Some ca" "z = (if ca_done ca then ca_intret ca else timeout_failure, ca_un ca)"
    using assms(1) by (auto simp: call1_end_def Let_def split: option.splits)
  then show "clt_inv c' s ((xid, z) # rs)" using assms(4) e by (auto simp: clt_inv_def split: if_splits)
qed

lemma cancel_step:
  assumes "reqs_inv c rq" "srv_inv c s" "clt_inv c s rs"
  shows "reqs_inv (cancel c) rq" "srv_inv (cancel c) s" "clt_inv (cancel c) s rs"
proof -
  have g: "grows c (cancel c)" by (auto simp: grows_def settled_def cancel_def Let_def split: option.splits)
  show "reqs_inv (cancel c) rq" "srv_inv (cancel c) s" using reqs_inv_grows [OF g assms(1)] srv_inv_grows [OF g assms(2)] .
  show "clt_inv (cancel c) s rs" using assms(3) cancel_inv by (auto simp: clt_inv_def cancel_def Let_def)
qed

lemma bound_step:
  assumes "reqs_inv c rq" "srv_inv c s" "clt_inv c s rs"
  shows "reqs_inv (bind_result r st c) rq" "srv_inv (bind_result r st c) s" "clt_inv (bind_result r st c) s rs"
  using assms by (auto simp: bind_result_def reqs_inv_def srv_inv_def clt_inv_def rpcc_inv_def settled_def)

section \<open>Server steps\<close>

lemma dispatch_begin_procs:
  assumes "dispatch_begin junk net c buf srv = Inr (x, srv')"
  shows "procs srv' = procs srv \<and> srv_nonce srv' = srv_nonce srv \<and> (case x of Execute h req f \<Rightarrow> procs srv (rq_proc h) = Some f | _ \<Rightarrow> True)"
  using assms
  by (auto simp: dispatch_begin_def rbind_def checkduplicate_and_update_def save_conn_def incref_def decref_def updatestat_def Let_def
      split: prod.splits if_splits option.splits rpcstate.splits sum.splits)

lemma dispatch_end_procs:
  assumes "dispatch_end junk net c h b rep srv = Inr (out, srv')"
  shows "procs srv' = procs srv \<and> srv_nonce srv' = srv_nonce srv \<and> 0 \<le> b"
  using assms
  by (auto simp: dispatch_end_def rbind_def add_reply_def incref_def decref_def Let_def split: if_splits option.splits sum.splits)

lemma check_window_new_keeps:
  assumes "check_window xid xid_rep w = (NEW, b, w')" "r \<in> insert (reply_t_new xid) (set w)" "xid_rep \<le> r_xid r"
  shows "r \<in> set w'"
proof -
  let ?v = "insert_reply (reply_t_new xid) w"
  have "w' = dropWhile (\<lambda>r. r_xid r < xid_rep) ?v" using assms(1) by (auto simp: check_window_def split: option.splits if_splits)
  then have "set ?v = set (takeWhile (\<lambda>r. r_xid r < xid_rep) ?v) \<union> set w'" by (metis set_append takeWhile_dropWhile_id)
  moreover have "r \<in> set ?v" using assms(2) by (simp add: set_insert_reply)
  moreover have "r \<notin> set (takeWhile (\<lambda>r. r_xid r < xid_rep) ?v)" using assms(3) set_takeWhileD [of r "\<lambda>r. r_xid r < xid_rep" ?v] by auto
  ultimately show ?thesis by blast
qed

text \<open>The parts of the invariant.\<close>

lemma srv_invD:
  assumes "srv_inv c s"
  shows "ssys_inv s" "f \<in> ran (procs (s_srv s)) \<Longrightarrow> well_behaved f"
    "(k, h, req, f) \<in> set (running s) \<Longrightarrow> well_behaved f \<and> (rq_clt_nonce h, rq_xid h) \<in> set (executed s)"
    "(k', x) \<in> set (executed s) \<Longrightarrow> k' = clt_nonce c \<and> x < next_xid c"
    "((k', x), b) \<in> set (answers s) \<Longrightarrow> (k', x) \<in> set (executed s) \<and> (\<exists>st \<ge> 0. reply_is b x st)"
    "clt_nonce c \<noteq> 0 \<Longrightarrow> (clt_nonce c, x) \<in> set (executed s) \<Longrightarrow> \<not> settled c x \<Longrightarrow> x \<in> r_xid ` set (window_of (s_srv s) (clt_nonce c))"
  using assms unfolding srv_inv_def by fastforce+

lemma srv_invI:
  assumes "ssys_inv s" "\<And>f. f \<in> ran (procs (s_srv s)) \<Longrightarrow> well_behaved f"
    "\<And>k h req f. (k, h, req, f) \<in> set (running s) \<Longrightarrow> well_behaved f \<and> (rq_clt_nonce h, rq_xid h) \<in> set (executed s)"
    "\<And>k x. (k, x) \<in> set (executed s) \<Longrightarrow> k = clt_nonce c \<and> x < next_xid c"
    "\<And>k x b. ((k, x), b) \<in> set (answers s) \<Longrightarrow> (k, x) \<in> set (executed s) \<and> (\<exists>st \<ge> 0. reply_is b x st)"
    "\<And>x. clt_nonce c \<noteq> 0 \<Longrightarrow> (clt_nonce c, x) \<in> set (executed s) \<Longrightarrow> \<not> settled c x \<Longrightarrow> x \<in> r_xid ` set (window_of (s_srv s) (clt_nonce c))"
    "\<And>b. b \<in> set (sent s) \<Longrightarrow> \<exists>x st. reply_is b x st \<and> x < next_xid c \<and> (0 \<le> st \<longrightarrow> ((clt_nonce c, x), b) \<in> set (answers s))"
  shows "srv_inv c s"
  unfolding srv_inv_def
proof (intro conjI ballI impI allI)
  show "ssys_inv s" by (rule assms)
  show "well_behaved f" if "f \<in> ran (procs (s_srv s))" for f using that by (rule assms)
  show "case e of (k, h, req, f) \<Rightarrow> well_behaved f \<and> (rq_clt_nonce h, rq_xid h) \<in> set (executed s)" if "e \<in> set (running s)" for e
    using that assms(3) [of "fst e" "fst (snd e)" "fst (snd (snd e))" "snd (snd (snd e))"] by (simp add: case_prod_beta)
  show "fst e = clt_nonce c" "snd e < next_xid c" if "e \<in> set (executed s)" for e
    using that assms(4) [of "fst e" "snd e"] by simp_all
  show "case e of (kx, b) \<Rightarrow> (case kx of (k, x) \<Rightarrow> \<lambda>b. (k, x) \<in> set (executed s) \<and> (\<exists>st \<ge> 0. reply_is b x st)) b" if "e \<in> set (answers s)" for e
    using that assms(5) by (cases e) (auto split: prod.splits)
  show "\<exists>x st. reply_is b x st \<and> x < next_xid c \<and> (0 \<le> st \<longrightarrow> ((clt_nonce c, x), b) \<in> set (answers s))" if "b \<in> set (sent s)" for b
    using that by (rule assms)
  show "x \<in> r_xid ` set (window_of (s_srv s) (clt_nonce c))" if "clt_nonce c \<noteq> 0" "(clt_nonce c, x) \<in> set (executed s)" "\<not> settled c x" for x
    using that by (rule assms)
qed

lemma failure_sent:
  assumes "st < 0" "int32 st" "reply_bytes junk \<lparr>rh_xid = x, rh_ret = st\<rparr> (marshall_init junk) = Inr b" "x < next_xid c"
  shows "\<exists>x st. reply_is b x st \<and> x < next_xid c \<and> (0 \<le> st \<longrightarrow> ((clt_nonce c, x), b) \<in> A)"
  using reply_bytes_is [OF message_init assms(2,3)] assms(1,4) by force

lemma reqs_invD:
  assumes "reqs_inv c rq" "buf \<in> rq" "h = fst (unpack_req_header (unmarshall_of buf))"
  shows "rq_clt_nonce h = clt_nonce c" "rq_xid h < next_xid c" "rq_xid_rep h < rq_xid h" "y \<le> rq_xid_rep h \<Longrightarrow> settled c y" "proper buf"
  using assms by (auto simp: reqs_inv_def Let_def proper_def)

lemma ssys_inv_answer:
  "ssys_inv s \<Longrightarrow> clt \<noteq> 0 \<Longrightarrow> r \<in> set (window_of (s_srv s) clt) \<Longrightarrow> cb_present r \<Longrightarrow> ((clt, r_xid r), r_buf r) \<in> set (answers s)"
  by (simp add: ssys_inv_def)

lemma xids_add_to_window: "r_xid ` set (add_to_window xid b w) = r_xid ` set w"
proof -
  have "map r_xid (add_to_window xid b w) = map r_xid w" by (simp add: add_to_window_def)
  then show ?thesis by (metis list.set_map)
qed

lemma serve_step:
  assumes "srv_step junk net (\<lambda>b. b \<in> rq) s s'" "reqs_inv c rq" "srv_inv c s"
  shows "srv_inv c s' \<and> set (answers s) \<subseteq> set (answers s')"
proof -
  have i': "ssys_inv s'" using srv_step_inv [OF assms(1) srv_invD(1) [OF assms(3)]] reqs_invD(5) [OF assms(2)] by blast
  note inv = srv_invD [OF assms(3)]
  from assms(1) show ?thesis
  proof cases
    case (over buf k out srv)
    let ?h = "fst (unpack_req_header (unmarshall_of buf))"
    note r = reqs_invD [OF assms(2) over(2) refl]
    have "\<exists>x st. reply_is b x st \<and> x < next_xid c \<and> (0 \<le> st \<longrightarrow> ((clt_nonce c, x), b) \<in> set (answers s))" if b: "b \<in> snd ` set out" for b
      using dispatch_begin_sent [OF over(3) b refl]
    proof (elim disjE bexE exE conjE)
      fix w assume w: "w \<in> set (window_of (s_srv s) (rq_clt_nonce ?h))" "rq_clt_nonce ?h \<noteq> 0" "cb_present w" "r_xid w = rq_xid ?h" "r_buf w = b"
      then have a: "((clt_nonce c, rq_xid ?h), b) \<in> set (answers s)" using ssys_inv_answer [OF inv(1) w(2,1,3)] r(1) by simp
      then obtain st where "0 \<le> st" "reply_is b (rq_xid ?h) st" using inv(5) by blast
      with a r(2) show ?thesis by blast
    qed (rule failure_sent [OF _ _ _ r(2)])
    note snt = this
    have p: "procs srv = procs (s_srv s)" "window_of srv = window_of (s_srv s)"
      using dispatch_begin_procs [OF over(3)] dispatch_begin_Over [OF over(3)] by simp_all
    have "srv_inv c s'"
    proof (rule srv_invI)
      show "ssys_inv s'" by (rule i')
      show "well_behaved g" if "g \<in> ran (procs (s_srv s'))" for g using that inv(2) p(1) by (simp add: over(1))
      show "well_behaved g \<and> (rq_clt_nonce h', rq_xid h') \<in> set (executed s')" if "(k', h', req', g) \<in> set (running s')" for k' h' req' g
        using that inv(3) [of k' h' req' g] by (simp add: over(1))
      show "k' = clt_nonce c \<and> x < next_xid c" if "(k', x) \<in> set (executed s')" for k' x
        using that inv(4) [of k' x] by (simp add: over(1))
      show "(k', x) \<in> set (executed s') \<and> (\<exists>st \<ge> 0. reply_is b x st)" if "((k', x), b) \<in> set (answers s')" for k' x b
        using that inv(5) [of k' x b] by (simp add: over(1))
      show "x \<in> r_xid ` set (window_of (s_srv s') (clt_nonce c))" if "clt_nonce c \<noteq> 0" "(clt_nonce c, x) \<in> set (executed s')" "\<not> settled c x" for x
        using inv(6) [of x] that p(2) by (simp add: over(1))
      show "\<exists>x st. reply_is b x st \<and> x < next_xid c \<and> (0 \<le> st \<longrightarrow> ((clt_nonce c, x), b) \<in> set (answers s'))" if "b \<in> set (sent s')" for b
        using that snt [of b] srv_inv_sent [OF assms(3), of b] by (auto simp: over(1))
    qed
    then show ?thesis by (simp add: over(1))
  next
    case (start buf k h req f srv)
    have h: "h = fst (unpack_req_header (unmarshall_of buf))" using dispatch_begin_Execute [OF start(3)] by blast
    note r = reqs_invD [OF assms(2) start(2) h]
    have win: "x \<in> r_xid ` set (window_of srv (clt_nonce c))"
      if x: "clt_nonce c \<noteq> 0" "x = rq_xid h \<or> (clt_nonce c, x) \<in> set (executed s)" "\<not> settled c x" for x
    proof -
      obtain b w where w: "check_window (rq_xid h) (rq_xid_rep h) (window_of (s_srv s) (clt_nonce c)) = (NEW, b, w)" "window_of srv (clt_nonce c) = w"
        using conjunct2 [OF dispatch_begin_Execute [OF start(3)]] x(1) r(1) by auto
      have "\<exists>e \<in> insert (reply_t_new (rq_xid h)) (set (window_of (s_srv s) (clt_nonce c))). r_xid e = x"
      proof (cases "x = rq_xid h")
        case True then show ?thesis by (simp add: reply_t_new_def)
      next
        case False then show ?thesis using x(2) inv(6) [OF x(1) _ x(3)] by auto
      qed
      then obtain e where e: "e \<in> insert (reply_t_new (rq_xid h)) (set (window_of (s_srv s) (clt_nonce c)))" "r_xid e = x" by blast
      have "\<not> x \<le> rq_xid_rep h" using r(4) x(3) by blast
      then have "rq_xid_rep h \<le> r_xid e" using e(2) by simp
      with check_window_new_keeps [OF w(1) e(1)] e(2) w(2) show ?thesis by blast
    qed
    have p: "ran (procs srv) = ran (procs (s_srv s))" "f \<in> ran (procs (s_srv s))"
      using dispatch_begin_procs [OF start(3)] by (auto simp: ran_def)
    have "srv_inv c s'"
    proof (rule srv_invI)
      show "ssys_inv s'" by (rule i')
      show "well_behaved g" if "g \<in> ran (procs (s_srv s'))" for g using that inv(2) p(1) by (simp add: start(1))
      show "well_behaved g \<and> (rq_clt_nonce h', rq_xid h') \<in> set (executed s')" if "(k', h', req', g) \<in> set (running s')" for k' h' req' g
        using that inv(2) [OF p(2)] inv(3) [of k' h' req' g] by (auto simp: start(1))
      show "k' = clt_nonce c \<and> x < next_xid c" if "(k', x) \<in> set (executed s')" for k' x
        using that r(1,2) inv(4) [of k' x] by (auto simp: start(1))
      show "(k', x) \<in> set (executed s') \<and> (\<exists>st \<ge> 0. reply_is b x st)" if "((k', x), b) \<in> set (answers s')" for k' x b
        using that inv(5) [of k' x b] by (simp add: start(1))
      show "x \<in> r_xid ` set (window_of (s_srv s') (clt_nonce c))" if "clt_nonce c \<noteq> 0" "(clt_nonce c, x) \<in> set (executed s')" "\<not> settled c x" for x
        using win [of x] that by (auto simp: start(1))
      show "\<exists>x st. reply_is b x st \<and> x < next_xid c \<and> (0 \<le> st \<longrightarrow> ((clt_nonce c, x), b) \<in> set (answers s'))" if "b \<in> set (sent s')" for b
        using that srv_inv_sent [OF assms(3), of b] by (simp add: start(1))
    qed
    then show ?thesis by (simp add: start(1))
  next
    case (finish js k h req f ks st rep obj k' b1 srv)
    have f: "well_behaved f" "(rq_clt_nonce h, rq_xid h) \<in> set (executed s)" using inv(3) [of k h req f] finish(2) by auto
    then have m: "message rep" "int32 st" using finish(3) unfolding well_behaved_def by blast+
    have b1: "reply_bytes junk \<lparr>rh_xid = rq_xid h, rh_ret = st\<rparr> rep = Inr b1" "0 \<le> st" "procs srv = procs (s_srv s)"
      using dispatch_end_window [OF finish(4)] dispatch_end_procs [OF finish(4)] by auto
    have ri: "reply_is b1 (rq_xid h) st" by (rule reply_bytes_is [OF m b1(1)])
    have w: "r_xid ` set (window_of srv n) = r_xid ` set (window_of (s_srv s) n)" for n
      using dispatch_end_window [OF finish(4)] by (auto simp: xids_add_to_window)
    have "srv_inv c s'"
    proof (rule srv_invI)
      show "ssys_inv s'" by (rule i')
      show "well_behaved g" if "g \<in> ran (procs (s_srv s'))" for g using that inv(2) b1(3) by (simp add: finish(1))
      show "well_behaved g \<and> (rq_clt_nonce h', rq_xid h') \<in> set (executed s')" if "(k', h', req', g) \<in> set (running s')" for k' h' req' g
        using that inv(3) [of k' h' req' g] finish(2) by (auto simp: finish(1))
      show "k' = clt_nonce c \<and> x < next_xid c" if "(k', x) \<in> set (executed s')" for k' x
        using that inv(4) [of k' x] by (simp add: finish(1))
      show "(k', x) \<in> set (executed s') \<and> (\<exists>st \<ge> 0. reply_is b x st)" if "((k', x), b) \<in> set (answers s')" for k' x b
        using that inv(5) [of k' x b] f(2) ri b1(2) by (auto simp: finish(1))
      show "x \<in> r_xid ` set (window_of (s_srv s') (clt_nonce c))" if "clt_nonce c \<noteq> 0" "(clt_nonce c, x) \<in> set (executed s')" "\<not> settled c x" for x
        using inv(6) [of x] that w by (simp add: finish(1))
      show "\<exists>x st. reply_is b x st \<and> x < next_xid c \<and> (0 \<le> st \<longrightarrow> ((clt_nonce c, x), b) \<in> set (answers s'))" if "b \<in> set (sent s')" for b
        using that srv_inv_sent [OF assms(3), of b] inv(4) [OF f(2)] ri by (auto simp: finish(1))
    qed
    then show ?thesis by (auto simp: finish(1))
  qed
qed

lemma sys_step_inv:
  assumes "sys_step junk net S S'" "rsys_inv S"
  shows "rsys_inv S'"
proof -
  have i: "reqs_inv (y_clt S) (reqs S)" "srv_inv (y_clt S) (y_srv S)" "clt_inv (y_clt S) (y_srv S) (results S)"
    using assms(2) by (simp_all add: rsys_inv_def)
  from assms(1) show ?thesis
  proof cases
    case (call proc req xid req' xid_rep c)
    then show ?thesis using call_step [OF call(2,3,4) i] by (simp add: rsys_inv_def)
  next
    case (serve s)
    note s = serve_step [OF serve(2) i(1,2)]
    then have "clt_inv (y_clt S) s (results S)" using i(3) by (auto simp: clt_inv_def)
    with s i(1) serve(1) show ?thesis by (simp add: rsys_inv_def)
  next
    case (reply b)
    then show ?thesis using reply_step [OF reply(2) i] by (simp add: rsys_inv_def)
  next
    case (return xid req xid_rep ch z c)
    then show ?thesis using return_step [OF return(2) i] by (simp add: rsys_inv_def)
  next
    case cancelled
    then show ?thesis using cancel_step [OF i] by (simp add: rsys_inv_def)
  next
    case (bound r st)
    then show ?thesis using bound_step [OF i] by (simp add: rsys_inv_def)
  qed
qed

lemma rsys_inv_init:
  assumes "reply_window srv = Map.empty" "\<forall>f \<in> ran (procs srv). well_behaved f"
  shows "rsys_inv (rsys_init (rpcc_init nonce lossy rt) srv obj)"
proof -
  have "ssys_inv (ssys_init srv obj)" by (rule ssys_inv_init [OF assms(1)])
  with rpcc_inv_init [of nonce lossy rt] assms show ?thesis
    by (simp add: rsys_inv_def rsys_init_def reqs_inv_def srv_inv_def clt_inv_def) (simp add: ssys_init_def rpcc_init_def)
qed

lemma rsys_reachable_inv:
  assumes "(sys_step junk net)\<^sup>*\<^sup>* (rsys_init (rpcc_init nonce lossy rt) srv obj) S" "reply_window srv = Map.empty"
    "\<forall>f \<in> ran (procs srv). well_behaved f"
  shows "rsys_inv S" "clt_nonce (y_clt S) = (if rt then nonce else 0)"
proof -
  have n: "clt_nonce (y_clt T') = clt_nonce (y_clt T)" if "sys_step junk net T T'" for T T'
    using that
    by cases (auto simp: call1_begin_def clt_got_pdu_def call1_end_def cancel_def bind_result_def c_decref_def Let_def rbind_Inr_iff
      split: if_splits prod.splits option.splits)
  from assms(1) show "rsys_inv S"
    by (induction rule: rtranclp_induct) (auto intro: sys_step_inv rsys_inv_init [OF assms(2,3)])
  from assms(1) show "clt_nonce (y_clt S) = (if rt then nonce else 0)"
    by (induction rule: rtranclp_induct) (simp_all add: n rsys_init_def rpcc_init_def)
qed

section \<open>A link on which messages are delivered\<close>

text \<open>
  The request goes through the server's \<^verbatim>\<open>dispatch\<close> at once, and what that sends arrives while the client
  is waiting for the first time.
\<close>

abbreviation prompt_round :: "conn \<Rightarrow> timespec \<Rightarrow> byte list list \<Rightarrow> round" where
  "prompt_round k now bs \<equiv>
     \<lparr>rd_dead = \<lambda>_. False, rd_connect = Some k, rd_now = now, rd_pdus = bs, rd_dead_after = \<lambda>_. False\<rparr>"

definition loopback :: "(nat \<Rightarrow> byte) \<Rightarrow> net \<Rightarrow> conn \<Rightarrow> timespec \<Rightarrow> (rpcc \<times> 'o rpcs \<times> 'o) transport" where
  "loopback junk net k now proc req to = (\<lambda>(c, srv, obj).
     rbind (call1_begin junk proc req c) (\<lambda>(x, c1).
     rbind (case x of Inl e \<Rightarrow> Inr ([], (srv, obj)) | Inr (xid, req', xid_rep) \<Rightarrow> dispatch junk net k (take_buf req') (srv, obj)) (\<lambda>(out, (srv, obj)).
     rbind (call1 junk now [prompt_round k now (map snd out)] proc req to c) (\<lambda>y.
     case y of None \<Rightarrow> Inl No_Return | Some (z, snt, c') \<Rightarrow> Inr (z, (c', srv, obj))))))"

text \<open>The server accepts the next \<open>n\<close> numbers of the client.\<close>

definition link_ready :: "nat \<Rightarrow> rpcc \<times> 'o rpcs \<times> 'o \<Rightarrow> bool" where
  "link_ready n = (\<lambda>(c, srv, obj).
     rpcc_inv c \<and> unat (next_xid c) + n < 4294967296 \<and> clt_nonce c \<noteq> 0 \<and> c_srv_nonce c \<in> {0, srv_nonce srv} \<and>
     \<not> destroy_wait c \<and> c_reachable c \<and> lossytest c = 0 \<and> \<not> isvalid (dup_req c) \<and>
     (\<forall>r \<in> set (window_of srv (clt_nonce c)). r_xid r < next_xid c))"

lemma transmit_prompt:
  assumes "c_reachable c" "\<not> isvalid (dup_req c)"
  shows "\<exists>k' ch rf. transmit_req (prompt_round k now bs) req None c = ((Some k', [(k', req)]), c\<lparr>chan := ch, c_refs := rf\<rparr>)"
proof (cases "chan c")
  case None
  then have "transmit_req (prompt_round k now bs) req None c = ((Some k, [(k, req)]), c\<lparr>chan := Some k, c_refs := (c_refs c)(k := c_refs c k + 1)\<rparr>)"
    using assms by (simp add: transmit_req_def get_refconn_def c_incref_def)
  then show ?thesis by blast
next
  case (Some k0)
  then have "transmit_req (prompt_round k now bs) req None c = ((Some k0, [(k0, req)]), c\<lparr>chan := Some k0, c_refs := (c_refs c)(k0 := c_refs c k0 + 1)\<rparr>)"
    using assms by (simp add: transmit_req_def get_refconn_def c_incref_def)
  then show ?thesis by blast
qed

lemma call1_prompt:
  assumes "call1_begin junk proc req c = Inr (Inr (xid, req', xid_rep), c1)" "reply_is b xid st"
    "normal now" "1 < tv_sec now" "0 \<le> to" "c_reachable c" "lossytest c = 0" "\<not> isvalid (dup_req c)"
  shows "\<exists>snt ch rf. call1 junk now [prompt_round k now [b]] proc req to c = Inr (Some ((st, take_in (unmarshall_of b)), snt,
    c1\<lparr>calls := (calls c)(xid := None), chan := ch, c_refs := rf, xid_rep_window := update_xid_rep xid (update_xid_rep xid (xid_rep_window c))\<rparr>))"
proof -
  note s = call1_begin_step [OF assms(1)]
  obtain final where f: "add_timespec now to = Inr final" "nanos final = nanos now + to * 1000000" "tv_nsec final \<le> 1000000000"
    using add_timespec_nonneg [OF assms(3,5)] by blast
  have fin: "tv_sec final \<noteq> 0" using f(2,3) assms(3-5) by (auto simp: nanos_def normal_def)
  obtain nxt where n: "add_timespec now to_min = Inr nxt" using add_timespec_nonneg [OF assms(3), of to_min] by auto
  obtain k' ch rf where t: "transmit_req (prompt_round k now [b]) (take_buf req') None c1 = ((Some k', [(k', take_buf req')]), c1\<lparr>chan := ch, c_refs := rf\<rparr>)"
    using transmit_prompt [of c1 k now "[b]" "take_buf req'"] assms(6,8) s by auto
  let ?ca = "\<lparr>ca_un = take_in (unmarshall_of b), ca_intret = st, ca_done = True\<rparr>"
  let ?c = "c1\<lparr>chan := ch, c_refs := rf, xid_rep_window := update_xid_rep xid (xid_rep_window c), calls := (calls c)(xid \<mapsto> ?ca)\<rparr>"
  have "clt_got_pdu b (c1\<lparr>chan := ch, c_refs := rf\<rparr>) = ?c" using s by (simp add: clt_got_pdu_is [OF assms(2)] Let_def)
  then have "call1_loop xid (take_buf req') [prompt_round k now [b]] True to_min final None [] c1 = Inr (Some ((Some k', [(k', take_buf req')]), ?c))"
    using t fin n by simp
  moreover have "call1_end xid (take_buf req') xid_rep (Some k') ?c = Inr ((st, take_in (unmarshall_of b)),
      c1\<lparr>calls := (calls c)(xid := None), chan := ch, c_refs := rf(k' := rf k' - 1), xid_rep_window := update_xid_rep xid (update_xid_rep xid (xid_rep_window c))\<rparr>)"
    using s assms(7) by (simp add: call1_end_def c_decref_def)
  ultimately show ?thesis using assms(1) f(1) by (auto simp: call1_def)
qed

text \<open>The server's side of a prompt call.\<close>

lemma dispatch_prompt:
  assumes "unpack_req_header (unmarshall_of buf) = (h, u)" "u_ok u" "rq_srv_nonce h \<in> {0, srv_nonce srv}" "procs srv (rq_proc h) = Some f"
    "rq_clt_nonce h \<noteq> 0" "\<forall>r \<in> set (window_of srv (rq_clt_nonce h)). r_xid r < rq_xid h"
    "0 \<le> st" "message rep" "int32 st"
  shows "\<exists>b srv1 srv'. dispatch_begin junk \<lparr>isdead = \<lambda>_. False, conn_compare = cmp\<rparr> k buf srv = Inr (Execute h u f, srv1) \<and>
    dispatch_end junk \<lparr>isdead = \<lambda>_. False, conn_compare = cmp\<rparr> k h st rep srv1 = Inr ([(k, b)], srv') \<and>
    reply_is b (rq_xid h) st \<and> drop 24 b = drop 24 (take_buf rep) \<and> procs srv' = procs srv \<and> srv_nonce srv' = srv_nonce srv \<and>
    (\<forall>r \<in> set (window_of srv' (rq_clt_nonce h)). r_xid r \<le> rq_xid h)"
proof -
  let ?net = "\<lparr>isdead = \<lambda>_. False, conn_compare = cmp\<rparr>" and ?w = "window_of srv (rq_clt_nonce h)"
  have nf: "find (\<lambda>r. r_xid r = rq_xid h) ?w = None" using assms(6) by (auto simp: find_None_iff)
  have "\<not> (?w \<noteq> [] \<and> rq_xid h < r_xid (hd ?w))" using assms(6) by (metis hd_in_set order_less_asym)
  then have cw: "check_window (rq_xid h) (rq_xid_rep h) ?w = (NEW, [], dropWhile (\<lambda>r. r_xid r < rq_xid_rep h) (insert_reply (reply_t_new (rq_xid h)) ?w))"
    using nf by (simp add: check_window_def)
  then obtain srv1 where b: "dispatch_begin junk ?net k buf srv = Inr (Execute h u f, srv1)"
    using assms(1-5) by (auto simp: dispatch_begin_def checkduplicate_and_update_def)
  have w1: "r_xid r \<le> rq_xid h" if "r \<in> set (window_of srv1 (rq_clt_nonce h))" for r
    using that dispatch_begin_Execute [OF b] cw assms(5,6) set_dropWhileD
    by (fastforce simp: set_insert_reply reply_t_new_def intro: order_less_imp_le)
  obtain m' where m': "pack_reply_header junk \<lparr>rh_xid = rq_xid h, rh_ret = st\<rparr> rep = Inr m'" "drop 24 (take_buf m') = drop 24 (take_buf rep)"
    using reply_header_read [OF assms(8), of "\<lparr>rh_xid = rq_xid h, rh_ret = st\<rparr>" junk] assms(9) by auto
  then have rb: "reply_bytes junk \<lparr>rh_xid = rq_xid h, rh_ret = st\<rparr> rep = Inr (take_buf m')" by (simp add: reply_bytes_def)
  then obtain srv2 where e: "dispatch_end junk ?net k h st rep srv1 = Inr ([(k, take_buf m')], srv2)"
    using assms(7) by (simp add: dispatch_end_def)
  have "r_xid ` set (window_of srv2 (rq_clt_nonce h)) = r_xid ` set (window_of srv1 (rq_clt_nonce h))"
    using dispatch_end_window [OF e] by (auto simp: xids_add_to_window)
  then have "\<forall>r \<in> set (window_of srv2 (rq_clt_nonce h)). r_xid r \<le> rq_xid h" using w1 by (metis (mono_tags, lifting) image_iff)
  with b e show ?thesis
    using reply_bytes_is [OF assms(8,9) rb] m'(2) dispatch_begin_procs [OF b] dispatch_end_procs [OF e] by auto
qed

lemma loopback_call:
  assumes "link_ready (Suc n) (c, srv, obj)" "bind_done c \<longleftrightarrow> proc \<noteq> bind_proc" "0 \<le> to" "procs srv proc = Some f" "message m"
    "\<And>u. u_good u \<Longrightarrow> u_rest u = drop 24 (take_buf m) \<Longrightarrow> f u (marshall_init junk) obj = Inr ((st, rep), obj')"
    "0 \<le> st" "int32 st" "message rep"
  shows "\<exists>c' srv' b. loopback junk \<lparr>isdead = \<lambda>_. False, conn_compare = cmp\<rparr> k \<lparr>tv_sec = int t + 2, tv_nsec = 0\<rparr> proc m to (c, srv, obj) =
      Inr ((st, take_in (unmarshall_of b)), (c', srv', obj')) \<and> link_ready n (c', srv', obj') \<and> bind_done c' = bind_done c \<and>
      procs srv' = procs srv \<and> srv_nonce srv' = srv_nonce srv \<and> reply_is b (next_xid c) st \<and> drop 24 b = drop 24 (take_buf rep)"
proof -
  have r: "rpcc_inv c" "unat (next_xid c) + Suc n < 4294967296" "clt_nonce c \<noteq> 0" "c_srv_nonce c \<in> {0, srv_nonce srv}" "\<not> destroy_wait c"
    "c_reachable c" "lossytest c = 0" "\<not> isvalid (dup_req c)" "\<forall>r \<in> set (window_of srv (clt_nonce c)). r_xid r < next_xid c"
    using assms(1) by (simp_all add: link_ready_def)
  have nx: "next_xid c \<noteq> - 1" "unat (next_xid c + 1) = Suc (unat (next_xid c))"
    using r(2) by (auto simp: unat_word_ariths unsigned_minus_1_eq_mask mask_eq_exp_minus_1)
  let ?h = "\<lparr>rq_xid = next_xid c, rq_proc = proc, rq_clt_nonce = clt_nonce c, rq_srv_nonce = c_srv_nonce c, rq_xid_rep = hd (xid_rep_window c)\<rparr>"
  obtain req' where q: "pack_req_header junk ?h m = Inr req'" "length (take_buf req') = m_ind m" "drop 24 (take_buf req') = drop 24 (take_buf m)"
    using req_header_read [OF assms(5), of junk ?h] by blast
  have len: "24 \<le> length (take_buf req')" "length (take_buf req') < 2147483648" using q(2) assms(5) by (simp_all add: message_def)
  define c1 where "c1 = c\<lparr>next_xid := next_xid c + 1, calls := (calls c)(next_xid c \<mapsto> \<lparr>ca_un = unmarshall_null, ca_intret = 0, ca_done = False\<rparr>)\<rparr>"
  have b: "call1_begin junk proc m c = Inr (Inr (next_xid c, req', hd (xid_rep_window c)), c1)"
    using q(1) assms(2) r(5) by (simp add: call1_begin_def Let_def c1_def)
  note pr = proper_request [OF assms(5) b]
  note g = take_in_good [OF len(1,2)]
  have f: "f (take_in (unmarshall_of (take_buf req'))) (marshall_init junk) obj = Inr ((st, rep), obj')"
    using assms(6) [OF g(1)] g(2) q(3) by simp
  have "u_ok (take_in (unmarshall_of (take_buf req')))" using g(1) by (simp add: u_good_def)
  then obtain bt srv1 srv' where e: "dispatch_begin junk \<lparr>isdead = \<lambda>_. False, conn_compare = cmp\<rparr> k (take_buf req') srv = Inr (Execute ?h (take_in (unmarshall_of (take_buf req'))) f, srv1)"
    "dispatch_end junk \<lparr>isdead = \<lambda>_. False, conn_compare = cmp\<rparr> k ?h st rep srv1 = Inr ([(k, bt)], srv')"
    and d: "reply_is bt (next_xid c) st" "drop 24 bt = drop 24 (take_buf rep)" "procs srv' = procs srv" "srv_nonce srv' = srv_nonce srv"
    "\<forall>r \<in> set (window_of srv' (clt_nonce c)). r_xid r \<le> next_xid c"
    using dispatch_prompt [where f = f and junk = junk and srv = srv and k = k and cmp = cmp, OF pr _ _ _ _ _ assms(7,9,8)] r(3,4,9) assms(4) by auto
  have dd: "dispatch junk \<lparr>isdead = \<lambda>_. False, conn_compare = cmp\<rparr> k (take_buf req') (srv, obj) = Inr ([(k, bt)], (srv', obj'))"
    using e f by (simp add: dispatch_def)
  obtain snt ch rf where l: "call1 junk \<lparr>tv_sec = int t + 2, tv_nsec = 0\<rparr> [prompt_round k \<lparr>tv_sec = int t + 2, tv_nsec = 0\<rparr> [bt]] proc m to c =
      Inr (Some ((st, take_in (unmarshall_of bt)), snt, c1\<lparr>calls := (calls c)(next_xid c := None), chan := ch, c_refs := rf,
        xid_rep_window := update_xid_rep (next_xid c) (update_xid_rep (next_xid c) (xid_rep_window c))\<rparr>))" (is "_ = Inr (Some (_, _, ?c'))")
    using call1_prompt [where now = "\<lparr>tv_sec = int t + 2, tv_nsec = 0\<rparr>" and k = k, OF b d(1) _ _ assms(3) r(6-8)] by (auto simp: normal_def)
  have i1: "rpcc_inv c1" by (rule call1_begin_inv(1) [OF b r(1) nx(1)])
  let ?d = "c1\<lparr>calls := (calls c)(next_xid c := None), xid_rep_window := update_xid_rep (next_xid c) (xid_rep_window c)\<rparr>"
  have gt: "next_xid c < next_xid c + 1" using nx(2) by (simp add: word_less_nat_alt)
  have i2: "rpcc_inv ?d"
    using i1 gt by (intro rpcc_inv_update [OF i1, where xid = "next_xid c"]) (auto simp: c1_def settled_def rpcc_inv_def split: if_splits)
  have i3: "rpcc_inv ?c'"
    using i2 gt by (intro rpcc_inv_update [OF i2, where xid = "next_xid c"]) (auto simp: c1_def settled_def rpcc_inv_def split: if_splits)
  have "r_xid e < next_xid c + 1" if "e \<in> set (window_of srv' (clt_nonce c))" for e
    using d(5) that nx(2) by (metis le_imp_less_Suc word_le_nat_alt word_less_nat_alt)
  then have "link_ready n (?c', srv', obj')" using i3 r d(4) nx(2) by (auto simp: link_ready_def c1_def)
  moreover have "loopback junk \<lparr>isdead = \<lambda>_. False, conn_compare = cmp\<rparr> k \<lparr>tv_sec = int t + 2, tv_nsec = 0\<rparr> proc m to (c, srv, obj) =
      Inr ((st, take_in (unmarshall_of bt)), (?c', srv', obj'))"
    using b dd l by (simp add: loopback_def)
  ultimately show ?thesis using d(1-4) by (intro exI [of _ ?c'] exI [of _ srv'] exI [of _ bt]) (simp add: c1_def)
qed

definition link_good :: "nat \<Rightarrow> rpcc \<times> 'o rpcs \<times> 'o \<Rightarrow> bool" where
  "link_good n s \<longleftrightarrow> link_ready n s \<and> bind_done (fst s)"

interpretation loop: rpc_link "loopback junk \<lparr>isdead = \<lambda>_. False, conn_compare = cmp\<rparr> k \<lparr>tv_sec = int t + 2, tv_nsec = 0\<rparr>" junk
  "\<lambda>s. procs (fst (snd s))" "\<lambda>s. snd (snd s)" link_good for junk cmp k t
proof
  fix n proc m b rep o' and to :: int and s :: "rpcc \<times> 'a rpcs \<times> 'a" and f :: "'a handler"
  assume a: "link_good (Suc n) s" "0 \<le> to" "procs (fst (snd s)) proc = Some f" "proc \<noteq> bind_proc" "message m"
    "\<And>u. u_good u \<Longrightarrow> u_rest u = drop 24 (take_buf m) \<Longrightarrow> f u (marshall_init junk) (snd (snd s)) = Inr ((b, rep), o')"
    "0 \<le> b" "int32 b" "message rep"
  obtain c srv obj where s: "s = (c, srv, obj)" by (metis prod_cases3)
  obtain c' srv' bt where l: "loopback junk \<lparr>isdead = \<lambda>_. False, conn_compare = cmp\<rparr> k \<lparr>tv_sec = int t + 2, tv_nsec = 0\<rparr> proc m to s =
      Inr ((b, take_in (unmarshall_of bt)), (c', srv', o'))" "link_ready n (c', srv', o')" "bind_done c'" "procs srv' = procs srv"
      "reply_is bt (next_xid c) b" "drop 24 bt = drop 24 (take_buf rep)"
    using loopback_call [of n c srv obj proc to f m junk b rep o' cmp k t] a unfolding s by (auto simp: link_good_def)
  have "24 \<le> length bt" "length bt < 2147483648" using l(5) by (simp_all add: reply_is_def)
  from l take_in_good [OF this] s
  show "\<exists>s' u. loopback junk \<lparr>isdead = \<lambda>_. False, conn_compare = cmp\<rparr> k \<lparr>tv_sec = int t + 2, tv_nsec = 0\<rparr> proc m to s = Inr ((b, u), s') \<and>
      link_good n s' \<and> (\<lambda>p. procs (fst (snd s')) p) = procs (fst (snd s)) \<and> snd (snd s') = o' \<and> u_good u \<and> u_rest u = drop 24 (take_buf rep)"
    by (intro exI [of _ "(c', srv', o')"] exI [of _ "take_in (unmarshall_of bt)"]) (simp add: link_good_def)
qed

section \<open>Binding to a fresh server\<close>

lemma handler1_well_behaved:
  assumes "codec pr gr er dr" "\<And>a s b r' s'. meth a r0 s = Inr ((b, r'), s') \<Longrightarrow> dr r' \<and> length (er r') < 2147483000 \<and> int32 b"
  shows "well_behaved (handler1 ga pr meth r0)"
  unfolding well_behaved_def
proof (intro allI impI)
  fix u junk s b rep s' assume h: "handler1 ga pr meth r0 u (marshall_init junk) s = Inr ((b, rep), s')"
  obtain a args where g: "ga u = Inr (a, args)" using h by (auto simp: handler1_def rbind_Inr_iff)
  show "message rep \<and> int32 b"
  proof (cases "okdone args")
    case True
    then obtain r' where m: "meth a r0 s = Inr ((b, r'), s')" "pr r' (marshall_init junk) = Inr rep"
      using h g by (auto simp: handler1_def rbind_Inr_iff)
    with codec.put_message [OF assms(1), of r' junk] assms(2) [OF m(1)] show ?thesis by (auto simp: message_def)
  qed (use h g in \<open>auto simp: handler1_def int32_def\<close>)
qed

text \<open>A server as its constructor leaves it, and a client that binds to it.\<close>

definition bind_handler :: "unit handler" where
  "bind_handler = handler1 get_int (put_int (\<lambda>_. 0)) (rpcbind 7) 0"

definition fresh_srv :: "unit rpcs" where
  "fresh_srv = \<lparr>srv_nonce = 7, reply_window = Map.empty, conns = Map.empty, counting = 0, curr_counts = 0,
     counts = (\<lambda>_. 0), srv_reachable = True, procs = [bind_proc \<mapsto> bind_handler], refs = (\<lambda>_. 0), jobs = []\<rparr>"

lemma fresh_srv_init: "rpcs_init (\<lambda>_. 0) 7 0 0 = Inr fresh_srv"
  by (simp add: rpcs_init_def reg1_def fresh_srv_def bind_handler_def)

lemma bind_handler_well_behaved: "\<forall>f \<in> ran (procs fresh_srv). well_behaved f"
proof -
  have "well_behaved bind_handler"
    unfolding bind_handler_def by (rule handler1_well_behaved [OF int_codec.codec_axioms]) (auto simp: rpcbind_def int32_def)
  then show ?thesis by (simp add: fresh_srv_def)
qed

lemma bind_run:
  obtains c1 b c2 z srv1 srv2 h u m m' where
    "call1_begin demo_junk bind_proc m (rpcc_init 3 0 True) = Inr (Inr (1, m', 0), c1)" "message m"
    "dispatch_begin demo_junk demo_net 0 (take_buf m') fresh_srv = Inr (Execute h u bind_handler, srv1)" "rq_clt_nonce h = 3" "rq_xid h = 1"
    "\<exists>rep. bind_handler u (marshall_init demo_junk) () = Inr ((0, rep), ()) \<and> dispatch_end demo_junk demo_net 0 h 0 rep srv1 = Inr ([(0, b)], srv2)"
    "call1_end 1 (take_buf m') 0 None (clt_got_pdu b c1) = Inr ((0, z), c2)"
    "calls c1 1 = Some \<lparr>ca_un = unmarshall_null, ca_intret = 0, ca_done = False\<rparr>"
proof -
  obtain m where m: "put_int demo_junk 0 (marshall_init demo_junk) = Inr m" "message m" "drop 24 (take_buf m) = be32 (word_of_int 0)"
    using int_codec.put_message [of 0 demo_junk demo_junk] by (auto simp: int32_def message_def)
  obtain rep where rep: "put_int demo_junk (sint (7 :: u32)) (marshall_init demo_junk) = Inr rep" "message rep"
    using int_codec.put_message [of "sint (7 :: u32)" demo_junk demo_junk] by (auto simp: int32_def message_def)
  let ?c = "rpcc_init 3 0 True"
  let ?h = "\<lparr>rq_xid = 1, rq_proc = bind_proc, rq_clt_nonce = 3, rq_srv_nonce = 0, rq_xid_rep = 0\<rparr>"
  obtain m' where m': "pack_req_header demo_junk ?h m = Inr m'" "length (take_buf m') = m_ind m" "drop 24 (take_buf m') = drop 24 (take_buf m)"
    "unpack_req_header (unmarshall_of (take_buf m')) = (?h, take_in (unmarshall_of (take_buf m')))"
    using req_header_read [OF m(2), of demo_junk ?h] by blast
  let ?u = "take_in (unmarshall_of (take_buf m'))"
  have "24 \<le> length (take_buf m')" "length (take_buf m') < 2147483648" using m(2) m'(2) by (simp_all add: message_def)
  note g = take_in_good [OF this]
  obtain u' where u': "get_int ?u = Inr (0, u')" "u_good u'" "u_rest u' = []"
    using int_codec.get_law [of ?u 0 "[]"] g m'(3) m(3) by (auto simp: int32_def)
  have f: "bind_handler ?u (marshall_init demo_junk) () = Inr ((0, rep), ())"
    using u' okdone_iff rep(1) by (simp add: bind_handler_def handler1_def rpcbind_def)
  obtain b srv1 srv2 where d: "dispatch_begin demo_junk demo_net 0 (take_buf m') fresh_srv = Inr (Execute ?h ?u bind_handler, srv1)"
    "dispatch_end demo_junk demo_net 0 ?h 0 rep srv1 = Inr ([(0, b)], srv2)" "reply_is b 1 0"
    using dispatch_prompt [OF m'(4), of fresh_srv bind_handler 0 rep demo_junk "\<lambda>_ _. 0" 0] g(1) rep(2)
    by (auto simp: u_good_def fresh_srv_def window_of_def int32_def)
  define c1 where "c1 = ?c\<lparr>next_xid := 2, calls := [1 \<mapsto> \<lparr>ca_un = unmarshall_null, ca_intret = 0, ca_done = False\<rparr>]\<rparr>"
  have c1: "call1_begin demo_junk bind_proc m ?c = Inr (Inr (1, m', 0), c1)"
    using m'(1) by (simp add: call1_begin_def rpcc_init_def c1_def)
  obtain c2 where "call1_end 1 (take_buf m') 0 None (clt_got_pdu b c1) = Inr ((0, take_in (unmarshall_of b)), c2)"
    by (simp add: clt_got_pdu_is [OF d(3)] c1_def rpcc_init_def call1_end_def)
  with c1 m(2) d f show thesis by (intro that [of m m' c1 ?h ?u srv1 b srv2]) (auto simp: c1_def)
qed

lemma bind_started:
  "\<exists>S ca. (sys_step demo_junk demo_net)\<^sup>*\<^sup>* (rsys_init (rpcc_init 3 0 True) fresh_srv ()) S \<and> calls (y_clt S) 1 = Some ca \<and>
     \<not> ca_done ca \<and> (3, 1) \<in> set (executed (y_srv S))"
proof -
  obtain c1 b c2 z srv1 srv2 h u m m' where r: "call1_begin demo_junk bind_proc m (rpcc_init 3 0 True) = Inr (Inr (1, m', 0), c1)" "message m"
    "dispatch_begin demo_junk demo_net 0 (take_buf m') fresh_srv = Inr (Execute h u bind_handler, srv1)" "rq_clt_nonce h = 3" "rq_xid h = 1"
    "\<exists>rep. bind_handler u (marshall_init demo_junk) () = Inr ((0, rep), ()) \<and> dispatch_end demo_junk demo_net 0 h 0 rep srv1 = Inr ([(0, b)], srv2)"
    "call1_end 1 (take_buf m') 0 None (clt_got_pdu b c1) = Inr ((0, z), c2)"
    "calls c1 1 = Some \<lparr>ca_un = unmarshall_null, ca_intret = 0, ca_done = False\<rparr>"
    by (rule bind_run)
  let ?S0 = "rsys_init (rpcc_init 3 0 True) fresh_srv ()"
  define S1 where "S1 = ?S0\<lparr>y_clt := c1, reqs := {take_buf m'}\<rparr>"
  define s2 where "s2 = (y_srv S1)\<lparr>s_srv := srv1, running := [(0, h, u, bind_handler)], executed := [(3, 1)]\<rparr>"
  have 1: "sys_step demo_junk demo_net ?S0 S1"
    using sys_step.call [where S = ?S0 and junk = demo_junk and net = demo_net, of bind_proc m 1 m' 0 c1] r(1,2)
    by (simp add: S1_def rsys_init_def rpcc_init_def)
  have 2: "sys_step demo_junk demo_net S1 (S1\<lparr>y_srv := s2\<rparr>)"
    using srv_step.start [where S = "y_srv S1" and ok = "\<lambda>b. b \<in> reqs S1", of "take_buf m'" demo_junk demo_net 0 h u bind_handler srv1] r(3-5)
    by (intro sys_step.serve) (simp add: S1_def s2_def rsys_init_def ssys_init_def)
  from 1 2 have "(sys_step demo_junk demo_net)\<^sup>*\<^sup>* ?S0 (S1\<lparr>y_srv := s2\<rparr>)" by (meson converse_rtranclp_into_rtranclp rtranclp.rtrancl_refl)
  then show ?thesis using r(8) by (intro exI [of _ "S1\<lparr>y_srv := s2\<rparr>"]) (auto simp: S1_def s2_def)
qed

section \<open>Properties\<close>

text \<open>C1. A call that returns a status of its handler (not one of the library's negative codes) was
  executed exactly once, although the network may lose, delay, reorder and repeat every message and
  any number of threads call, time out and cancel at the same time; and the reply it returns is, byte
  for byte, the one that this execution produced.\<close>

theorem rpc_exactly_once:
  assumes "(sys_step junk net)\<^sup>*\<^sup>* (rsys_init (rpcc_init nonce lossy True) srv obj) S" "reply_window srv = Map.empty"
    "\<forall>f \<in> ran (procs srv). well_behaved f" "nonce \<noteq> 0" "(xid, st, u) \<in> set (results S)" "0 \<le> st"
  shows "count_list (executed (y_srv S)) (nonce, xid) = 1 \<and> ((nonce, xid), u_buf u) \<in> set (answers (y_srv S))"
proof -
  note r = rsys_reachable_inv [OF assms(1-3)]
  have s: "srv_inv (y_clt S) (y_srv S)" and c: "clt_inv (y_clt S) (y_srv S) (results S)" using r(1) by (simp_all add: rsys_inv_def)
  have a: "((nonce, xid), u_buf u) \<in> set (answers (y_srv S))" using c assms(5,6) r(2) by (auto simp: clt_inv_def)
  then have e: "(nonce, xid) \<in> set (executed (y_srv S))" using srv_invD(5) [OF s] by blast
  have "distinct (filter (\<lambda>e. fst e \<noteq> 0) (executed (y_srv S)))" using srv_invD(1) [OF s] by (simp add: ssys_inv_def)
  then have "count_list (executed (y_srv S)) (nonce, xid) \<le> 1"
    using count_list_nonce [OF assms(4)] count_list_distinct by metis
  moreover have "count_list (executed (y_srv S)) (nonce, xid) \<noteq> 0" using e by (simp add: count_list_0_iff)
  ultimately show ?thesis using a by simp
qed

lemma rpc_exactly_once_witness:
  "\<exists>S st u. (sys_step demo_junk demo_net)\<^sup>*\<^sup>* (rsys_init (rpcc_init 3 0 True) fresh_srv ()) S \<and> (1, st, u) \<in> set (results S) \<and> 0 \<le> st \<and>
     count_list (executed (y_srv S)) (3, 1) = 1"
proof -
  obtain c1 b c2 z srv1 srv2 h u m m' where r: "call1_begin demo_junk bind_proc m (rpcc_init 3 0 True) = Inr (Inr (1, m', 0), c1)" "message m"
    "dispatch_begin demo_junk demo_net 0 (take_buf m') fresh_srv = Inr (Execute h u bind_handler, srv1)" "rq_clt_nonce h = 3" "rq_xid h = 1"
    "\<exists>rep. bind_handler u (marshall_init demo_junk) () = Inr ((0, rep), ()) \<and> dispatch_end demo_junk demo_net 0 h 0 rep srv1 = Inr ([(0, b)], srv2)"
    "call1_end 1 (take_buf m') 0 None (clt_got_pdu b c1) = Inr ((0, z), c2)"
    "calls c1 1 = Some \<lparr>ca_un = unmarshall_null, ca_intret = 0, ca_done = False\<rparr>"
    by (rule bind_run)
  let ?S0 = "rsys_init (rpcc_init 3 0 True) fresh_srv ()"
  define S1 where "S1 = ?S0\<lparr>y_clt := c1, reqs := {take_buf m'}\<rparr>"
  define s2 where "s2 = (y_srv S1)\<lparr>s_srv := srv1, running := [(0, h, u, bind_handler)], executed := [(3, 1)]\<rparr>"
  define s3 where "s3 = s2\<lparr>s_srv := srv2, s_obj := (), running := [], answers := [((3, 1), b)], sent := [b]\<rparr>"
  define S4 where "S4 = S1\<lparr>y_srv := s3, y_clt := clt_got_pdu b c1\<rparr>"
  define S5 where "S5 = S4\<lparr>y_clt := c2, results := [(1, 0, z)]\<rparr>"
  have 1: "sys_step demo_junk demo_net ?S0 S1"
    using sys_step.call [where S = ?S0 and junk = demo_junk and net = demo_net, of bind_proc m 1 m' 0 c1] r(1,2)
    by (simp add: S1_def rsys_init_def rpcc_init_def)
  have 2: "sys_step demo_junk demo_net S1 (S1\<lparr>y_srv := s2\<rparr>)"
    using srv_step.start [where S = "y_srv S1" and ok = "\<lambda>b. b \<in> reqs S1", of "take_buf m'" demo_junk demo_net 0 h u bind_handler srv1] r(3-5)
    by (intro sys_step.serve) (simp add: S1_def s2_def rsys_init_def ssys_init_def)
  have 3: "sys_step demo_junk demo_net (S1\<lparr>y_srv := s2\<rparr>) (S1\<lparr>y_srv := s3\<rparr>)"
  proof -
    obtain rep where "bind_handler u (marshall_init demo_junk) () = Inr ((0, rep), ())" "dispatch_end demo_junk demo_net 0 h 0 rep srv1 = Inr ([(0, b)], srv2)"
      using r(6) by blast
    then have "srv_step demo_junk demo_net (\<lambda>b. b \<in> reqs S1) s2 s3"
      using srv_step.finish [where S = s2 and junk = demo_junk and net = demo_net and ok = "\<lambda>b. b \<in> reqs S1", of "[]" 0 h u bind_handler "[]" 0 rep "()" 0 b srv2] r(4,5)
      by (simp add: s2_def s3_def S1_def rsys_init_def ssys_init_def)
    then show ?thesis using sys_step.serve [where S = "S1\<lparr>y_srv := s2\<rparr>" and s = s3] by simp
  qed
  have 4: "sys_step demo_junk demo_net (S1\<lparr>y_srv := s3\<rparr>) S4"
    using sys_step.reply [where S = "S1\<lparr>y_srv := s3\<rparr>" and b = b] by (simp add: S4_def S1_def s3_def)
  have 5: "sys_step demo_junk demo_net S4 S5"
    using sys_step.return [where S = S4, of 1 "take_buf m'" 0 None "(0, z)" c2] r(7) by (simp add: S5_def S4_def S1_def rsys_init_def)
  have run: "(sys_step demo_junk demo_net)\<^sup>*\<^sup>* ?S0 S5"
    using 1 2 3 4 5 by (meson converse_rtranclp_into_rtranclp rtranclp.rtrancl_refl)
  have res: "(1, 0, z) \<in> set (results S5)" by (simp add: S5_def)
  have "count_list (executed (y_srv S5)) (3, 1) = 1"
    using rpc_exactly_once [OF run _ bind_handler_well_behaved _ res] by (simp add: fresh_srv_def)
  with run res show ?thesis by blast
qed

text \<open>C24. The server never forgets a request that still matters: while a call is waiting and its request
  has been executed, every further copy of the request that reaches the server is dropped or answered
  with the saved reply; it is never refused as forgotten.\<close>

theorem live_call_remembered:
  assumes "(sys_step junk net)\<^sup>*\<^sup>* (rsys_init (rpcc_init nonce lossy True) srv obj) S" "reply_window srv = Map.empty"
    "\<forall>f \<in> ran (procs srv). well_behaved f" "nonce \<noteq> 0" "calls (y_clt S) xid = Some ca" "\<not> ca_done ca"
    "(nonce, xid) \<in> set (executed (y_srv S))"
  shows "fst (checkduplicate_and_update nonce xid xid_rep (s_srv (y_srv S))) \<in> {INPROGRESS, DONE}"
proof -
  note r = rsys_reachable_inv [OF assms(1-3)]
  have s: "srv_inv (y_clt S) (y_srv S)" using r(1) by (simp add: rsys_inv_def)
  have "\<not> settled (y_clt S) xid" using assms(5,6) by (simp add: settled_def)
  then have "xid \<in> r_xid ` set (window_of (s_srv (y_srv S)) nonce)" using srv_invD(6) [OF s] assms(4,7) r(2) by simp
  then obtain e where "find (\<lambda>r. r_xid r = xid) (window_of (s_srv (y_srv S)) nonce) = Some e"
    using find_xid_None by (metis not_Some_eq)
  then show ?thesis by (auto simp: checkduplicate_and_update_def check_window_def split: prod.splits if_splits)
qed

lemma live_call_remembered_witness:
  "\<exists>(S :: unit rsys) ca. calls (y_clt S) 1 = Some ca \<and> (3, 1) \<in> set (executed (y_srv S)) \<and>
     fst (checkduplicate_and_update 3 1 0 (s_srv (y_srv S))) \<in> {INPROGRESS, DONE}"
proof -
  obtain S ca where S: "(sys_step demo_junk demo_net)\<^sup>*\<^sup>* (rsys_init (rpcc_init 3 0 True) fresh_srv ()) S" "calls (y_clt S) 1 = Some ca"
    "\<not> ca_done ca" "(3, 1) \<in> set (executed (y_srv S))"
    using bind_started by blast
  have "fst (checkduplicate_and_update 3 1 0 (s_srv (y_srv S))) \<in> {INPROGRESS, DONE}"
    by (rule live_call_remembered [OF S(1) _ bind_handler_well_behaved _ S(2,3,4)]) (simp_all add: fresh_srv_def)
  with S show ?thesis by blast
qed

text \<open>C9. Transparency: where the messages of a call are delivered, a remote call through the client
  stub, the marshalling, the client's and the server's side of the library, the reply window and the
  handler is the method call.  The caller gets the method's status and result, the server's object
  makes the method's step, and nothing else of it changes.  By the tuple laws of the stubs this covers
  every arity from one to seven.\<close>

theorem rpc_transparent:
  assumes "codec pa ga ea da" "codec pr gr er dr" "procs srv proc = Some (handler1 ga pr meth r0)" "proc \<noteq> bind_proc"
    "link_good (Suc n) (c, srv, obj)" "0 \<le> to" "da a" "length (ea a) < 2147483000"
    "meth a r0 obj = Inr ((b, r'), obj')" "dr r'" "length (er r') < 2147483000" "0 \<le> b" "int32 b"
  shows "\<exists>c' srv'. rpc_call1 (loopback junk \<lparr>isdead = \<lambda>_. False, conn_compare = cmp\<rparr> k \<lparr>tv_sec = int t + 2, tv_nsec = 0\<rparr>)
      junk pa gr proc a r to (c, srv, obj) = Inr ((b, r'), (c', srv', obj')) \<and> link_good n (c', srv', obj') \<and> procs srv' = procs srv"
proof -
  obtain s' where "rpc_call1 (loopback junk \<lparr>isdead = \<lambda>_. False, conn_compare = cmp\<rparr> k \<lparr>tv_sec = int t + 2, tv_nsec = 0\<rparr>)
      junk pa gr proc a r to (c, srv, obj) = Inr ((b, r'), s')" "link_good n s'" "procs (fst (snd s')) = procs srv" "snd (snd s') = obj'"
    using loop.remote_call [where s = "(c, srv, obj)" and r = r and junk = junk and cmp = cmp and k = k and t = t and meth = meth and ?r0.0 = r0 and o' = obj',
      OF assms(1,2) _ assms(4-8) _ assms(10-13)] assms(3,9) by auto
  then show ?thesis by (cases s') auto
qed

lemma rpc_transparent_witness:
  "\<exists>c' srv'. rpc_call1 (loopback demo_junk demo_net 0 \<lparr>tv_sec = int 5 + 2, tv_nsec = 0\<rparr>) demo_junk (put_ull demo_junk) get_string 9 5 [] 1000
     ((rpcc_init 3 0 True)\<lparr>bind_done := True\<rparr>,
      fresh_srv\<lparr>procs := [9 \<mapsto> handler1 get_ull (put_string demo_junk) (\<lambda>a r s. Inr ((0, ''ok''), s)) []]\<rparr>, ()) = Inr ((0, ''ok''), (c', srv', ()))"
proof -
  have "link_good (Suc 0) ((rpcc_init 3 0 True)\<lparr>bind_done := True\<rparr>,
      fresh_srv\<lparr>procs := [9 \<mapsto> handler1 get_ull (put_string demo_junk) (\<lambda>a r s. Inr ((0, ''ok''), s)) []]\<rparr>, ())"
    using rpcc_inv_init [of 3 0 True]
    by (auto simp: link_good_def link_ready_def rpcc_inv_def settled_def rpcc_init_def fresh_srv_def window_of_def isvalid_def request_clear_def)
  from rpc_transparent [OF ull_codec.codec_axioms [of demo_junk] string_codec.codec_axioms [of demo_junk] _ _ this, where proc = 9 and ?r0.0 = "[]" and to = 1000 and a = 5 and b = 0
      and r' = "''ok''" and obj' = "()" and junk = demo_junk and cmp = "\<lambda>_ _. 0" and k = 0 and t = 5 and r = "[]" and meth = "\<lambda>a r s. Inr ((0, ''ok''), s)"]
  show ?thesis by (auto simp: int32_def enc_string_def be64_def)
qed

end
