(* ===== verification/Extent_Rpc.thy ===== *)
theory Extent_Rpc
  imports Rpc_System Extent_Server
begin

text \<open>
  The extent service over RPC: the wire format of the attributes (\<^verbatim>\<open>src/extent_protocol.h\<close>), the stubs of
  \<^verbatim>\<open>src/extent_client.cc\<close>, and the server process of \<^verbatim>\<open>src/extent_smain.cc\<close> with its five registered
  methods.  The stubs over a link that delivers are the methods of \<^verbatim>\<open>extent_server\<close>.
\<close>

section \<open>Wire protocol\<close>

abbreviation rpc_put :: u32 where "rpc_put \<equiv> 0x6001"
abbreviation rpc_get :: u32 where "rpc_get \<equiv> 0x6002"
abbreviation rpc_getattr :: u32 where "rpc_getattr \<equiv> 0x6003"
abbreviation rpc_remove :: u32 where "rpc_remove \<equiv> 0x6004"
abbreviation rpc_create :: u32 where "rpc_create \<equiv> 0x6005"

definition put_attr :: "(nat \<Rightarrow> byte) \<Rightarrow> attr \<Rightarrow> marshall \<Rightarrow> marshall res" where
  "put_attr junk a m =
     rbind (put_uint junk (a_type a) m) (\<lambda>m.
     rbind (put_uint junk (a_atime a) m) (\<lambda>m.
     rbind (put_uint junk (a_mtime a) m) (\<lambda>m.
     rbind (put_uint junk (a_ctime a) m) (\<lambda>m.
     put_uint junk (a_size a) m))))"

definition get_attr :: "unmarshall \<Rightarrow> (attr \<times> unmarshall) res" where
  "get_attr u =
     rbind (get_uint u) (\<lambda>(ty, u).
     rbind (get_uint u) (\<lambda>(at, u).
     rbind (get_uint u) (\<lambda>(mt, u).
     rbind (get_uint u) (\<lambda>(ct, u).
     rbind (get_uint u) (\<lambda>(sz, u).
     Inr (\<lparr>a_type = ty, a_atime = at, a_mtime = mt, a_ctime = ct, a_size = sz\<rparr>, u))))))"

section \<open>The stubs\<close>

text \<open>\<open>r\<close> is the uninitialised local variable that receives the unused result.\<close>

definition xc_create :: "'s transport \<Rightarrow> (nat \<Rightarrow> byte) \<Rightarrow> u32 \<Rightarrow> u64 \<Rightarrow> ('s, int \<times> u64) op" where
  "xc_create cl junk type eid = rpc_call1 cl junk (put_uint junk) get_ull rpc_create type eid to_max"

definition xc_get :: "'s transport \<Rightarrow> (nat \<Rightarrow> byte) \<Rightarrow> u64 \<Rightarrow> string \<Rightarrow> ('s, int \<times> string) op" where
  "xc_get cl junk eid buf = rpc_call1 cl junk (put_ull junk) get_string rpc_get eid buf to_max"

definition xc_getattr :: "'s transport \<Rightarrow> (nat \<Rightarrow> byte) \<Rightarrow> u64 \<Rightarrow> attr \<Rightarrow> ('s, int \<times> attr) op" where
  "xc_getattr cl junk eid a = rpc_call1 cl junk (put_ull junk) get_attr rpc_getattr eid a to_max"

definition xc_put :: "'s transport \<Rightarrow> (nat \<Rightarrow> byte) \<Rightarrow> int \<Rightarrow> u64 \<Rightarrow> string \<Rightarrow> ('s, int) op" where
  "xc_put cl junk r eid buf =
     andthen (rpc_call2 cl junk (put_ull junk) (put_string junk) get_int rpc_put eid buf r to_max) (\<lambda>(st, r). ret st)"

definition xc_remove :: "'s transport \<Rightarrow> (nat \<Rightarrow> byte) \<Rightarrow> int \<Rightarrow> u64 \<Rightarrow> ('s, int) op" where
  "xc_remove cl junk r eid =
     andthen (rpc_call1 cl junk (put_ull junk) get_int rpc_remove eid r to_max) (\<lambda>(st, r). ret st)"

definition xc_ops :: "'s transport \<Rightarrow> (nat \<Rightarrow> byte) \<Rightarrow> int \<Rightarrow> 's ext_ops" where
  "xc_ops cl junk r = \<lparr>ec_create = xc_create cl junk, ec_get = xc_get cl junk, ec_getattr = xc_getattr cl junk,
     ec_put = xc_put cl junk r, ec_remove = xc_remove cl junk r\<rparr>"

section \<open>The server process\<close>

text \<open>\<open>wrap\<close> gives a method the unused reference argument of \<^verbatim>\<open>put\<close> and \<^verbatim>\<open>remove\<close>.\<close>

definition unused_ref :: "('s, int) op \<Rightarrow> 'r \<Rightarrow> ('s, int \<times> 'r) op" where
  "unused_ref m r = andthen m (\<lambda>st. ret (st, r))"

record uninit_refs =
  ui_id :: u64
  ui_buf :: string
  ui_attr :: attr
  ui_r :: int

definition extent_smain :: "(nat \<Rightarrow> byte) \<Rightarrow> u32 \<Rightarrow> int \<Rightarrow> uninit_refs \<Rightarrow> extent_server rpcs res" where
  "extent_smain junk nonce count ui =
     rbind (rpcs_init junk nonce count (ui_r ui)) (\<lambda>srv.
     rbind (reg1 rpc_get (handler1 get_ull (put_string junk) (\<lambda>eid _. es_get junk eid) (ui_buf ui)) srv) (\<lambda>srv.
     rbind (reg1 rpc_getattr (handler1 get_ull (put_attr junk) (\<lambda>eid _. es_getattr junk eid) (ui_attr ui)) srv) (\<lambda>srv.
     rbind (reg1 rpc_put (handler2 get_ull get_string (put_int junk) (\<lambda>eid buf. unused_ref (es_put junk eid buf)) (ui_r ui)) srv) (\<lambda>srv.
     rbind (reg1 rpc_remove (handler1 get_ull (put_int junk) (\<lambda>eid. unused_ref (es_remove junk eid)) (ui_r ui)) srv) (\<lambda>srv.
     reg1 rpc_create (handler1 get_uint (put_ull junk) (\<lambda>type _. es_create junk type) (ui_id ui)) srv)))))"

section \<open>Correctness\<close>

lemma codec_iso:
  assumes "codec put get enc ok" "\<And>x. g (f x) = x"
  shows "codec (\<lambda>x. put (f x)) (\<lambda>u. rbind (get u) (\<lambda>(y, u). Inr (g y, u))) (\<lambda>x. enc (f x)) (\<lambda>x. ok (f x))"
proof
  fix m x assume "m_ok m" "ok (f x)"
  then show "\<exists>m'. put (f x) m = Inr m' \<and> m_ok m' \<and> take_buf m' = take_buf m @ enc (f x)" by (rule codec.put_law [OF assms(1)])
next
  fix u x r assume "u_good u" "ok (f x)" "u_rest u = enc (f x) @ r"
  from codec.get_law [OF assms(1) this] show "\<exists>u'. rbind (get u) (\<lambda>(y, u). Inr (g y, u)) = Inr (x, u') \<and> u_good u' \<and> u_rest u' = r"
    using assms(2) by auto
qed

lemmas five_codec = codec_pair [OF uint_codec.codec_axioms codec_pair [OF uint_codec.codec_axioms
  codec_pair [OF uint_codec.codec_axioms codec_pair [OF uint_codec.codec_axioms uint_codec.codec_axioms]]]]

definition enc_attr :: "attr \<Rightarrow> byte list" where
  "enc_attr a = be32 (a_type a) @ be32 (a_atime a) @ be32 (a_mtime a) @ be32 (a_ctime a) @ be32 (a_size a)"

interpretation attr_codec: codec "put_attr junk" get_attr enc_attr "\<lambda>_. True" for junk
proof -
  let ?f = "\<lambda>a. (a_type a, a_atime a, a_mtime a, a_ctime a, a_size a)"
  let ?g = "\<lambda>(ty, at, mt, ct, sz). \<lparr>a_type = ty, a_atime = at, a_mtime = mt, a_ctime = ct, a_size = sz\<rparr> :: attr"
  note c = codec_iso [OF five_codec [of junk junk junk junk junk], of ?g ?f]
  have "(\<lambda>x. put_pair (put_uint junk) (put_pair (put_uint junk) (put_pair (put_uint junk) (put_pair (put_uint junk) (put_uint junk)))) (?f x)) = put_attr junk"
    by (rule ext)+ (simp add: put_pair_def [abs_def] put_attr_def rbind_assoc)
  moreover have "(\<lambda>u. rbind (get_pair get_uint (get_pair get_uint (get_pair get_uint (get_pair get_uint get_uint))) u) (\<lambda>(y, u). Inr (?g y, u))) = get_attr"
    by (rule ext) (simp add: get_pair_def get_attr_def rbind_assoc split_def)
  ultimately show "codec (put_attr junk) get_attr enc_attr (\<lambda>_. True)" using c by (simp add: enc_attr_def [abs_def])
qed

text \<open>The table that \<^verbatim>\<open>main\<close> builds.\<close>

definition extent_procs :: "(nat \<Rightarrow> byte) \<Rightarrow> u32 \<Rightarrow> uninit_refs \<Rightarrow> u32 \<rightharpoonup> extent_server handler" where
  "extent_procs junk nonce ui =
     [bind_proc \<mapsto> handler1 get_int (put_int junk) (rpcbind nonce) (ui_r ui),
      rpc_get \<mapsto> handler1 get_ull (put_string junk) (\<lambda>eid _. es_get junk eid) (ui_buf ui),
      rpc_getattr \<mapsto> handler1 get_ull (put_attr junk) (\<lambda>eid _. es_getattr junk eid) (ui_attr ui),
      rpc_put \<mapsto> handler2 get_ull get_string (put_int junk) (\<lambda>eid buf. unused_ref (es_put junk eid buf)) (ui_r ui),
      rpc_remove \<mapsto> handler1 get_ull (put_int junk) (\<lambda>eid. unused_ref (es_remove junk eid)) (ui_r ui),
      rpc_create \<mapsto> handler1 get_uint (put_ull junk) (\<lambda>type _. es_create junk type) (ui_id ui)]"

lemma extent_smain_procs:
  "\<exists>srv. extent_smain junk nonce count ui = Inr srv \<and> procs srv = extent_procs junk nonce ui \<and> srv_nonce srv = nonce \<and>
     reply_window srv = Map.empty"
  by (simp add: extent_smain_def rpcs_init_def reg1_def extent_procs_def)

text \<open>A method through its stub.\<close>

abbreviation wire :: "(nat \<Rightarrow> byte) \<Rightarrow> (conn \<Rightarrow> conn \<Rightarrow> int) \<Rightarrow> conn \<Rightarrow> nat \<Rightarrow> (rpcc \<times> 'o rpcs \<times> 'o) transport" where
  "wire junk cmp k t \<equiv> loopback junk \<lparr>isdead = \<lambda>_. False, conn_compare = cmp\<rparr> k \<lparr>tv_sec = int t + 2, tv_nsec = 0\<rparr>"

lemma wire_call:
  assumes "codec pa ga ea da" "codec pr gr er dr" "procs srv proc = Some (handler1 ga pr meth r0)" "proc \<noteq> bind_proc"
    "link_good (Suc n) (c, srv, obj)" "da a" "length (ea a) < 2147483000" "meth a r0 obj = Inr ((OK, r'), obj')" "dr r'" "length (er r') < 2147483000"
  shows "\<exists>c' srv'. rpc_call1 (wire junk cmp k t) junk pa gr proc a r to_max (c, srv, obj) = Inr ((OK, r'), (c', srv', obj')) \<and>
    link_good n (c', srv', obj') \<and> procs srv' = procs srv"
proof -
  have "0 \<le> (OK :: int)" "int32 OK" "0 \<le> to_max" by (simp_all add: int32_def)
  from loop.remote_call [where s = "(c, srv, obj)" and r = r and junk = junk and cmp = cmp and k = k and t = t and meth = meth and ?r0.0 = r0 and o' = obj',
      OF assms(1,2) _ assms(4,5) this(3) assms(6,7) _ assms(9,10) this(1,2)] assms(3,8)
  show ?thesis by auto
qed

lemma extent_procs_lookup:
  "extent_procs junk nonce ui rpc_get = Some (handler1 get_ull (put_string junk) (\<lambda>eid _. es_get junk eid) (ui_buf ui))"
  "extent_procs junk nonce ui rpc_getattr = Some (handler1 get_ull (put_attr junk) (\<lambda>eid _. es_getattr junk eid) (ui_attr ui))"
  "extent_procs junk nonce ui rpc_put = Some (handler1 (get_pair get_ull get_string) (put_int junk)
     (\<lambda>(eid, buf). unused_ref (es_put junk eid buf)) (ui_r ui))"
  "extent_procs junk nonce ui rpc_remove = Some (handler1 get_ull (put_int junk) (\<lambda>eid. unused_ref (es_remove junk eid)) (ui_r ui))"
  "extent_procs junk nonce ui rpc_create = Some (handler1 get_uint (put_ull junk) (\<lambda>type _. es_create junk type) (ui_id ui))"
  by (simp_all add: extent_procs_def) (intro ext, simp add: handler_tuple)

section \<open>The stubs\<close>

lemma xc_create_wire:
  assumes "link_good (Suc n) (c, srv, es)" "procs srv = extent_procs junk nonce ui" "es_create junk type es = Inr ((OK, eid'), es')"
  shows "\<exists>c' srv'. xc_create (wire junk cmp k t) junk type eid (c, srv, es) = Inr ((OK, eid'), (c', srv', es')) \<and> link_good n (c', srv', es') \<and> procs srv' = procs srv"
  using assms(3) unfolding xc_create_def
  by (intro wire_call [OF uint_codec.codec_axioms ull_codec.codec_axioms extent_procs_lookup(5) [of junk nonce ui, folded assms(2)] _ assms(1)])
    (simp_all add: be64_def)

lemma xc_get_wire:
  assumes "link_good (Suc n) (c, srv, es)" "procs srv = extent_procs junk nonce ui" "es_get junk eid es = Inr ((OK, buf'), es')" "length buf' < 2147482996"
  shows "\<exists>c' srv'. xc_get (wire junk cmp k t) junk eid buf (c, srv, es) = Inr ((OK, buf'), (c', srv', es')) \<and> link_good n (c', srv', es') \<and> procs srv' = procs srv"
  using assms(3,4) unfolding xc_get_def
  by (intro wire_call [OF ull_codec.codec_axioms string_codec.codec_axioms extent_procs_lookup(1) [of junk nonce ui, folded assms(2)] _ assms(1)])
    (simp_all add: be64_def enc_string_def)

lemma xc_getattr_wire:
  assumes "link_good (Suc n) (c, srv, es)" "procs srv = extent_procs junk nonce ui" "es_getattr junk eid es = Inr ((OK, a'), es')"
  shows "\<exists>c' srv'. xc_getattr (wire junk cmp k t) junk eid a (c, srv, es) = Inr ((OK, a'), (c', srv', es')) \<and> link_good n (c', srv', es') \<and> procs srv' = procs srv"
  using assms(3) unfolding xc_getattr_def
  by (intro wire_call [OF ull_codec.codec_axioms attr_codec.codec_axioms extent_procs_lookup(2) [of junk nonce ui, folded assms(2)] _ assms(1)])
    (simp_all add: be64_def enc_attr_def)

lemma xc_put_wire:
  assumes "link_good (Suc n) (c, srv, es)" "procs srv = extent_procs junk nonce ui" "int32 (ui_r ui)" "es_put junk eid buf es = Inr (OK, es')" "length buf < 2147482988"
  shows "\<exists>c' srv'. xc_put (wire junk cmp k t) junk r eid buf (c, srv, es) = Inr (OK, (c', srv', es')) \<and> link_good n (c', srv', es') \<and> procs srv' = procs srv"
proof -
  have "\<exists>c' srv'. rpc_call1 (wire junk cmp k t) junk (put_pair (put_ull junk) (put_string junk)) get_int rpc_put (eid, buf) r to_max (c, srv, es) =
      Inr ((OK, ui_r ui), (c', srv', es')) \<and> link_good n (c', srv', es') \<and> procs srv' = procs srv"
    using assms(3-5)
    by (intro wire_call [OF codec_pair [OF ull_codec.codec_axioms string_codec.codec_axioms] int_codec.codec_axioms extent_procs_lookup(3) [of junk nonce ui, folded assms(2)] _ assms(1)])
      (simp_all add: be64_def enc_string_def unused_ref_def andthen_def ret_def)
  then show ?thesis by (auto simp: xc_put_def rpc_call_tuple andthen_def ret_def)
qed

lemma xc_remove_wire:
  assumes "link_good (Suc n) (c, srv, es)" "procs srv = extent_procs junk nonce ui" "int32 (ui_r ui)" "es_remove junk eid es = Inr (OK, es')"
  shows "\<exists>c' srv'. xc_remove (wire junk cmp k t) junk r eid (c, srv, es) = Inr (OK, (c', srv', es')) \<and> link_good n (c', srv', es') \<and> procs srv' = procs srv"
proof -
  have "\<exists>c' srv'. rpc_call1 (wire junk cmp k t) junk (put_ull junk) get_int rpc_remove eid r to_max (c, srv, es) =
      Inr ((OK, ui_r ui), (c', srv', es')) \<and> link_good n (c', srv', es') \<and> procs srv' = procs srv"
    using assms(3,4)
    by (intro wire_call [OF ull_codec.codec_axioms int_codec.codec_axioms extent_procs_lookup(4) [of junk nonce ui, folded assms(2)] _ assms(1)])
      (simp_all add: be64_def unused_ref_def andthen_def ret_def)
  then show ?thesis by (auto simp: xc_remove_def andthen_def ret_def)
qed

section \<open>Properties\<close>

text \<open>C8. The extent client implements the extent server: on a link that delivers, bound to the process
  of \<^verbatim>\<open>extent_smain\<close>, each stub of \<^verbatim>\<open>extent_client\<close> returns exactly what the method of \<^verbatim>\<open>extent_server\<close>
  returns when called directly, leaves the server in the state the method leaves it in, and the link
  is ready for the next call.\<close>

theorem extent_client_refines:
  assumes "link_good (Suc n) (c, srv, es)" "procs srv = extent_procs junk nonce ui" "int32 (ui_r ui)"
  shows
    "(\<forall>type eid eid' es'. es_create junk type es = Inr ((OK, eid'), es') \<longrightarrow>
       (\<exists>c' srv'. ec_create (xc_ops (wire junk cmp k t) junk r) type eid (c, srv, es) = Inr ((OK, eid'), (c', srv', es')) \<and>
          link_good n (c', srv', es') \<and> procs srv' = procs srv)) \<and>
     (\<forall>eid buf buf' es'. es_get junk eid es = Inr ((OK, buf'), es') \<longrightarrow> length buf' < 2147482996 \<longrightarrow>
       (\<exists>c' srv'. ec_get (xc_ops (wire junk cmp k t) junk r) eid buf (c, srv, es) = Inr ((OK, buf'), (c', srv', es')) \<and>
          link_good n (c', srv', es') \<and> procs srv' = procs srv)) \<and>
     (\<forall>eid a a' es'. es_getattr junk eid es = Inr ((OK, a'), es') \<longrightarrow>
       (\<exists>c' srv'. ec_getattr (xc_ops (wire junk cmp k t) junk r) eid a (c, srv, es) = Inr ((OK, a'), (c', srv', es')) \<and>
          link_good n (c', srv', es') \<and> procs srv' = procs srv)) \<and>
     (\<forall>eid buf es'. es_put junk eid buf es = Inr (OK, es') \<longrightarrow> length buf < 2147482988 \<longrightarrow>
       (\<exists>c' srv'. ec_put (xc_ops (wire junk cmp k t) junk r) eid buf (c, srv, es) = Inr (OK, (c', srv', es')) \<and>
          link_good n (c', srv', es') \<and> procs srv' = procs srv)) \<and>
     (\<forall>eid es'. es_remove junk eid es = Inr (OK, es') \<longrightarrow>
       (\<exists>c' srv'. ec_remove (xc_ops (wire junk cmp k t) junk r) eid (c, srv, es) = Inr (OK, (c', srv', es')) \<and>
          link_good n (c', srv', es') \<and> procs srv' = procs srv))"
  unfolding xc_ops_def ext_ops.simps
  by (intro conjI allI impI xc_create_wire [OF assms(1,2)] xc_get_wire [OF assms(1,2)] xc_getattr_wire [OF assms(1,2)]
    xc_put_wire [OF assms] xc_remove_wire [OF assms])

lemma extent_client_refines_witness:
  "\<exists>srv es c' srv' eid es'. extent_smain demo_junk 7 0 \<lparr>ui_id = 0, ui_buf = [], ui_attr = \<lparr>a_type = 0, a_atime = 0, a_mtime = 0, a_ctime = 0, a_size = 0\<rparr>, ui_r = 0\<rparr> = Inr srv \<and>
     extent_server_init demo_junk (\<lambda>n. of_nat n) = Some es \<and> es_create demo_junk T_FILE es = Inr ((OK, eid), es') \<and>
     ec_create (xc_ops (wire demo_junk (\<lambda>_ _. 0) 0 5) demo_junk 0) T_FILE 0 ((rpcc_init 3 0 True)\<lparr>bind_done := True\<rparr>, srv, es) = Inr ((OK, eid), (c', srv', es'))"
proof -
  let ?ui = "\<lparr>ui_id = 0, ui_buf = [], ui_attr = \<lparr>a_type = 0, a_atime = 0, a_mtime = 0, a_ctime = 0, a_size = 0\<rparr>, ui_r = 0\<rparr>"
  obtain srv where srv: "extent_smain demo_junk 7 0 ?ui = Inr srv" "procs srv = extent_procs demo_junk 7 ?ui" "srv_nonce srv = 7" "reply_window srv = Map.empty"
    using extent_smain_procs by blast
  obtain es where es: "extent_server_init demo_junk (\<lambda>n. of_nat n) = Some es" using extent_server_init_effect [of demo_junk] by blast
  have "\<exists>eid es'. es_create demo_junk T_FILE es = Inr ((OK, eid), es')" by (simp add: es_create_def split: prod.splits)
  then obtain eid es' where cr: "es_create demo_junk T_FILE es = Inr ((OK, eid), es')" by blast
  have l: "link_good (Suc 0) ((rpcc_init 3 0 True)\<lparr>bind_done := True\<rparr>, srv, es)"
    using rpcc_inv_init [of 3 0 True] srv(4)
    by (auto simp: link_good_def link_ready_def rpcc_inv_def settled_def rpcc_init_def window_of_def isvalid_def request_clear_def)
  have "int32 (ui_r ?ui)" by (simp add: int32_def)
  from conjunct1 [OF extent_client_refines [OF l srv(2) this, where cmp = "\<lambda>_ _. 0" and k = 0 and t = 5 and r = 0], rule_format, OF cr, of 0]
  show ?thesis using srv(1) es cr by blast
qed

end
