(* ===== verification/Yfs_Remote.thy ===== *)
theory Yfs_Remote
  imports Fuse Extent_Rpc
begin

text \<open>
  The whole stack: the FUSE server over \<^verbatim>\<open>yfs_client\<close> over \<^verbatim>\<open>extent_client\<close> over the RPC library, connected
  to the process of \<^verbatim>\<open>extent_smain\<close>.  Every operation of the client on the remote store refines the same
  operation on a local one; a count of remote calls goes along, since a client has \<open>2\<^sup>3\<^sup>2\<close> call numbers.
\<close>

section \<open>A client and a remote extent server\<close>

record ynet =
  n_link :: "rpcc \<times> extent_server rpcs \<times> extent_server"
  n_log :: "lock_event list"

definition on_link :: "(rpcc \<times> extent_server rpcs \<times> extent_server, 'a) op \<Rightarrow> (ynet, 'a) op" where
  "on_link f n = rbind (f (n_link n)) (\<lambda>(x, l). Inr (x, n\<lparr>n_link := l\<rparr>))"

text \<open>\<^verbatim>\<open>yfs_client\<close> with its \<^verbatim>\<open>extent_client\<close>; \<open>r\<close> is the uninitialised \<^verbatim>\<open>int r\<close> of two stubs.\<close>

definition net_env :: "(nat \<Rightarrow> byte) \<Rightarrow> (conn \<Rightarrow> conn \<Rightarrow> int) \<Rightarrow> conn \<Rightarrow> nat \<Rightarrow> int \<Rightarrow> ynet env" where
  "net_env junk cmp k t r =
     (let x = xc_ops (wire junk cmp k t) junk r in
      \<lparr>ec = \<lparr>ec_create = \<lambda>ty i. on_link (ec_create x ty i), ec_get = \<lambda>i b. on_link (ec_get x i b),
             ec_getattr = \<lambda>i a. on_link (ec_getattr x i a), ec_put = \<lambda>i b. on_link (ec_put x i b),
             ec_remove = \<lambda>i. on_link (ec_remove x i)\<rparr>,
       lc_acquire = \<lambda>i n. n\<lparr>n_log := n_log n @ [Acquire i]\<rparr>,
       lc_release = \<lambda>i n. n\<lparr>n_log := n_log n @ [Release i]\<rparr>\<rparr>)"

text \<open>The local world behind the link.\<close>

definition local_view :: "ynet \<Rightarrow> ysys" where
  "local_view n = \<lparr>y_es = snd (snd (n_link n)), y_log = n_log n\<rparr>"

text \<open>The link can carry \<open>m\<close> more calls to the process of \<^verbatim>\<open>extent_smain\<close>.\<close>

definition net_ready :: "(nat \<Rightarrow> byte) \<Rightarrow> u32 \<Rightarrow> uninit_refs \<Rightarrow> nat \<Rightarrow> ynet \<Rightarrow> bool" where
  "net_ready junk nonce ui m n \<longleftrightarrow> link_good m (n_link n) \<and> procs (fst (snd (n_link n))) = extent_procs junk nonce ui \<and> int32 (ui_r ui)"

section \<open>A store with messages below 2 GiB\<close>

text \<open>The local store, cut off where a message would not fit; no file that the server can hold comes near.\<close>

definition lim_get :: "(ysys, int \<times> string) op \<Rightarrow> (ysys, int \<times> string) op" where
  "lim_get f = andthen f (\<lambda>(r, buf). if length buf < 2147482996 then ret (r, buf) else (\<lambda>s. Inl Out_Of_Range))"

definition lim_put :: "string \<Rightarrow> (ysys, int) op \<Rightarrow> (ysys, int) op" where
  "lim_put buf f = (if length buf < 2147482988 then f else (\<lambda>s. Inl Out_Of_Range))"

definition lim_env :: "(nat \<Rightarrow> byte) \<Rightarrow> ysys env" where
  "lim_env junk = (yfs_env junk)\<lparr>ec := (ec (yfs_env junk))\<lparr>ec_get := \<lambda>i b. lim_get (ec_get (ec (yfs_env junk)) i b),
     ec_put := \<lambda>i b. lim_put b (ec_put (ec (yfs_env junk)) i b)\<rparr>\<rparr>"

lemma lim_env_simps:
  "ec_create (ec (lim_env junk)) = ec_create (ec (yfs_env junk))" "ec_getattr (ec (lim_env junk)) = ec_getattr (ec (yfs_env junk))"
  "ec_remove (ec (lim_env junk)) = ec_remove (ec (yfs_env junk))" "ec_get (ec (lim_env junk)) i b = lim_get (ec_get (ec (yfs_env junk)) i b)"
  "ec_put (ec (lim_env junk)) i b = lim_put b (ec_put (ec (yfs_env junk)) i b)"
  "lc_acquire (lim_env junk) = lc_acquire (yfs_env junk)" "lc_release (lim_env junk) = lc_release (yfs_env junk)"
  by (simp_all add: lim_env_def)

interpretation lim: yfs "lim_env junk" y_good y_tab y_room
  for junk
proof unfold_locales
  show "y_tab s eid \<noteq> None \<Longrightarrow> id_ok eid" for s eid by (rule yf.tab_ok)
  show "y_good s \<Longrightarrow> y_tab s eid = Some (t, d) \<Longrightarrow> length d \<le> MAXFILE" for s eid t d by (rule yf.size_law)
  show "\<exists>s'. ec_get (ec (lim_env junk)) eid b s = Inr ((OK, case y_tab s eid of Some (t, d) \<Rightarrow> d | None \<Rightarrow> []), s')
      \<and> y_good s' \<and> y_tab s' = y_tab s \<and> y_room s' = y_room s" if "y_good s" "id_ok eid" for s eid b
  proof -
    have "length (case y_tab s eid of Some (t, d) \<Rightarrow> d | None \<Rightarrow> []) < 2147482996"
      using yf.size_law [OF that(1), of eid] by (auto simp: MAXFILE_def split: option.splits)
    with yf.get_law [OF that, of junk b] show ?thesis by (auto simp: lim_env_simps lim_get_def andthen_def ret_def)
  qed
  show "\<exists>s'. ec_put (ec (lim_env junk)) eid d s = Inr (OK, s') \<and> y_good s' \<and> y_tab s' = (y_tab s)(eid \<mapsto> (t, d))
      \<and> y_room s' + blocks_needed (length d) = y_room s + blocks_needed (length d0)"
    if "y_good s" "y_tab s eid = Some (t, d0)" "length d \<le> MAXFILE" "blocks_needed (length d) \<le> y_room s + blocks_needed (length d0)" for s eid t d0 d
    using yf.put_law [OF that, of junk] that(3) by (simp add: lim_env_simps lim_put_def MAXFILE_def)
qed (unfold lim_env_simps, (fact yf.getattr_law yf.create_law yf.remove_law yf.lock_law)+)

section \<open>Refinement\<close>

text \<open>\<open>g\<close> on the remote store does what \<open>f\<close> does on the local one, with at most \<open>k\<close> calls.\<close>

definition refines :: "(nat \<Rightarrow> byte) \<Rightarrow> u32 \<Rightarrow> uninit_refs \<Rightarrow> nat \<Rightarrow> (ysys, 'a) op \<Rightarrow> (ynet, 'a) op \<Rightarrow> bool" where
  "refines junk nonce ui k f g \<longleftrightarrow> (\<forall>m n x s'. net_ready junk nonce ui (m + k) n \<longrightarrow> f (local_view n) = Inr (x, s') \<longrightarrow>
     (\<exists>n'. g n = Inr (x, n') \<and> net_ready junk nonce ui m n' \<and> local_view n' = s'))"

lemma refinesI:
  assumes "\<And>m n x s'. net_ready junk nonce ui (m + k) n \<Longrightarrow> f (local_view n) = Inr (x, s') \<Longrightarrow>
    \<exists>n'. g n = Inr (x, n') \<and> net_ready junk nonce ui m n' \<and> local_view n' = s'"
  shows "refines junk nonce ui k f g"
  using assms by (simp add: refines_def)

lemma refinesD:
  assumes "refines junk nonce ui k f g" "net_ready junk nonce ui (m + k) n" "f (local_view n) = Inr (x, s')"
  shows "\<exists>n'. g n = Inr (x, n') \<and> net_ready junk nonce ui m n' \<and> local_view n' = s'"
  using assms by (simp add: refines_def)

lemma net_ready_less: "net_ready junk nonce ui m n \<Longrightarrow> m' \<le> m \<Longrightarrow> net_ready junk nonce ui m' n"
  by (auto simp: net_ready_def link_good_def link_ready_def split: prod.splits)

lemma refines_mono: "refines junk nonce ui k f g \<Longrightarrow> k \<le> k' \<Longrightarrow> refines junk nonce ui k' f g"
proof (rule refinesI)
  fix m n x s' assume a: "refines junk nonce ui k f g" "k \<le> k'" "net_ready junk nonce ui (m + k') n" "f (local_view n) = Inr (x, s')"
  have "net_ready junk nonce ui (m + k) n" by (rule net_ready_less [OF a(3)]) (use a(2) in simp)
  from refinesD [OF a(1) this a(4)] show "\<exists>n'. g n = Inr (x, n') \<and> net_ready junk nonce ui m n' \<and> local_view n' = s'" .
qed

lemma refines_ret: "refines junk nonce ui 0 (ret x) (ret x)"
  by (simp add: refines_def ret_def)

lemma refines_fault: "refines junk nonce ui 0 (\<lambda>s. Inl e) g"
  by (simp add: refines_def)

lemma refines_andthen:
  assumes "refines junk nonce ui k1 f g" "\<And>x. refines junk nonce ui k2 (f' x) (g' x)"
  shows "refines junk nonce ui (k1 + k2) (andthen f f') (andthen g g')"
proof (rule refinesI)
  fix m n y s' assume n: "net_ready junk nonce ui (m + (k1 + k2)) n" and r: "andthen f f' (local_view n) = Inr (y, s')"
  obtain x s1 where f: "f (local_view n) = Inr (x, s1)" "f' x s1 = Inr (y, s')" using r by (auto simp: andthen_def rbind_Inr_iff)
  have "net_ready junk nonce ui (m + k2 + k1) n" using n by (simp add: algebra_simps)
  from refinesD [OF assms(1) this f(1)] obtain n1 where n1: "g n = Inr (x, n1)" "net_ready junk nonce ui (m + k2) n1" "local_view n1 = s1" by blast
  from refinesD [OF assms(2) n1(2), of x y s'] f(2) n1(3) obtain n2 where
    "g' x n1 = Inr (y, n2)" "net_ready junk nonce ui m n2" "local_view n2 = s'" by blast
  then show "\<exists>n'. andthen g g' n = Inr (y, n') \<and> net_ready junk nonce ui m n' \<and> local_view n' = s'" using n1(1) by (simp add: andthen_def)
qed

lemma refines_if:
  assumes "refines junk nonce ui k1 f g" "refines junk nonce ui k2 f' g'"
  shows "refines junk nonce ui (max k1 k2) (if b then f else f') (if b then g else g')"
  using refines_mono [OF assms(1), of "max k1 k2"] refines_mono [OF assms(2), of "max k1 k2"] by simp

lemma refines_prod:
  assumes "\<And>a b. refines junk nonce ui k (f a b) (g a b)"
  shows "refines junk nonce ui k (case x of (a, b) \<Rightarrow> f a b) (case x of (a, b) \<Rightarrow> g a b)"
  using assms by (cases x) simp

lemma refines_option:
  assumes "refines junk nonce ui k1 f g" "\<And>a. refines junk nonce ui k2 (f' a) (g' a)"
  shows "refines junk nonce ui (max k1 k2) (case x of None \<Rightarrow> f | Some a \<Rightarrow> f' a) (case x of None \<Rightarrow> g | Some a \<Rightarrow> g' a)"
  using refines_mono [OF assms(1), of "max k1 k2"] refines_mono [OF assms(2), of "max k1 k2"] by (cases x) simp_all

lemma refines_locked:
  assumes "refines junk nonce ui k f g"
  shows "refines junk nonce ui k (locked (lim_env junk) i f) (locked (net_env junk cmp c t r) i g)"
proof (rule refinesI)
  fix m n x s' assume n: "net_ready junk nonce ui (m + k) n" and r: "locked (lim_env junk) i f (local_view n) = Inr (x, s')"
  let ?n = "n\<lparr>n_log := n_log n @ [Acquire i]\<rparr>"
  have a: "lc_acquire (lim_env junk) i (local_view n) = local_view ?n" by (simp add: lim_env_simps yfs_env_def local_view_def)
  obtain s1 where f: "f (local_view ?n) = Inr (x, s1)" "s' = lc_release (lim_env junk) i s1" using r by (auto simp: locked_def rbind_Inr_iff a)
  have "net_ready junk nonce ui (m + k) ?n" using n by (simp add: net_ready_def)
  from refinesD [OF assms this f(1)] obtain n1 where n1: "g ?n = Inr (x, n1)" "net_ready junk nonce ui m n1" "local_view n1 = s1" by blast
  show "\<exists>n'. locked (net_env junk cmp c t r) i g n = Inr (x, n') \<and> net_ready junk nonce ui m n' \<and> local_view n' = s'"
    using n1 f(2) by (auto simp: locked_def net_env_def Let_def net_ready_def lim_env_simps yfs_env_def local_view_def)
qed

section \<open>The operations of the store\<close>

text \<open>A remote call that keeps up with the method on the server.\<close>

lemma refines_call:
  assumes "\<And>m c srv es x es'. link_good (Suc m) (c, srv, es) \<Longrightarrow> procs srv = extent_procs junk nonce ui \<Longrightarrow> int32 (ui_r ui) \<Longrightarrow> f es = Inr (x, es') \<Longrightarrow>
    \<exists>c' srv'. g (c, srv, es) = Inr (x, (c', srv', es')) \<and> link_good m (c', srv', es') \<and> procs srv' = procs srv"
  shows "refines junk nonce ui (Suc 0) (on_es f) (on_link g)"
proof (rule refinesI)
  fix m n x s' assume n: "net_ready junk nonce ui (m + Suc 0) n" and r: "on_es f (local_view n) = Inr (x, s')"
  obtain c srv es where l: "n_link n = (c, srv, es)" by (metis prod_cases3)
  have f: "f es = Inr (x, y_es s')" "s' = (local_view n)\<lparr>y_es := y_es s'\<rparr>" using r l by (auto simp: on_es_def local_view_def rbind_Inr_iff)
  obtain c' srv' where "g (c, srv, es) = Inr (x, (c', srv', y_es s'))" "link_good m (c', srv', y_es s')" "procs srv' = procs srv"
    using assms [OF _ _ _ f(1), of m c srv] n l by (auto simp: net_ready_def)
  then show "\<exists>n'. on_link g n = Inr (x, n') \<and> net_ready junk nonce ui m n' \<and> local_view n' = s'"
    using n l f(2) by (auto simp: on_link_def net_ready_def local_view_def)
qed

lemma refines_create: "refines junk nonce ui (Suc 0) (ec_create (ec (lim_env junk)) ty i) (ec_create (ec (net_env junk cmp c t r)) ty i)"
proof -
  have "refines junk nonce ui (Suc 0) (on_es (es_create junk ty)) (on_link (xc_create (wire junk cmp c t) junk ty i))"
    by (rule refines_call) (frule es_status(1), elim exE, hypsubst, rule xc_create_wire)
  then show ?thesis unfolding lim_env_simps by (simp add: yfs_env_def net_env_def Let_def es_ops_def xc_ops_def)
qed

lemma refines_getattr: "refines junk nonce ui (Suc 0) (ec_getattr (ec (lim_env junk)) i a) (ec_getattr (ec (net_env junk cmp c t r)) i a)"
proof -
  have "refines junk nonce ui (Suc 0) (on_es (es_getattr junk i)) (on_link (xc_getattr (wire junk cmp c t) junk i a))"
    by (rule refines_call) (frule es_status(3), elim exE, hypsubst, rule xc_getattr_wire)
  then show ?thesis unfolding lim_env_simps by (simp add: yfs_env_def net_env_def Let_def es_ops_def xc_ops_def)
qed

lemma refines_remove: "refines junk nonce ui (Suc 0) (ec_remove (ec (lim_env junk)) i) (ec_remove (ec (net_env junk cmp c t r)) i)"
proof -
  have "refines junk nonce ui (Suc 0) (on_es (es_remove junk i)) (on_link (xc_remove (wire junk cmp c t) junk r i))"
    by (rule refines_call) (frule es_status(5), hypsubst, rule xc_remove_wire)
  then show ?thesis unfolding lim_env_simps by (simp add: yfs_env_def net_env_def Let_def es_ops_def xc_ops_def)
qed

lemma refines_put: "refines junk nonce ui (Suc 0) (ec_put (ec (lim_env junk)) i b) (ec_put (ec (net_env junk cmp c t r)) i b)"
proof (cases "length b < 2147482988")
  case True
  have "refines junk nonce ui (Suc 0) (on_es (es_put junk i b)) (on_link (xc_put (wire junk cmp c t) junk r i b))"
    by (rule refines_call) (frule es_status(4), hypsubst, rule xc_put_wire [OF _ _ _ _ True])
  then show ?thesis using True unfolding lim_env_simps by (simp add: lim_put_def yfs_env_def net_env_def Let_def es_ops_def xc_ops_def)
next
  case False
  then show ?thesis unfolding lim_env_simps by (simp add: lim_put_def refines_mono [OF refines_fault])
qed

lemma refines_get: "refines junk nonce ui (Suc 0) (ec_get (ec (lim_env junk)) i b) (ec_get (ec (net_env junk cmp c t r)) i b)"
proof -
  let ?f = "\<lambda>es. rbind (es_get junk i es) (\<lambda>(x, es). if length (snd x) < 2147482996 then Inr (x, es) else Inl Out_Of_Range)"
  have "ec_get (ec (lim_env junk)) i b = on_es ?f"
    unfolding lim_env_simps
    by (rule ext) (auto simp: lim_get_def yfs_env_def es_ops_def on_es_def andthen_def ret_def rbind_assoc split_def rbind_def split: sum.splits)
  moreover have "refines junk nonce ui (Suc 0) (on_es ?f) (on_link (xc_get (wire junk cmp c t) junk i b))"
  proof (rule refines_call)
    fix m cl srv es x es' assume l: "link_good (Suc m) (cl, srv, es)" "procs srv = extent_procs junk nonce ui" and f: "?f es = Inr (x, es')"
    have "es_get junk i es = Inr (x, es')" "length (snd x) < 2147482996" using f by (auto simp: rbind_Inr_iff split: if_splits)
    moreover from es_status(2) [OF this(1)] obtain buf where "x = (OK, buf)" by blast
    ultimately show "\<exists>c' srv'. xc_get (wire junk cmp c t) junk i b (cl, srv, es) = Inr (x, c', srv', es') \<and> link_good m (c', srv', es') \<and> procs srv' = procs srv"
      using xc_get_wire [OF l, of i buf es' cmp c t b] by simp
  qed
  ultimately show ?thesis by (simp add: net_env_def Let_def xc_ops_def)
qed

section \<open>The operations of the client\<close>

named_theorems refines_intros \<open>refinement of an operation from its parts\<close>

lemma refines_pure:
  "refines junk nonce ui 0 (\<lambda>s. case y of None \<Rightarrow> Inl e | Some a \<Rightarrow> Inr (f a, s)) (\<lambda>s. case y of None \<Rightarrow> Inl e | Some a \<Rightarrow> Inr (f a, s))"
  by (cases y) (simp_all add: refines_def)

lemma refines_rbind:
  assumes "\<And>a. refines junk nonce ui k (f a) (g a)"
  shows "refines junk nonce ui k (\<lambda>s. rbind y (\<lambda>a. f a s)) (\<lambda>s. rbind y (\<lambda>a. g a s))"
  using assms by (cases y) (simp_all add: refines_def)

lemmas refines_basic [refines_intros] = refines_locked refines_andthen refines_if refines_prod refines_option refines_ret
  refines_fault refines_pure refines_rbind refines_create refines_getattr refines_remove refines_put refines_get

lemma refines_op_isfile_in [refines_intros]: "refines junk nonce ui 1 (isfile' l (lim_env junk) i) (isfile' l (net_env junk cmp c t r) i)"
  by (rule refines_mono, unfold isfile'_def Let_def, (rule refines_intros)+, simp)

lemma refines_op_isdir_in [refines_intros]: "refines junk nonce ui 1 (isdir' l (lim_env junk) i) (isdir' l (net_env junk cmp c t r) i)"
  by (rule refines_mono, unfold isdir'_def Let_def, (rule refines_intros)+, simp)

lemma refines_op_getfile_in [refines_intros]: "refines junk nonce ui 1 (getfile' l (lim_env junk) i f0) (getfile' l (net_env junk cmp c t r) i f0)"
  by (rule refines_mono, unfold getfile'_def Let_def, (rule refines_intros)+, simp)

lemma refines_op_getdir_in [refines_intros]: "refines junk nonce ui 1 (getdir' l (lim_env junk) i d0) (getdir' l (net_env junk cmp c t r) i d0)"
  by (rule refines_mono, unfold getdir'_def Let_def, (rule refines_intros)+, simp)

lemma refines_op_setattr_in [refines_intros]: "refines junk nonce ui 2 (setattr' (lim_env junk) i sz) (setattr' (net_env junk cmp c t r) i sz)"
  by (rule refines_mono, unfold setattr'_def Let_def, (rule refines_intros)+, simp)

lemma refines_op_readdir_in [refines_intros]: "refines junk nonce ui 1 (readdir' l (lim_env junk) i es) (readdir' l (net_env junk cmp c t r) i es)"
  by (rule refines_mono, unfold readdir'_def Let_def, (rule refines_intros)+, simp)

lemma refines_op_lookup_in [refines_intros]: "refines junk nonce ui 2 (lookup' l (lim_env junk) p name i0) (lookup' l (net_env junk cmp c t r) p name i0)"
  by (rule refines_mono, unfold lookup'_def Let_def, (rule refines_intros)+, simp)

lemma refines_op_add_entry [refines_intros]: "refines junk nonce ui 2 (add_entry (lim_env junk) p name i0) (add_entry (net_env junk cmp c t r) p name i0)"
  by (rule refines_mono, unfold add_entry_def Let_def, (rule refines_intros)+, simp)

lemma refines_op_create_in [refines_intros]: "refines junk nonce ui 5 (create' l (lim_env junk) p name i0) (create' l (net_env junk cmp c t r) p name i0)"
  by (rule refines_mono, unfold create'_def Let_def, (rule refines_intros)+, simp)

lemma refines_op_mkdir_in [refines_intros]: "refines junk nonce ui 5 (mkdir' l (lim_env junk) p name i0) (mkdir' l (net_env junk cmp c t r) p name i0)"
  by (rule refines_mono, unfold mkdir'_def Let_def, (rule refines_intros)+, simp)

lemma refines_op_read_in [refines_intros]: "refines junk nonce ui 1 (read' (lim_env junk) i sz off d0) (read' (net_env junk cmp c t r) i sz off d0)"
  by (rule refines_mono, unfold read'_def Let_def, (rule refines_intros)+, simp)

lemma refines_op_write_in [refines_intros]: "refines junk nonce ui 2 (write' (lim_env junk) i sz off d0 w) (write' (net_env junk cmp c t r) i sz off d0 w)"
  by (rule refines_mono, unfold write'_def Let_def, (rule refines_intros)+, simp)

lemma refines_op_unlink_in [refines_intros]: "refines junk nonce ui 5 (unlink' l (lim_env junk) p name) (unlink' l (net_env junk cmp c t r) p name)"
  by (rule refines_mono, unfold unlink'_def Let_def, (rule refines_intros)+, simp)

lemma refines_op_symlink_in [refines_intros]: "refines junk nonce ui 6 (symlink' l (lim_env junk) p name link i0) (symlink' l (net_env junk cmp c t r) p name link i0)"
  by (rule refines_mono, unfold symlink'_def Let_def, (rule refines_intros)+, simp)

lemma refines_op_readlink_in [refines_intros]: "refines junk nonce ui 1 (readlink' (lim_env junk) i d0) (readlink' (net_env junk cmp c t r) i d0)"
  by (rule refines_mono, unfold readlink'_def Let_def, (rule refines_intros)+, simp)

lemma refines_op_isfile [refines_intros]: "refines junk nonce ui 1 (isfile l (lim_env junk) i) (isfile l (net_env junk cmp c t r) i)"
  by (rule refines_mono, unfold isfile_def Let_def, (rule refines_intros)+, simp)

lemma refines_op_isdir [refines_intros]: "refines junk nonce ui 1 (isdir l (lim_env junk) i) (isdir l (net_env junk cmp c t r) i)"
  by (rule refines_mono, unfold isdir_def Let_def, (rule refines_intros)+, simp)

lemma refines_op_getfile [refines_intros]: "refines junk nonce ui 1 (getfile l (lim_env junk) i f0) (getfile l (net_env junk cmp c t r) i f0)"
  by (rule refines_mono, unfold getfile_def Let_def, (rule refines_intros)+, simp)

lemma refines_op_getdir [refines_intros]: "refines junk nonce ui 1 (getdir l (lim_env junk) i d0) (getdir l (net_env junk cmp c t r) i d0)"
  by (rule refines_mono, unfold getdir_def Let_def, (rule refines_intros)+, simp)

lemma refines_op_setattr [refines_intros]: "refines junk nonce ui 2 (setattr (lim_env junk) i sz) (setattr (net_env junk cmp c t r) i sz)"
  by (rule refines_mono, unfold setattr_def Let_def, (rule refines_intros)+, simp)

lemma refines_op_create [refines_intros]: "refines junk nonce ui 5 (create l (lim_env junk) p name i0) (create l (net_env junk cmp c t r) p name i0)"
  by (rule refines_mono, unfold create_def Let_def, (rule refines_intros)+, simp)

lemma refines_op_mkdir [refines_intros]: "refines junk nonce ui 5 (mkdir l (lim_env junk) p name i0) (mkdir l (net_env junk cmp c t r) p name i0)"
  by (rule refines_mono, unfold mkdir_def Let_def, (rule refines_intros)+, simp)

lemma refines_op_lookup [refines_intros]: "refines junk nonce ui 2 (lookup l (lim_env junk) p name i0) (lookup l (net_env junk cmp c t r) p name i0)"
  by (rule refines_mono, unfold lookup_def Let_def, (rule refines_intros)+, simp)

lemma refines_op_readdir [refines_intros]: "refines junk nonce ui 1 (readdir l (lim_env junk) i es) (readdir l (net_env junk cmp c t r) i es)"
  by (rule refines_mono, unfold readdir_def Let_def, (rule refines_intros)+, simp)

lemma refines_op_read [refines_intros]: "refines junk nonce ui 1 (read (lim_env junk) i sz off d0) (read (net_env junk cmp c t r) i sz off d0)"
  by (rule refines_mono, unfold read_def Let_def, (rule refines_intros)+, simp)

lemma refines_op_yfs_write [refines_intros]: "refines junk nonce ui 2 (yfs_write (lim_env junk) i sz off d0 w) (yfs_write (net_env junk cmp c t r) i sz off d0 w)"
  by (rule refines_mono, unfold yfs_write_def Let_def, (rule refines_intros)+, simp)

lemma refines_op_unlink [refines_intros]: "refines junk nonce ui 5 (unlink l (lim_env junk) p name) (unlink l (net_env junk cmp c t r) p name)"
  by (rule refines_mono, unfold unlink_def Let_def, (rule refines_intros)+, simp)

lemma refines_op_symlink [refines_intros]: "refines junk nonce ui 6 (symlink l (lim_env junk) p name link i0) (symlink l (net_env junk cmp c t r) p name link i0)"
  by (rule refines_mono, unfold symlink_def Let_def, (rule refines_intros)+, simp)

lemma refines_op_readlink [refines_intros]: "refines junk nonce ui 1 (readlink (lim_env junk) i d0) (readlink (net_env junk cmp c t r) i d0)"
  by (rule refines_mono, unfold readlink_def Let_def, (rule refines_intros)+, simp)

section \<open>The handlers\<close>

lemma refines_op_fuse_getattr [refines_intros]: "refines junk nonce ui 4 (fuse_getattr fl (lim_env junk) i) (fuse_getattr fl (net_env junk cmp c t r) i)"
  by (rule refines_mono, unfold fuse_getattr_def Let_def, (rule refines_intros)+, simp)

lemma refines_op_fuseserver_getattr [refines_intros]: "refines junk nonce ui 4 (fuseserver_getattr fl (lim_env junk) i) (fuseserver_getattr fl (net_env junk cmp c t r) i)"
  by (rule refines_mono, unfold fuseserver_getattr_def Let_def, (rule refines_intros)+, simp)

lemma refines_op_fuseserver_setattr [refines_intros]: "refines junk nonce ui 6 (fuseserver_setattr L fl (lim_env junk) i attr to_set) (fuseserver_setattr L fl (net_env junk cmp c t r) i attr to_set)"
  by (rule refines_mono, unfold fuseserver_setattr_def Let_def, (rule refines_intros)+, simp)

lemma refines_op_fuseserver_read [refines_intros]: "refines junk nonce ui 1 (fuseserver_read (lim_env junk) i sz off) (fuseserver_read (net_env junk cmp c t r) i sz off)"
  by (rule refines_mono, unfold fuseserver_read_def Let_def, (rule refines_intros)+, simp)

lemma refines_op_fuseserver_write [refines_intros]: "refines junk nonce ui 2 (fuseserver_write (lim_env junk) i buf off) (fuseserver_write (net_env junk cmp c t r) i buf off)"
  by (rule refines_mono, unfold fuseserver_write_def Let_def, (rule refines_intros)+, simp)

lemma refines_op_fuseserver_createhelper [refines_intros]: "refines junk nonce ui 9 (fuseserver_createhelper fl (lim_env junk) p name e type) (fuseserver_createhelper fl (net_env junk cmp c t r) p name e type)"
  by (rule refines_mono, unfold fuseserver_createhelper_def Let_def, (rule refines_intros)+, simp)

lemma refines_op_fuseserver_create [refines_intros]: "refines junk nonce ui 9 (fuseserver_create fl (lim_env junk) e p name) (fuseserver_create fl (net_env junk cmp c t r) e p name)"
  by (rule refines_mono, unfold fuseserver_create_def Let_def, (rule refines_intros)+, simp)

lemma refines_op_fuseserver_mknod [refines_intros]: "refines junk nonce ui 9 (fuseserver_mknod fl (lim_env junk) e p name) (fuseserver_mknod fl (net_env junk cmp c t r) e p name)"
  by (rule refines_mono, unfold fuseserver_mknod_def Let_def, (rule refines_intros)+, simp)

lemma refines_op_fuseserver_mkdir [refines_intros]: "refines junk nonce ui 9 (fuseserver_mkdir fl (lim_env junk) e p name) (fuseserver_mkdir fl (net_env junk cmp c t r) e p name)"
  by (rule refines_mono, unfold fuseserver_mkdir_def Let_def, (rule refines_intros)+, simp)

lemma refines_op_fuseserver_lookup [refines_intros]: "refines junk nonce ui 6 (fuseserver_lookup fl (lim_env junk) p name) (fuseserver_lookup fl (net_env junk cmp c t r) p name)"
  by (rule refines_mono, unfold fuseserver_lookup_def Let_def, (rule refines_intros)+, simp)

lemma refines_op_fuseserver_readdir [refines_intros]: "refines junk nonce ui 2 (fuseserver_readdir L fl (lim_env junk) i sz off) (fuseserver_readdir L fl (net_env junk cmp c t r) i sz off)"
  by (rule refines_mono, unfold fuseserver_readdir_def Let_def, (rule refines_intros)+, simp)

lemma refines_op_fuseserver_unlink [refines_intros]: "refines junk nonce ui 5 (fuseserver_unlink fl (lim_env junk) p name) (fuseserver_unlink fl (net_env junk cmp c t r) p name)"
  by (rule refines_mono, unfold fuseserver_unlink_def Let_def, (rule refines_intros)+, simp)

lemma refines_op_fuseserver_symlink [refines_intros]: "refines junk nonce ui 10 (fuseserver_symlink fl (lim_env junk) link p name) (fuseserver_symlink fl (net_env junk cmp c t r) link p name)"
  by (rule refines_mono, unfold fuseserver_symlink_def Let_def, (rule refines_intros)+, simp)

lemma refines_op_fuseserver_readlink [refines_intros]: "refines junk nonce ui 1 (fuseserver_readlink (lim_env junk) i) (fuseserver_readlink (net_env junk cmp c t r) i)"
  by (rule refines_mono, unfold fuseserver_readlink_def Let_def, (rule refines_intros)+, simp)


lemma refines_op_fuseserver_oper [refines_intros]: "refines junk nonce ui 10 (fuseserver_oper L fl e (lim_env junk) q) (fuseserver_oper L fl e (net_env junk cmp c t r) q)"
  by (cases q; hypsubst; unfold fuseserver_oper.simps fuseserver_statfs_def fuseserver_open_def; rule refines_mono, rule refines_intros, simp)

section \<open>Sessions\<close>

text \<open>
  A session of the FUSE server on a remote store, requests that the store has room for and the tree admits: every
  request is answered as the abstract file system answers it.
\<close>

lemma net_session:
  assumes "net_ready junk nonce ui (m + 10 * length qs) n" "y_ok (local_view n)" "lib_ok L"
    "session_ok L fl e (net_env junk cmp c t r) (\<lambda>n. y_tab (local_view n)) (\<lambda>n. y_room (local_view n)) qs n"
  shows "\<exists>rs n'. fuse_session L fl e (net_env junk cmp c t r) qs n = Inr (rs, n') \<and> net_ready junk nonce ui m n' \<and> y_ok (local_view n') \<and>
    fs_run L qs (y_tab (local_view n)) rs (y_tab (local_view n'))"
  using assms
proof (induction qs arbitrary: n)
  case (Cons q qs)
  have q: "req_ok L (y_tab (local_view n)) (y_room (local_view n)) q" using Cons.prems(4) by simp
  from lim.oper_refines [unfolded y_ok_world, OF Cons.prems(2,3) q, of fl e junk] obtain a s1 where
    a: "fuseserver_oper L fl e (lim_env junk) q (local_view n) = Inr (a, s1)" "y_ok s1" "fs_spec L q (y_tab (local_view n)) a (y_tab s1)" by blast
  have "net_ready junk nonce ui (m + 10 * length qs + 10) n" using Cons.prems(1) by (simp add: algebra_simps)
  from refinesD [OF refines_op_fuseserver_oper this a(1)] obtain n1 where
    n1: "fuseserver_oper L fl e (net_env junk cmp c t r) q n = Inr (a, n1)" "net_ready junk nonce ui (m + 10 * length qs) n1" "local_view n1 = s1" by blast
  have "session_ok L fl e (net_env junk cmp c t r) (\<lambda>n. y_tab (local_view n)) (\<lambda>n. y_room (local_view n)) qs n1"
    using Cons.prems(4) n1(1) by simp
  from Cons.IH [OF n1(2) _ Cons.prems(3) this] a(2) n1(3) obtain rs n2 where
    "fuse_session L fl e (net_env junk cmp c t r) qs n1 = Inr (rs, n2)" "net_ready junk nonce ui m n2" "y_ok (local_view n2)"
    "fs_run L qs (y_tab s1) rs (y_tab (local_view n2))" by blast
  with a n1 show ?case by (auto simp: andthen_def ret_def)
qed (simp add: ret_def)



section \<open>A concrete link\<close>

lemma net_init:
  "\<exists>n nonce ui. net_ready demo_junk nonce ui 20 n \<and> y_ok (local_view n) \<and> y_tab (local_view n) = [1 \<mapsto> (T_DIR, [])] \<and> y_room (local_view n) = 31734"
proof -
  let ?ui = "\<lparr>ui_id = 0, ui_buf = [], ui_attr = \<lparr>a_type = 0, a_atime = 0, a_mtime = 0, a_ctime = 0, a_size = 0\<rparr>, ui_r = 0\<rparr>"
  obtain srv where srv: "extent_smain demo_junk 7 0 ?ui = Inr srv" "procs srv = extent_procs demo_junk 7 ?ui" "srv_nonce srv = 7" "reply_window srv = Map.empty"
    using extent_smain_procs by blast
  obtain s where s: "y_ok s" "y_tab s = [1 \<mapsto> (T_DIR, [])]" "y_room s = 31734" using y_init by blast
  have "link_good 20 ((rpcc_init 3 0 True)\<lparr>bind_done := True\<rparr>, srv, y_es s)"
    using rpcc_inv_init [of 3 0 True] srv(4)
    by (auto simp: link_good_def link_ready_def rpcc_inv_def settled_def rpcc_init_def window_of_def isvalid_def request_clear_def)
  then have "net_ready demo_junk 7 ?ui 20 \<lparr>n_link = ((rpcc_init 3 0 True)\<lparr>bind_done := True\<rparr>, srv, y_es s), n_log = y_log s\<rparr>"
    using srv(2) by (simp add: net_ready_def int32_def)
  moreover have "local_view \<lparr>n_link = ((rpcc_init 3 0 True)\<lparr>bind_done := True\<rparr>, srv, y_es s), n_log = y_log s\<rparr> = s"
    by (simp add: local_view_def)
  ultimately show ?thesis using s by fastforce
qed



end
