(* ===== verification/Yfs_Atomic.thy ===== *)
theory Yfs_Atomic
  imports Yfs_Tree
begin

text \<open>
  Several clients at once.  Each operation of \<^verbatim>\<open>yfs_client\<close> holds the lock of one inode while it calls the
  extent server; operations of different clients interleave call by call.  A history lists the lock
  operations and the calls with their results in the order in which they take effect.  Every history in
  which the locks exclude each other is equivalent to one in which the operations follow one another, so
  that each client sees the operations of the others as atomic.  \<^verbatim>\<open>unlink\<close> is the exception: it removes an
  inode whose lock it does not hold.
\<close>

section \<open>What an operation does\<close>

datatype event =
    Acq u64
  | Rel u64
  | E_Create u32 u64
  | E_Get u64 string
  | E_Getattr u64 attr
  | E_Put u64 string
  | E_Remove u64

text \<open>
  A script lists the calls that an operation is expected to make and what they return; run against it,
  the operation consumes the script or fails.  The status of a call to the extent server is always \<^verbatim>\<open>OK\<close>.
\<close>

record script =
  todo :: "event list"
  off_script :: bool

definition script_ops :: "script ext_ops" where
  "script_ops = \<lparr>
     ec_create = \<lambda>ty _ s. (case todo s of
         E_Create ty' i # es \<Rightarrow> if ty' = ty then Inr ((OK, i), s\<lparr>todo := es\<rparr>) else Inl No_Return | _ \<Rightarrow> Inl No_Return),
     ec_get = \<lambda>i _ s. (case todo s of
         E_Get j d # es \<Rightarrow> if j = i then Inr ((OK, d), s\<lparr>todo := es\<rparr>) else Inl No_Return | _ \<Rightarrow> Inl No_Return),
     ec_getattr = \<lambda>i _ s. (case todo s of
         E_Getattr j a # es \<Rightarrow> if j = i then Inr ((OK, a), s\<lparr>todo := es\<rparr>) else Inl No_Return | _ \<Rightarrow> Inl No_Return),
     ec_put = \<lambda>i d s. (case todo s of
         E_Put j d' # es \<Rightarrow> if j = i \<and> d' = d then Inr (OK, s\<lparr>todo := es\<rparr>) else Inl No_Return | _ \<Rightarrow> Inl No_Return),
     ec_remove = \<lambda>i s. (case todo s of
         E_Remove j # es \<Rightarrow> if j = i then Inr (OK, s\<lparr>todo := es\<rparr>) else Inl No_Return | _ \<Rightarrow> Inl No_Return)\<rparr>"

definition script_env :: "script env" where
  "script_env = \<lparr>ec = script_ops,
     lc_acquire = \<lambda>i s. (case todo s of Acq j # es \<Rightarrow> if j = i then s\<lparr>todo := es\<rparr> else s\<lparr>off_script := True\<rparr> | _ \<Rightarrow> s\<lparr>off_script := True\<rparr>),
     lc_release = \<lambda>i s. (case todo s of Rel j # es \<Rightarrow> if j = i then s\<lparr>todo := es\<rparr> else s\<lparr>off_script := True\<rparr> | _ \<Rightarrow> s\<lparr>off_script := True\<rparr>)\<rparr>"

definition performs :: "(script, 'a) op \<Rightarrow> event list \<Rightarrow> 'a \<Rightarrow> bool" where
  "performs f es x \<longleftrightarrow> f \<lparr>todo = es, off_script = False\<rparr> = Inr (x, \<lparr>todo = [], off_script = False\<rparr>)"

text \<open>The operations of a client, with their arguments and the old values of their reference arguments.\<close>

datatype y_op =
    Op_Isfile u64
  | Op_Isdir u64
  | Op_Getfile u64 fileinfo
  | Op_Getdir u64 dirinfo
  | Op_Setattr u64 nat
  | Op_Create u64 string u64
  | Op_Mkdir u64 string u64
  | Op_Lookup u64 string u64
  | Op_Readdir u64 "dirent list"
  | Op_Read u64 nat int string
  | Op_Write u64 nat int string nat
  | Op_Symlink u64 string string u64
  | Op_Readlink u64 string

datatype y_res =
    R_Bool bool
  | R_File int fileinfo
  | R_Dir int dirinfo
  | R_Status int
  | R_Inum int u64
  | R_Found int bool u64
  | R_Entries int "dirent list"
  | R_Data int string
  | R_Count int nat

definition result :: "('a \<Rightarrow> y_res) \<Rightarrow> ('s, 'a) op \<Rightarrow> ('s, y_res) op" where
  "result c f = andthen f (\<lambda>x. ret (c x))"

fun y_run :: "locals \<Rightarrow> 's env \<Rightarrow> y_op \<Rightarrow> ('s, y_res) op" where
  "y_run l E (Op_Isfile i) = result R_Bool (isfile l E i)"
| "y_run l E (Op_Isdir i) = result R_Bool (isdir l E i)"
| "y_run l E (Op_Getfile i f) = result (case_prod R_File) (getfile l E i f)"
| "y_run l E (Op_Getdir i d) = result (case_prod R_Dir) (getdir l E i d)"
| "y_run l E (Op_Setattr i n) = result R_Status (setattr E i n)"
| "y_run l E (Op_Create p name i) = result (case_prod R_Inum) (create l E p name i)"
| "y_run l E (Op_Mkdir p name i) = result (case_prod R_Inum) (mkdir l E p name i)"
| "y_run l E (Op_Lookup p name i) = result (\<lambda>(r, b, i). R_Found r b i) (lookup l E p name i)"
| "y_run l E (Op_Readdir p es) = result (case_prod R_Entries) (readdir l E p es)"
| "y_run l E (Op_Read i n off d) = result (case_prod R_Data) (read E i n off d)"
| "y_run l E (Op_Write i n off d w) = result (case_prod R_Count) (yfs_write E i n off d w)"
| "y_run l E (Op_Symlink p name link i) = result (case_prod R_Inum) (symlink l E p name link i)"
| "y_run l E (Op_Readlink i d) = result (case_prod R_Data) (readlink E i d)"

fun lock_of :: "y_op \<Rightarrow> u64" where
  "lock_of (Op_Isfile i) = i"
| "lock_of (Op_Isdir i) = i"
| "lock_of (Op_Getfile i f) = i"
| "lock_of (Op_Getdir i d) = i"
| "lock_of (Op_Setattr i n) = i"
| "lock_of (Op_Create p name i) = p"
| "lock_of (Op_Mkdir p name i) = p"
| "lock_of (Op_Lookup p name i) = p"
| "lock_of (Op_Readdir p es) = p"
| "lock_of (Op_Read i n off d) = i"
| "lock_of (Op_Write i n off d w) = i"
| "lock_of (Op_Symlink p name link i) = p"
| "lock_of (Op_Readlink i d) = i"

section \<open>What an operation touches\<close>

text \<open>
  \<open>owns K es\<close>: the calls \<open>es\<close> touch only the inodes of \<open>K\<close> and those they have created before.
\<close>

fun owns :: "u64 set \<Rightarrow> event list \<Rightarrow> bool" where
  "owns K [] = True"
| "owns K (E_Create ty i # es) = (ty \<in> {T_DIR, T_FILE, T_SYMLINK} \<and> owns (insert i K) es)"
| "owns K (E_Get i d # es) = (i \<in> K \<and> owns K es)"
| "owns K (E_Getattr i a # es) = (i \<in> K \<and> owns K es)"
| "owns K (E_Put i d # es) = (i \<in> K \<and> owns K es)"
| "owns K (e # es) = False"

lemma owns_mono: "owns K es \<Longrightarrow> K \<subseteq> K' \<Longrightarrow> owns K' es"
proof (induction K es arbitrary: K' rule: owns.induct)
  case (2 K ty i es)
  then show ?case by (metis insert_mono owns.simps(2))
qed auto

lemma owns_append: "owns K es \<Longrightarrow> owns K fs \<Longrightarrow> owns K (es @ fs)"
proof (induction K es rule: owns.induct)
  case (2 K ty i es)
  then show ?case using owns_mono [of K fs "insert i K"] by auto
qed auto

definition within :: "u64 set \<Rightarrow> (script, 'a) op \<Rightarrow> bool" where
  "within K f \<longleftrightarrow> (\<forall>s x s'. f s = Inr (x, s') \<longrightarrow> off_script s' = off_script s \<and> (\<exists>es. todo s = es @ todo s' \<and> owns K es))"

named_theorems within_intros \<open>which inodes an operation touches, from its parts\<close>

lemma within_create [within_intros]:
  assumes "ty \<in> {T_DIR, T_FILE, T_SYMLINK}" "\<And>r i. within (insert i K) (g r i)"
  shows "within K (andthen (ec_create (ec script_env) ty i0) (\<lambda>(r, i). g r i))"
  unfolding within_def
proof (intro allI impI)
  fix s x s' assume "andthen (ec_create (ec script_env) ty i0) (\<lambda>(r, i). g r i) s = Inr (x, s')"
  then obtain i es where t: "todo s = E_Create ty i # es" and g: "g OK i (s\<lparr>todo := es\<rparr>) = Inr (x, s')"
    by (auto simp: andthen_def script_env_def script_ops_def split: list.splits event.splits if_splits)
  have "off_script s' = off_script s \<and> (\<exists>fs. es = fs @ todo s' \<and> owns (insert i K) fs)"
    using assms(2) [of i OK] g by (fastforce simp: within_def)
  then show "off_script s' = off_script s \<and> (\<exists>es. todo s = es @ todo s' \<and> owns K es)"
    using t assms(1) by (metis append_Cons owns.simps(2))
qed

lemma within_andthen [within_intros]:
  assumes "within K f" "\<And>x. within K (g x)"
  shows "within K (andthen f g)"
  unfolding within_def
proof (intro allI impI)
  fix s y s'' assume "andthen f g s = Inr (y, s'')"
  then obtain x s' where f: "f s = Inr (x, s')" "g x s' = Inr (y, s'')" by (auto simp: andthen_Inr_iff)
  obtain es fs where "todo s = es @ todo s'" "owns K es" "todo s' = fs @ todo s''" "owns K fs" "off_script s'' = off_script s"
    using assms(1) assms(2) [of x] f unfolding within_def by metis
  then show "off_script s'' = off_script s \<and> (\<exists>es. todo s = es @ todo s'' \<and> owns K es)"
    using owns_append [of K es fs] by auto
qed

lemma within_basic [within_intros]:
  "within K (ret x)" "within K (\<lambda>s. Inl e)" "within K (\<lambda>s. case y of None \<Rightarrow> Inl e | Some a \<Rightarrow> Inr (f a, s))"
  by (auto simp: within_def ret_def split: option.splits)

lemma within_split [within_intros]:
  "within K f \<Longrightarrow> within K f' \<Longrightarrow> within K (if b then f else f')"
  "(\<And>a b. within K (g a b)) \<Longrightarrow> within K (case p of (a, b) \<Rightarrow> g a b)"
  "within K f \<Longrightarrow> (\<And>a. within K (h a)) \<Longrightarrow> within K (case y of None \<Rightarrow> f | Some a \<Rightarrow> h a)"
  by (auto split: prod.splits option.splits)

lemma within_calls [within_intros]:
  "i \<in> K \<Longrightarrow> within K (ec_get (ec script_env) i b)"
  "i \<in> K \<Longrightarrow> within K (ec_getattr (ec script_env) i a)"
  "i \<in> K \<Longrightarrow> within K (ec_put (ec script_env) i d)"
  by (auto simp: within_def script_env_def script_ops_def split: list.splits event.splits if_splits)

lemma within_op_isfile [within_intros]: "i \<in> K \<Longrightarrow> within K (isfile' l script_env i)"
  unfolding isfile'_def Let_def by (rule within_intros | simp)+

lemma within_op_isdir [within_intros]: "i \<in> K \<Longrightarrow> within K (isdir' l script_env i)"
  unfolding isdir'_def Let_def by (rule within_intros | simp)+

lemma within_op_getfile [within_intros]: "i \<in> K \<Longrightarrow> within K (getfile' l script_env i f)"
  unfolding getfile'_def Let_def by (rule within_intros | simp)+

lemma within_op_getdir [within_intros]: "i \<in> K \<Longrightarrow> within K (getdir' l script_env i d)"
  unfolding getdir'_def Let_def by (rule within_intros | simp)+

lemma within_op_setattr [within_intros]: "i \<in> K \<Longrightarrow> within K (setattr' script_env i n)"
  unfolding setattr'_def Let_def by (rule within_intros | simp)+

lemma within_op_readdir [within_intros]: "i \<in> K \<Longrightarrow> within K (readdir' l script_env i es)"
  unfolding readdir'_def Let_def by (rule within_intros | simp)+

lemma within_op_lookup [within_intros]: "i \<in> K \<Longrightarrow> within K (lookup' l script_env i name j)"
  unfolding lookup'_def Let_def by (rule within_intros | simp)+

lemma within_op_add_entry [within_intros]: "i \<in> K \<Longrightarrow> within K (add_entry script_env i name j)"
  unfolding add_entry_def Let_def by (rule within_intros | simp)+

lemma within_op_create [within_intros]: "i \<in> K \<Longrightarrow> within K (create' l script_env i name j)"
  unfolding create'_def Let_def by (rule within_intros | simp)+

lemma within_op_mkdir [within_intros]: "i \<in> K \<Longrightarrow> within K (mkdir' l script_env i name j)"
  unfolding mkdir'_def Let_def by (rule within_intros | simp)+

lemma within_op_read [within_intros]: "i \<in> K \<Longrightarrow> within K (read' script_env i n off d)"
  unfolding read'_def Let_def by (rule within_intros | simp)+

lemma within_op_write [within_intros]: "i \<in> K \<Longrightarrow> within K (write' script_env i n off d w)"
  unfolding write'_def Let_def by (rule within_intros | simp)+

lemma within_op_symlink [within_intros]: "i \<in> K \<Longrightarrow> within K (symlink' l script_env i name link j)"
  unfolding symlink'_def Let_def by (rule within_intros | simp)+

lemma within_op_readlink [within_intros]: "i \<in> K \<Longrightarrow> within K (readlink' script_env i d)"
  unfolding readlink'_def Let_def by (rule within_intros | simp)+

text \<open>A locked operation: the lock, calls that touch only its inode and what they create, the lock again.\<close>

lemma performs_locked:
  assumes "performs (result c (locked script_env p f)) es x" "within {p} f"
  shows "\<exists>mid. es = Acq p # mid @ [Rel p] \<and> owns {p} mid"
proof -
  let ?s = "\<lparr>todo = es, off_script = False\<rparr>"
  obtain y s' where y: "f (lc_acquire script_env p ?s) = Inr (y, s')" "lc_release script_env p s' = \<lparr>todo = [], off_script = False\<rparr>"
    using assms(1) by (auto simp: performs_def result_def andthen_def ret_def locked_def rbind_Inr_iff)
  obtain mid where m: "todo (lc_acquire script_env p ?s) = mid @ todo s'" "owns {p} mid" "off_script s' = off_script (lc_acquire script_env p ?s)"
    using assms(2) y(1) unfolding within_def by metis
  have r: "todo s' = [Rel p]" "\<not> off_script s'"
    using y(2) by (cases s'; auto simp: script_env_def split: list.splits event.splits if_splits)+
  have "es = Acq p # mid @ [Rel p]"
    using m(1,3) r by (auto simp: script_env_def split: list.splits event.splits if_splits)
  with m(2) show ?thesis by blast
qed

lemma y_run_events:
  assumes "performs (y_run l script_env op) es x"
  shows "\<exists>mid. es = Acq (lock_of op) # mid @ [Rel (lock_of op)] \<and> owns {lock_of op} mid"
  using assms
  by (cases op)
    (simp_all only: y_run.simps lock_of.simps isfile_def isdir_def getfile_def getdir_def setattr_def create_def mkdir_def
      lookup_def readdir_def read_def yfs_write_def symlink_def readlink_def,
      (rule performs_locked, assumption, (rule within_intros | simp)+)+)

section \<open>Calls on the table of inodes\<close>

text \<open>
  The effect of a call with its result on the inode it touches; \<open>None\<close> where the call does not have this
  result.  A new inode may have any free number, and the times of an inode are left open.
\<close>

type_synonym cell = "(u32 \<times> string) option"

fun target :: "event \<Rightarrow> u64 option" where
  "target (Acq i) = None"
| "target (Rel i) = None"
| "target (E_Create ty i) = Some i"
| "target (E_Get i d) = Some i"
| "target (E_Getattr i a) = Some i"
| "target (E_Put i d) = Some i"
| "target (E_Remove i) = Some i"

fun cell_step :: "event \<Rightarrow> cell \<Rightarrow> cell option" where
  "cell_step (E_Create ty i) c = (if c = None then Some (Some (ty, [])) else None)"
| "cell_step (E_Get i d) c = (if d = (case c of Some (t, d) \<Rightarrow> d | None \<Rightarrow> []) then Some c else None)"
| "cell_step (E_Getattr i a) c =
     (if (case c of Some (t, d) \<Rightarrow> a_type a = t \<and> a_size a = of_nat (length d) | None \<Rightarrow> a_type a = 0 \<and> a_size a = 0) then Some c else None)"
| "cell_step (E_Put i d) c = (case c of Some (t, d') \<Rightarrow> Some (Some (t, d)) | None \<Rightarrow> None)"
| "cell_step (E_Remove i) c = Some None"
| "cell_step e c = Some c"

fun cell_run :: "cell \<Rightarrow> event list \<Rightarrow> cell option" where
  "cell_run c [] = Some c"
| "cell_run c (e # es) = Option.bind (cell_step e c) (\<lambda>c. cell_run c es)"

definition tab_step :: "event \<Rightarrow> (u64 \<Rightarrow> cell) \<Rightarrow> (u64 \<Rightarrow> cell) option" where
  "tab_step e T = (case target e of None \<Rightarrow> Some T | Some i \<Rightarrow> map_option (\<lambda>c. T(i := c)) (cell_step e (T i)))"

fun tab_run :: "(u64 \<Rightarrow> cell) \<Rightarrow> event list \<Rightarrow> (u64 \<Rightarrow> cell) option" where
  "tab_run T [] = Some T"
| "tab_run T (e # es) = Option.bind (tab_step e T) (\<lambda>T. tab_run T es)"

definition on_inode :: "u64 \<Rightarrow> event list \<Rightarrow> event list" where
  "on_inode i es = filter (\<lambda>e. target e = Some i) es"

lemma cell_run_append: "cell_run c (es @ fs) = Option.bind (cell_run c es) (\<lambda>c. cell_run c fs)"
  by (induction es arbitrary: c) (auto split: bind_split)

lemma tab_run_append: "tab_run T (es @ fs) = Option.bind (tab_run T es) (\<lambda>T. tab_run T fs)"
  by (induction es arbitrary: T) (auto split: bind_split)

lemma on_inode_append [simp]: "on_inode i (es @ fs) = on_inode i es @ on_inode i fs"
  by (simp add: on_inode_def)

text \<open>Calls on different inodes do not influence each other.\<close>

lemma tab_run_cells: "tab_run T es = Some T' \<longleftrightarrow> (\<forall>i. cell_run (T i) (on_inode i es) = Some (T' i))"
proof (induction es arbitrary: T)
  case Nil
  show ?case by (auto simp: on_inode_def)
next
  case (Cons e es)
  show ?case
  proof (cases "target e")
    case None
    then show ?thesis using Cons.IH [of T] by (simp add: tab_step_def on_inode_def)
  next
    case (Some j)
    show ?thesis
    proof (cases "cell_step e (T j)")
      case None
      then have "cell_run (T j) (on_inode j (e # es)) = None" using Some by (simp add: on_inode_def)
      then show ?thesis using Some None by (auto simp: tab_step_def intro!: exI [of _ j])
    next
      case (Some c)
      then have "tab_run T (e # es) = Some T' \<longleftrightarrow> (\<forall>i. cell_run ((T(j := c)) i) (on_inode i es) = Some (T' i))"
        using \<open>target e = Some j\<close> Cons.IH [of "T(j := c)"] by (simp add: tab_step_def del: fun_upd_apply)
      moreover have "cell_run ((T(j := c)) i) (on_inode i es) = cell_run (T i) (on_inode i (e # es))" for i
        using Some \<open>target e = Some j\<close> by (cases "i = j") (simp_all add: on_inode_def)
      ultimately show ?thesis by simp
    qed
  qed
qed

section \<open>Histories\<close>

text \<open>The locks of a history: an inode's lock has at most one holder.\<close>

fun lock_run :: "(u64 \<rightharpoonup> 'p) \<Rightarrow> ('p \<times> event) list \<Rightarrow> (u64 \<rightharpoonup> 'p) option" where
  "lock_run L [] = Some L"
| "lock_run L ((t, Acq i) # H) = (if L i = None then lock_run (L(i \<mapsto> t)) H else None)"
| "lock_run L ((t, Rel i) # H) = (if L i = Some t then lock_run (L(i := None)) H else None)"
| "lock_run L ((t, e) # H) = lock_run L H"

lemma lock_run_append: "lock_run L (G @ H) = Option.bind (lock_run L G) (\<lambda>L. lock_run L H)"
proof (induction G arbitrary: L)
  case (Cons h G)
  obtain t e where "h = (t, e)" by (cases h)
  then show ?case using Cons.IH by (cases e) (simp_all del: fun_upd_apply)
qed simp

definition proj :: "'p \<Rightarrow> ('p \<times> event) list \<Rightarrow> event list" where
  "proj t H = map snd (filter (\<lambda>h. fst h = t) H)"

lemma proj_append: "proj t (G @ H) = proj t G @ proj t H"
  by (simp add: proj_def)

lemma proj_single: "proj t [(u, e)] = (if u = t then [e] else [])"
  by (simp add: proj_def)

text \<open>An operation alone, and operations one after the other.\<close>

definition atomically :: "locals \<Rightarrow> (u64 \<Rightarrow> cell) \<Rightarrow> y_op \<Rightarrow> y_res \<Rightarrow> (u64 \<Rightarrow> cell) \<Rightarrow> bool" where
  "atomically l T op x T' \<longleftrightarrow> (\<exists>es. performs (y_run l script_env op) es x \<and> tab_run T es = Some T')"

fun serially :: "(u64 \<Rightarrow> cell) \<Rightarrow> (locals \<times> y_op \<times> y_res) list \<Rightarrow> (u64 \<Rightarrow> cell) \<Rightarrow> bool" where
  "serially T [] T' = (T' = T)"
| "serially T ((l, op, x) # r) T' = (\<exists>T1. atomically l T op x T1 \<and> serially T1 r T')"

section \<open>Locked sections\<close>

definition created :: "event list \<Rightarrow> u64 set" where
  "created es = {i. \<exists>ty. E_Create ty i \<in> set es}"

lemma created_simps [simp]: "created [] = {}" "created (es @ fs) = created es \<union> created fs" "created [E_Create ty i] = {i}"
  by (auto simp: created_def)

lemma created_other: "(\<And>ty i. e \<noteq> E_Create ty i) \<Longrightarrow> created [e] = {}"
  by (auto simp: created_def)

text \<open>What may come next in a section on inode \<open>p\<close>, and a section that goes on like this from its start.\<close>

definition may_follow :: "u64 \<Rightarrow> event list \<Rightarrow> event \<Rightarrow> bool" where
  "may_follow p es e \<longleftrightarrow> (if es = [] then e = Acq p
     else Rel p \<notin> set es \<and> (e = Rel p \<or> (\<exists>ty i. e = E_Create ty i \<and> ty \<in> {T_DIR, T_FILE, T_SYMLINK}) \<or>
       (\<exists>i. target e = Some i \<and> i \<in> insert p (created es) \<and> (\<forall>c. cell_step e c \<noteq> Some None \<or> c = None) \<and> (\<forall>ty i. e \<noteq> E_Create ty i))))"

definition section_on :: "u64 \<Rightarrow> event list \<Rightarrow> bool" where
  "section_on p es \<longleftrightarrow> (\<forall>es1 e es2. es = es1 @ e # es2 \<longrightarrow> may_follow p es1 e)"

lemma section_on_snoc: "section_on p (es @ [e]) \<longleftrightarrow> section_on p es \<and> may_follow p es e"
proof
  assume a: "section_on p (es @ [e])"
  have "may_follow p es e" using a by (auto simp: section_on_def)
  moreover have "may_follow p es1 f" if "es = es1 @ f # es2" for es1 f es2
  proof -
    have "es @ [e] = es1 @ f # (es2 @ [e])" using that by simp
    then show ?thesis using a unfolding section_on_def by blast
  qed
  ultimately show "section_on p es \<and> may_follow p es e" by (auto simp: section_on_def)
next
  assume a: "section_on p es \<and> may_follow p es e"
  have "may_follow p es1 f" if "es @ [e] = es1 @ f # es2" for es1 f es2
  proof (cases es2 rule: rev_cases)
    case Nil
    then show ?thesis using that a by simp
  next
    case (snoc es3 g)
    then have "es = es1 @ f # es3" using that by simp
    then show ?thesis using a by (auto simp: section_on_def)
  qed
  then show "section_on p (es @ [e])" by (auto simp: section_on_def)
qed

lemma owns_snoc:
  "owns K (es @ [e]) \<longleftrightarrow> owns K es \<and> ((\<exists>ty i. e = E_Create ty i \<and> ty \<in> {T_DIR, T_FILE, T_SYMLINK}) \<or>
     (\<exists>i. i \<in> K \<union> created es \<and> ((\<exists>d. e = E_Get i d) \<or> (\<exists>a. e = E_Getattr i a) \<or> (\<exists>d. e = E_Put i d))))"
proof (induction K es rule: owns.induct)
  case (1 K)
  show ?case by (cases e) auto
next
  case (2 K ty i es)
  have "created (E_Create ty i # es) = insert i (created es)" by (auto simp: created_def)
  then show ?case using 2 by auto
qed (auto simp: created_def)

lemma owns_section: "owns {p} mid \<Longrightarrow> section_on p (Acq p # mid) \<and> Rel p \<notin> set mid"
proof (induction mid rule: rev_induct)
  case Nil
  have "section_on p ([] @ [Acq p])" unfolding section_on_snoc by (auto simp: section_on_def may_follow_def)
  then show ?case by simp
next
  case (snoc e mid)
  have o: "owns {p} mid" "(\<exists>ty i. e = E_Create ty i \<and> ty \<in> {T_DIR, T_FILE, T_SYMLINK}) \<or> (\<exists>i. i \<in> {p} \<union> created mid \<and> ((\<exists>d. e = E_Get i d) \<or> (\<exists>a. e = E_Getattr i a) \<or> (\<exists>d. e = E_Put i d)))"
    using snoc.prems unfolding owns_snoc by blast+
  have c: "created (Acq p # mid) = created mid" by (auto simp: created_def)
  have "may_follow p (Acq p # mid) e \<and> e \<noteq> Rel p"
    using o(2) snoc.IH [OF o(1)] unfolding may_follow_def c by (auto split: option.splits if_splits)
  then show ?case using snoc.IH [OF o(1)] section_on_snoc [of p "Acq p # mid" e] by auto
qed

lemma y_run_section:
  assumes "performs (y_run l script_env op) es x"
  shows "section_on (lock_of op) es \<and> Rel (lock_of op) \<in> set es"
proof -
  obtain mid where m: "es = Acq (lock_of op) # mid @ [Rel (lock_of op)]" "owns {lock_of op} mid" using y_run_events [OF assms] by blast
  have "section_on (lock_of op) ((Acq (lock_of op) # mid) @ [Rel (lock_of op)])"
    unfolding section_on_snoc using owns_section [OF m(2)] by (simp add: may_follow_def)
  then show ?thesis using m(1) by simp
qed

text \<open>A section touches its inode and those it has created, and the first event of it takes the lock.\<close>

lemma section_targets:
  assumes "section_on p es" "e \<in> set es" "target e = Some i"
  shows "i \<in> insert p (created es)"
  using assms
proof (induction es rule: rev_induct)
  case (snoc f es)
  have s: "section_on p es" "may_follow p es f" using snoc.prems(1) by (simp_all add: section_on_snoc)
  show ?case
  proof (cases "e = f")
    case True
    then show ?thesis using s(2) snoc.prems(3) by (auto simp: may_follow_def split: if_splits)
  qed (use snoc s(1) in auto)
qed simp

lemma section_none:
  assumes "section_on p es" "i \<notin> insert p (created es)"
  shows "on_inode i es = []"
  using section_targets [OF assms(1)] assms(2) by (auto simp: on_inode_def filter_empty_conv)


section \<open>Histories are serialisable\<close>

definition active :: "u64 \<Rightarrow> event list \<Rightarrow> bool" where
  "active p es \<longleftrightarrow> es \<noteq> [] \<and> Rel p \<notin> set es"

definition touches :: "u64 \<Rightarrow> event list \<Rightarrow> u64 set" where
  "touches p es = insert p (created es)"

text \<open>
  The invariant of a history so far, with the operations that are done in the order \<open>ds\<close> of their end:
  executed one after the other they lead to the table \<open>A\<close>; the table of the history differs from it only
  by what the operations under way have done to the inodes they hold.
\<close>

definition serial_inv :: "'p set \<Rightarrow> ('p \<Rightarrow> u64) \<Rightarrow> (u64 \<Rightarrow> cell) \<Rightarrow> ('p \<times> event) list \<Rightarrow> (u64 \<rightharpoonup> 'p) \<Rightarrow> (u64 \<Rightarrow> cell) \<Rightarrow> 'p list \<Rightarrow> (u64 \<Rightarrow> cell) \<Rightarrow> bool" where
  "serial_inv Th lk T H L T' ds A \<longleftrightarrow>
     distinct ds \<and> set ds = {t \<in> Th. Rel (lk t) \<in> set (proj t H)} \<and> tab_run T (concat (map (\<lambda>t. proj t H) ds)) = Some A \<and>
     (\<forall>t \<in> Th. active (lk t) (proj t H) \<longrightarrow> L (lk t) = Some t) \<and>
     (\<forall>t \<in> Th. active (lk t) (proj t H) \<longrightarrow>
        (\<forall>i \<in> touches (lk t) (proj t H). T' i \<noteq> None \<and> cell_run (A i) (on_inode i (proj t H)) = Some (T' i))) \<and>
     (\<forall>i. (\<forall>t \<in> Th. active (lk t) (proj t H) \<longrightarrow> i \<notin> touches (lk t) (proj t H)) \<longrightarrow> A i = T' i) \<and>
     (\<forall>t \<in> Th. \<forall>u \<in> Th. active (lk t) (proj t H) \<longrightarrow> active (lk u) (proj u H) \<longrightarrow> t \<noteq> u \<longrightarrow>
        touches (lk t) (proj t H) \<inter> touches (lk u) (proj u H) = {}) \<and>
     (\<forall>i. T i \<noteq> None \<longrightarrow> T' i \<noteq> None) \<and> (\<forall>t \<in> Th. \<forall>i \<in> created (proj t H). T i = None)"

lemma serial_inv_Nil: "serial_inv Th lk T [] Map.empty T [] T"
  by (simp add: serial_inv_def proj_def active_def)

lemma serial_invD:
  assumes "serial_inv Th lk T H L T' ds A"
  shows "distinct ds" "set ds = {t \<in> Th. Rel (lk t) \<in> set (proj t H)}" "tab_run T (concat (map (\<lambda>t. proj t H) ds)) = Some A"
    "t \<in> Th \<Longrightarrow> active (lk t) (proj t H) \<Longrightarrow> L (lk t) = Some t"
    "t \<in> Th \<Longrightarrow> active (lk t) (proj t H) \<Longrightarrow> i \<in> touches (lk t) (proj t H) \<Longrightarrow> T' i \<noteq> None"
    "t \<in> Th \<Longrightarrow> active (lk t) (proj t H) \<Longrightarrow> i \<in> touches (lk t) (proj t H) \<Longrightarrow> cell_run (A i) (on_inode i (proj t H)) = Some (T' i)"
    "(\<And>t. t \<in> Th \<Longrightarrow> active (lk t) (proj t H) \<Longrightarrow> i \<notin> touches (lk t) (proj t H)) \<Longrightarrow> A i = T' i"
    "t \<in> Th \<Longrightarrow> u \<in> Th \<Longrightarrow> active (lk t) (proj t H) \<Longrightarrow> active (lk u) (proj u H) \<Longrightarrow> t \<noteq> u \<Longrightarrow> i \<in> touches (lk t) (proj t H) \<Longrightarrow> i \<notin> touches (lk u) (proj u H)"
    "T i \<noteq> None \<Longrightarrow> T' i \<noteq> None" "t \<in> Th \<Longrightarrow> i \<in> created (proj t H) \<Longrightarrow> T i = None"
  using assms unfolding serial_inv_def by (blast | (elim conjE, blast))+

lemma serial_invI:
  assumes "distinct ds" "set ds = {t \<in> Th. Rel (lk t) \<in> set (proj t H)}" "tab_run T (concat (map (\<lambda>t. proj t H) ds)) = Some A"
    "\<And>t. t \<in> Th \<Longrightarrow> active (lk t) (proj t H) \<Longrightarrow> L (lk t) = Some t"
    "\<And>t i. t \<in> Th \<Longrightarrow> active (lk t) (proj t H) \<Longrightarrow> i \<in> touches (lk t) (proj t H) \<Longrightarrow> T' i \<noteq> None"
    "\<And>t i. t \<in> Th \<Longrightarrow> active (lk t) (proj t H) \<Longrightarrow> i \<in> touches (lk t) (proj t H) \<Longrightarrow> cell_run (A i) (on_inode i (proj t H)) = Some (T' i)"
    "\<And>i. (\<And>t. t \<in> Th \<Longrightarrow> active (lk t) (proj t H) \<Longrightarrow> i \<notin> touches (lk t) (proj t H)) \<Longrightarrow> A i = T' i"
    "\<And>t u i. t \<in> Th \<Longrightarrow> u \<in> Th \<Longrightarrow> active (lk t) (proj t H) \<Longrightarrow> active (lk u) (proj u H) \<Longrightarrow> t \<noteq> u \<Longrightarrow> i \<in> touches (lk t) (proj t H) \<Longrightarrow> i \<notin> touches (lk u) (proj u H)"
    "\<And>i. T i \<noteq> None \<Longrightarrow> T' i \<noteq> None" "\<And>t i. t \<in> Th \<Longrightarrow> i \<in> created (proj t H) \<Longrightarrow> T i = None"
  shows "serial_inv Th lk T H L T' ds A"
  unfolding serial_inv_def using assms by (intro conjI allI ballI impI) (blast | simp)+


lemma proj_snoc: "proj u (H @ [(t, e)]) = (if u = t then proj t H @ [e] else proj u H)"
  by (simp add: proj_append proj_single)

lemma concat_other: "t \<notin> set ds \<Longrightarrow> concat (map (\<lambda>u. proj u (H @ [(t, e)])) ds) = concat (map (\<lambda>u. proj u H) ds)"
  by (induction ds) (auto simp: proj_snoc)

lemma created_lock [simp]: "created [Acq p] = {}" "created [Rel p] = {}"
  by (simp_all add: created_def)

lemma on_inode_lock [simp]: "on_inode i [Acq p] = []" "on_inode i [Rel p] = []"
  by (simp_all add: on_inode_def)

lemma on_inode_one: "on_inode i [e] = (if target e = Some i then [e] else [])"
  by (simp add: on_inode_def)

lemma serial_acquire:
  assumes inv: "serial_inv Th lk T H L T' ds A" and t: "t \<in> Th" "proj t H = []" "L (lk t) = None" "T (lk t) \<noteq> None"
  shows "serial_inv Th lk T (H @ [(t, Acq (lk t))]) (L(lk t \<mapsto> t)) T' ds A"
proof -
  note D = serial_invD [OF inv]
  have nd: "t \<notin> set ds" using D(2) t(2) by auto
  have other: "lk t \<notin> touches (lk u) (proj u H)" if "u \<in> Th" "active (lk u) (proj u H)" for u
    using D(4) [OF that] D(10) [OF that(1), of "lk t"] t(3,4) by (auto simp: touches_def)
  have ac: "active (lk u) (proj u (H @ [(t, Acq (lk t))])) \<longleftrightarrow> u = t \<or> active (lk u) (proj u H)" for u
    using t(2) by (auto simp: active_def proj_snoc)
  have to: "touches (lk u) (proj u (H @ [(t, Acq (lk t))])) = (if u = t then {lk t} else touches (lk u) (proj u H))" for u
    using t(2) by (simp add: touches_def proj_snoc)
  have self: "\<not> active (lk t) (proj t H)" using t(2) by (simp add: active_def)
  have AT: "A (lk t) = T' (lk t)" by (rule D(7)) (use other in blast)
  show ?thesis
  proof (rule serial_invI, goal_cases)
    case 1 show ?case by (rule D(1))
  next
    case 2 show ?case using D(2) t(2) by (auto simp: proj_snoc)
  next
    case 3 show ?case using D(3) nd by (simp add: concat_other)
  next
    case (4 u) then show ?case using D(4) [of u] t(3) by (auto simp: ac)
  next
    case (5 u i) then show ?case using D(5) [of u i] D(9) [OF t(4)] self by (auto simp: ac to split: if_splits)
  next
    case (6 u i) then show ?case using D(6) [of u i] AT t(2) self by (cases "u = t") (auto simp: ac to proj_snoc touches_def)
  next
    case (7 i)
    show ?case
    proof (rule D(7))
      fix u assume u: "u \<in> Th" "active (lk u) (proj u H)"
      then have "u \<noteq> t" using self by auto
      then show "i \<notin> touches (lk u) (proj u H)" using 7 [of u] u by (simp add: ac to)
    qed
  next
    case (8 u v i) then show ?case using D(8) [of u v i] other by (auto simp: ac to split: if_splits)
  next
    case (9 i) then show ?case by (rule D(9))
  next
    case (10 u i) then show ?case using D(10) [of u i] t(2) by (auto simp: proj_snoc split: if_splits)
  qed
qed

lemma serial_release:
  assumes inv: "serial_inv Th lk T H L T' ds A" and t: "t \<in> Th" "active (lk t) (proj t H)" "section_on (lk t) (proj t H)"
  shows "\<exists>A'. serial_inv Th lk T (H @ [(t, Rel (lk t))]) (L(lk t := None)) T' (ds @ [t]) A'"
proof -
  note D = serial_invD [OF inv]
  let ?A = "\<lambda>i. if i \<in> touches (lk t) (proj t H) then T' i else A i"
  have nd: "t \<notin> set ds" using D(2) t(2) by (auto simp: active_def)
  have "tab_run A (proj t H @ [Rel (lk t)]) = Some ?A"
    unfolding tab_run_cells using D(6) [OF t(1,2)] section_none [OF t(3)] by (auto simp: touches_def)
  then have run: "tab_run T (concat (map (\<lambda>u. proj u (H @ [(t, Rel (lk t))])) (ds @ [t]))) = Some ?A"
    using D(3) nd concat_other [OF nd] by (simp add: proj_snoc [of t] tab_run_append)
  have ac: "active (lk u) (proj u (H @ [(t, Rel (lk t))])) \<longleftrightarrow> u \<noteq> t \<and> active (lk u) (proj u H)" for u
    by (auto simp: active_def proj_snoc)
  have to: "touches (lk u) (proj u (H @ [(t, Rel (lk t))])) = touches (lk u) (proj u H)" for u
    by (simp add: touches_def proj_snoc)
  have "serial_inv Th lk T (H @ [(t, Rel (lk t))]) (L(lk t := None)) T' (ds @ [t]) ?A"
  proof (rule serial_invI, goal_cases)
    case 1 show ?case using D(1) nd by simp
  next
    case 2 show ?case using D(2) t(1) by (auto simp: proj_snoc)
  next
    case 3 show ?case by (rule run)
  next
    case (4 u)
    then have "L (lk u) = Some u" "L (lk t) = Some t" "u \<noteq> t" using D(4) [of u] D(4) [OF t(1,2)] by (auto simp: ac)
    then show ?case by auto
  next
    case (5 u i) then show ?case using D(5) [of u i] by (auto simp: ac to)
  next
    case (6 u i)
    then have u: "u \<noteq> t" "active (lk u) (proj u H)" "i \<in> touches (lk u) (proj u H)" by (simp_all add: ac to)
    then have "i \<notin> touches (lk t) (proj t H)" using D(8) [of u t i] 6(1) t(1,2) by auto
    then show ?case using D(6) [OF 6(1) u(2,3)] u(1) by (simp add: proj_snoc)
  next
    case (7 i)
    show ?case
    proof (cases "i \<in> touches (lk t) (proj t H)")
      case False
      have "A i = T' i" by (rule D(7)) (use 7 False in \<open>auto simp: ac to\<close>)
      then show ?thesis by simp
    qed simp
  next
    case (8 u v i) then show ?case using D(8) [of u v i] by (auto simp: ac to)
  next
    case (9 i) then show ?case by (rule D(9))
  next
    case (10 u i) then show ?case using D(10) [of u i] by (auto simp: proj_snoc split: if_splits)
  qed
  then show ?thesis by blast
qed


lemma serial_call:
  assumes inv: "serial_inv Th lk T H L T' ds A" and t: "t \<in> Th" "active (lk t) (proj t H)" "section_on (lk t) (proj t H)"
    and e: "target e = Some i" "cell_step e (T' i) = Some (Some c)"
      "i \<in> touches (lk t) (proj t H) \<and> created [e] = {} \<or> T' i = None \<and> created [e] = {i}"
  shows "serial_inv Th lk T (H @ [(t, e)]) L (T'(i \<mapsto> c)) ds A"
proof -
  note D = serial_invD [OF inv]
  have nr: "e \<noteq> Rel (lk t)" using e(1) by auto
  have nd: "t \<notin> set ds" using D(2) t(2) by (auto simp: active_def)
  have free: "i \<notin> touches (lk u) (proj u H)" if "u \<in> Th" "active (lk u) (proj u H)" "T' i = None" for u
    using D(5) [OF that(1,2), of i] that(3) by blast
  have other: "i \<notin> touches (lk u) (proj u H)" if "u \<in> Th" "active (lk u) (proj u H)" "u \<noteq> t" for u
    using e(3) D(8) [OF t(1) that(1) t(2) that(2), of i] that(3) free [OF that(1,2)] by auto
  have ac: "active (lk u) (proj u (H @ [(t, e)])) \<longleftrightarrow> active (lk u) (proj u H)" for u
    using t(2) nr by (auto simp: active_def proj_snoc)
  have to: "touches (lk u) (proj u (H @ [(t, e)])) = (if u = t then insert i (touches (lk t) (proj t H)) else touches (lk u) (proj u H))" for u
    using e(3) by (auto simp: touches_def proj_snoc)
  have run: "cell_run (A i) (on_inode i (proj t H)) = Some (T' i)"
    using e(3)
  proof (elim disjE conjE)
    assume n: "T' i = None"
    then have "i \<notin> insert (lk t) (created (proj t H))" using free [OF t(1,2)] by (simp add: touches_def)
    then have "on_inode i (proj t H) = []" by (rule section_none [OF t(3)])
    moreover have "A i = T' i" by (rule D(7)) (use free n in blast)
    ultimately show ?thesis by simp
  qed (rule D(6) [OF t(1,2)])
  show ?thesis
  proof (rule serial_invI, goal_cases)
    case 1 show ?case by (rule D(1))
  next
    case 2 show ?case using D(2) nr by (auto simp: proj_snoc)
  next
    case 3 show ?case using D(3) concat_other [OF nd] by simp
  next
    case (4 u) then show ?case using D(4) [of u] by (simp add: ac)
  next
    case (5 u j) then show ?case using D(5) [of u j] by (auto simp: ac to split: if_splits)
  next
    case (6 u j)
    then have u: "active (lk u) (proj u H)" by (simp add: ac)
    show ?case
    proof (cases "u = t")
      case True
      have "j \<noteq> i \<Longrightarrow> cell_run (A j) (on_inode j (proj t H)) = Some (T' j)" using D(6) [OF t(1,2), of j] 6(3) True by (simp add: to)
      then show ?thesis using run e(1,2) True
        by (cases "j = i") (auto simp: proj_snoc cell_run_append on_inode_one)
    next
      case False
      then show ?thesis using D(6) [OF 6(1) u, of j] other [OF 6(1) u] 6(3) by (auto simp: to proj_snoc)
    qed
  next
    case (7 j)
    have "j \<noteq> i" using 7 [OF t(1)] t(2) by (simp add: ac to)
    moreover have "j \<notin> touches (lk u) (proj u H)" if "u \<in> Th" "active (lk u) (proj u H)" for u
      using 7 [OF that(1)] that(2) unfolding ac to by (auto split: if_splits)
    ultimately show ?case using D(7) [of j] by auto
  next
    case (8 u v j)
    then have "active (lk u) (proj u H)" "active (lk v) (proj v H)" by (simp_all add: ac)
    with 8 show ?case using D(8) [of u v j] D(8) [of v u j] other [of u] other [of v] by (auto simp: to split: if_splits)
  next
    case (9 j) then show ?case using D(9) [of j] by simp
  next
    case (10 u j)
    then show ?case using D(10) [of u j] e(3) D(9) [of i] by (cases "T i"; cases "u = t") (auto simp: proj_snoc)
  qed
qed


text \<open>The operations that are done, in the order in which they release their locks.\<close>

definition releases :: "('p \<times> event) list \<Rightarrow> 'p list" where
  "releases H = map fst (filter (\<lambda>h. \<exists>p. snd h = Rel p) H)"

lemma releases_snoc: "releases (H @ [(t, e)]) = releases H @ (if \<exists>p. e = Rel p then [t] else [])"
  by (simp add: releases_def)

lemma serial_history:
  assumes "\<forall>t \<in> Th. section_on (lk t) (proj t H) \<and> T (lk t) \<noteq> None" "fst ` set H \<subseteq> Th"
    "lock_run Map.empty H = Some L" "tab_run T (map snd H) = Some T'"
  shows "\<exists>A. serial_inv Th lk T H L T' (releases H) A"
  using assms
proof (induction H arbitrary: L T' rule: rev_induct)
  case Nil
  then show ?case using serial_inv_Nil [of Th lk T] by (auto simp: releases_def)
next
  case (snoc h H)
  obtain t e where h: "h = (t, e)" by (cases h)
  obtain L0 where L0: "lock_run Map.empty H = Some L0" "lock_run L0 [(t, e)] = Some L"
    using snoc.prems(3) by (auto simp: lock_run_append h split: bind_splits)
  obtain T0 where T0: "tab_run T (map snd H) = Some T0" "tab_step e T0 = Some T'"
    using snoc.prems(4) by (auto simp: tab_run_append h split: bind_splits)
  have t: "t \<in> Th" using snoc.prems(2) h by simp
  have sec: "section_on (lk u) (proj u H) \<and> T (lk u) \<noteq> None" if "u \<in> Th" for u
    using snoc.prems(1) that by (auto simp: h proj_snoc section_on_snoc split: if_splits)
  then obtain A where inv: "serial_inv Th lk T H L0 T0 (releases H) A" using snoc.IH [OF _ _ L0(1) T0(1)] snoc.prems(2) by auto
  have m: "may_follow (lk t) (proj t H) e" using snoc.prems(1) t by (auto simp: h proj_snoc section_on_snoc)
  show ?case
  proof (cases "proj t H = []")
    case True
    then have "e = Acq (lk t)" using m by (simp add: may_follow_def)
    then show ?thesis using serial_acquire [OF inv t True] sec [OF t] L0(2) T0(2) unfolding h by (auto simp: tab_step_def releases_snoc split: if_splits)
  next
    case False
    then have a: "active (lk t) (proj t H)" using m by (auto simp: may_follow_def active_def)
    consider "e = Rel (lk t)" | i where "target e = Some i" "i \<in> touches (lk t) (proj t H) \<and> (\<forall>c. cell_step e c \<noteq> Some None \<or> c = None) \<and> created [e] = {}"
      | ty i where "e = E_Create ty i"
      using m False by (auto simp: may_follow_def touches_def intro!: created_other)
    then show ?thesis
    proof cases
      case 1
      then have "L = L0(lk t := None)" "T' = T0" using L0(2) T0(2) by (auto simp: tab_step_def split: if_splits)
      then show ?thesis using serial_release [OF inv t a] sec [OF t] 1 unfolding h by (auto simp: releases_snoc simp del: fun_upd_apply)
    next
      case (2 i)
      have live: "T0 i \<noteq> None" using serial_invD(5) [OF inv t a] 2(2) by blast
      obtain z where z: "cell_step e (T0 i) = Some z" "T' = T0(i := z)" using T0(2) 2(1) by (auto simp: tab_step_def)
      have "z \<noteq> None" using z(1) 2(2) live by metis
      then obtain c where c: "cell_step e (T0 i) = Some (Some c)" "T' = T0(i \<mapsto> c)" using z by blast
      have "L = L0" using L0(2) 2(1) by (cases e) auto
      then show ?thesis using serial_call [OF inv t a _ 2(1) c(1)] sec [OF t] 2 c(2) unfolding h releases_snoc by (auto simp del: fun_upd_apply)
    next
      case (3 ty i)
      have c: "cell_step e (T0 i) = Some (Some (ty, []))" "T0 i = None" "T' = T0(i \<mapsto> (ty, []))" "L = L0" "target e = Some i" "created [e] = {i}"
        using T0(2) L0(2) 3 by (auto simp: tab_step_def split: if_splits)
      then show ?thesis using serial_call [OF inv t a _ c(5) c(1)] sec [OF t] 3 unfolding h releases_snoc by (auto simp del: fun_upd_apply)
    qed
  qed
qed


section \<open>The extent server\<close>

text \<open>A call that the extent server answers with the result of the event.\<close>

fun serve :: "(nat \<Rightarrow> byte) \<Rightarrow> extent_server \<Rightarrow> event \<Rightarrow> extent_server option" where
  "serve junk s (E_Create ty i) = (case es_create junk ty s of Inr (r, s') \<Rightarrow> if r = (OK, i) then Some s' else None | Inl e \<Rightarrow> None)"
| "serve junk s (E_Get i d) = (case es_get junk i s of Inr (r, s') \<Rightarrow> if r = (OK, d) then Some s' else None | Inl e \<Rightarrow> None)"
| "serve junk s (E_Getattr i a) = (case es_getattr junk i s of Inr (r, s') \<Rightarrow> if r = (OK, a) then Some s' else None | Inl e \<Rightarrow> None)"
| "serve junk s (E_Put i d) = (case es_put junk i d s of Inr (r, s') \<Rightarrow> if r = OK then Some s' else None | Inl e \<Rightarrow> None)"
| "serve junk s (E_Remove i) = (case es_remove junk i s of Inr (r, s') \<Rightarrow> if r = OK then Some s' else None | Inl e \<Rightarrow> None)"
| "serve junk s e = Some s"

fun serve_run :: "(nat \<Rightarrow> byte) \<Rightarrow> extent_server \<Rightarrow> event list \<Rightarrow> extent_server option" where
  "serve_run junk s [] = Some s"
| "serve_run junk s (e # es) = Option.bind (serve junk s e) (\<lambda>s. serve_run junk s es)"

lemma serve_run_append: "serve_run junk s (es @ fs) = Option.bind (serve_run junk s es) (\<lambda>s. serve_run junk s fs)"
  by (induction es arbitrary: s) (auto split: bind_split)

text \<open>The disk is never full: there is a free inode for each call of \<^verbatim>\<open>create\<close> and there are free blocks for each \<^verbatim>\<open>put\<close>.\<close>

fun roomy :: "extent_server \<Rightarrow> event \<Rightarrow> bool" where
  "roomy s (E_Create ty i) = (\<exists>j. id_ok j \<and> es_tab s j = None)"
| "roomy s (E_Put i d) = (length d \<le> MAXFILE \<and>
     (case es_tab s i of Some (t, d0) \<Rightarrow> blocks_needed (length d) \<le> es_room s + blocks_needed (length d0) | None \<Rightarrow> True))"
| "roomy s e = True"

fun never_full :: "(nat \<Rightarrow> byte) \<Rightarrow> extent_server \<Rightarrow> event list \<Rightarrow> bool" where
  "never_full junk s [] = True"
| "never_full junk s (e # es) = (roomy s e \<and> (case serve junk s e of Some s' \<Rightarrow> never_full junk s' es | None \<Rightarrow> True))"

lemma never_full_append:
  "never_full junk s (es @ fs) \<longleftrightarrow> never_full junk s es \<and> (case serve_run junk s es of Some s' \<Rightarrow> never_full junk s' fs | None \<Rightarrow> True)"
  by (induction es arbitrary: s) (auto split: option.splits bind_splits)

lemma serve_tab:
  assumes "es_good s" "serve junk s e = Some s'" "roomy s e"
    "\<And>ty i. e = E_Create ty i \<Longrightarrow> ty \<in> {T_DIR, T_FILE, T_SYMLINK}"
    "\<And>i. target e = Some i \<Longrightarrow> \<forall>ty. e \<noteq> E_Create ty i \<Longrightarrow> es_tab s i \<noteq> None"
  shows "es_good s' \<and> tab_step e (es_tab s) = Some (es_tab s')"
proof (cases e)
  case (E_Create ty i)
  then obtain j where j: "id_ok j" "es_tab s j = None" using assms(3) by auto
  obtain i' s1 where c: "es_create junk ty s = Inr ((OK, i'), s1)" "es_tab s i' = None" "es_good s1" "es_tab s1 = (es_tab s)(i' \<mapsto> (ty, []))"
    using es_create_law [OF assms(1) j assms(4) [OF E_Create], of junk] by blast
  then have "i' = i" "s1 = s'" using assms(2) E_Create by (simp_all split: if_splits)
  then show ?thesis using c E_Create by (simp add: tab_step_def)
next
  case (E_Get i d)
  then have i: "es_tab s i \<noteq> None" using assms(5) [of i] by simp
  obtain s1 where c: "es_get junk i s = Inr ((OK, case es_tab s i of Some (t, d) \<Rightarrow> d | None \<Rightarrow> []), s1)" "es_good s1" "es_tab s1 = es_tab s"
    using es_get_law [OF assms(1) es.tab_ok [OF i], of junk] by blast
  then have "d = (case es_tab s i of Some (t, d) \<Rightarrow> d | None \<Rightarrow> [])" "s1 = s'" using assms(2) E_Get by (simp_all split: if_splits)
  then show ?thesis using c E_Get by (simp add: tab_step_def)
next
  case (E_Getattr i a)
  then have i: "es_tab s i \<noteq> None" using assms(5) [of i] by simp
  obtain a' where c: "es_getattr junk i s = Inr ((OK, a'), s)"
    "case es_tab s i of Some (t, d) \<Rightarrow> a_type a' = t \<and> a_size a' = of_nat (length d) | None \<Rightarrow> a_type a' = 0 \<and> a_size a' = 0"
    using es_getattr_law [OF assms(1) es.tab_ok [OF i], of junk] by blast
  then have "a = a'" "s' = s" using assms(2) E_Getattr by (simp_all split: if_splits)
  then show ?thesis using c(2) assms(1) E_Getattr by (simp add: tab_step_def)
next
  case (E_Put i d)
  then obtain t d0 where i: "es_tab s i = Some (t, d0)" using assms(5) [of i] by auto
  obtain s1 where c: "es_put junk i d s = Inr (OK, s1)" "es_good s1" "es_tab s1 = (es_tab s)(i \<mapsto> (t, d))"
    using es_put_law [OF assms(1) i, of d junk] assms(3) i E_Put by auto
  then have "s1 = s'" using assms(2) E_Put by simp
  then show ?thesis using c i E_Put by (simp add: tab_step_def)
next
  case (E_Remove i)
  then obtain t d0 where i: "es_tab s i = Some (t, d0)" using assms(5) [of i] by auto
  obtain s1 where c: "es_remove junk i s = Inr (OK, s1)" "es_good s1" "es_tab s1 = (es_tab s)(i := None)"
    using es_remove_law [OF assms(1) i, of junk] by blast
  then have "s1 = s'" using assms(2) E_Remove by simp
  then show ?thesis using c E_Remove by (simp add: tab_step_def)
qed (use assms in \<open>simp_all add: tab_step_def\<close>)

lemma served_history:
  assumes "es_good s" "\<forall>t \<in> Th. section_on (lk t) (proj t H) \<and> es_tab s (lk t) \<noteq> None" "fst ` set H \<subseteq> Th"
    "lock_run Map.empty H = Some L" "serve_run junk s (map snd H) = Some s'" "never_full junk s (map snd H)"
  shows "es_good s' \<and> tab_run (es_tab s) (map snd H) = Some (es_tab s')"
  using assms
proof (induction H arbitrary: L s' rule: rev_induct)
  case (snoc h H)
  obtain t e where h: "h = (t, e)" by (cases h)
  obtain L0 where L0: "lock_run Map.empty H = Some L0" using snoc.prems(4) by (auto simp: lock_run_append split: bind_splits)
  obtain s0 where s0: "serve_run junk s (map snd H) = Some s0" "serve junk s0 e = Some s'"
    using snoc.prems(5) by (auto simp: serve_run_append h split: bind_splits)
  have full: "never_full junk s (map snd H)" "roomy s0 e" using snoc.prems(6) s0 by (auto simp: never_full_append h)
  have t: "t \<in> Th" using snoc.prems(3) h by simp
  have sec: "section_on (lk u) (proj u H) \<and> es_tab s (lk u) \<noteq> None" if "u \<in> Th" for u
    using snoc.prems(2) that by (auto simp: h proj_snoc section_on_snoc split: if_splits)
  have IH: "es_good s0" "tab_run (es_tab s) (map snd H) = Some (es_tab s0)"
    using snoc.IH [OF snoc.prems(1) _ _ L0 s0(1) full(1)] sec snoc.prems(3) by auto
  obtain A where inv: "serial_inv Th lk (es_tab s) H L0 (es_tab s0) (releases H) A"
    using serial_history [OF _ _ L0 IH(2), of Th lk] sec snoc.prems(3) by auto
  have m: "may_follow (lk t) (proj t H) e" using snoc.prems(2) t by (auto simp: h proj_snoc section_on_snoc)
  have "ty \<in> {T_DIR, T_FILE, T_SYMLINK}" if "e = E_Create ty i" for ty i
    using m that by (auto simp: may_follow_def split: if_splits)
  moreover have "es_tab s0 i \<noteq> None" if "target e = Some i" "\<forall>ty. e \<noteq> E_Create ty i" for i
  proof -
    have "active (lk t) (proj t H)" "i \<in> touches (lk t) (proj t H)"
      using m that by (auto simp: may_follow_def active_def touches_def split: if_splits)
    then show ?thesis using serial_invD(5) [OF inv t] by blast
  qed
  ultimately have "es_good s' \<and> tab_step e (es_tab s0) = Some (es_tab s')" by (rule serve_tab [OF IH(1) s0(2) full(2)])
  then show ?case using IH(2) by (simp add: tab_run_append h)
qed simp

lemma serially_run:
  assumes "\<forall>t \<in> set ts. performs (y_run (ls t) script_env (ops t)) (proj t H) (xs t)"
    "tab_run T (concat (map (\<lambda>t. proj t H) ts)) = Some T'"
  shows "serially T (map (\<lambda>t. (ls t, ops t, xs t)) ts) T'"
  using assms
  by (induction ts arbitrary: T) (auto simp: tab_run_append atomically_def split: bind_splits)

text \<open>
  Operations of several clients whose calls interleave on the extent server, under locks that exclude each
  other, are atomic: they have the results and the effect on the server's table of a run in which they follow
  one another, in the order in which they release their locks.
\<close>

lemma history_serialisable:
  assumes "es_good s" "\<forall>t \<in> fst ` set H. performs (y_run (ls t) script_env (ops t)) (proj t H) (xs t) \<and> es_tab s (lock_of (ops t)) \<noteq> None"
    "lock_run Map.empty H = Some L" "serve_run junk s (map snd H) = Some s'" "never_full junk s (map snd H)"
  shows "distinct (releases H) \<and> set (releases H) = fst ` set H \<and>
    serially (es_tab s) (map (\<lambda>t. (ls t, ops t, xs t)) (releases H)) (es_tab s')"
proof -
  let ?lk = "\<lambda>t. lock_of (ops t)" and ?Th = "fst ` set H"
  have sec: "section_on (?lk t) (proj t H)" "Rel (?lk t) \<in> set (proj t H)" if "t \<in> ?Th" for t
    using assms(2) that y_run_section by blast+
  have run: "tab_run (es_tab s) (map snd H) = Some (es_tab s')"
    using served_history [OF assms(1) _ order_refl assms(3-5), of ?lk] sec assms(2) by blast
  obtain A where inv: "serial_inv ?Th ?lk (es_tab s) H L (es_tab s') (releases H) A"
    using serial_history [OF _ order_refl assms(3) run, of ?lk] sec assms(2) by blast
  note D = serial_invD [OF inv]
  have set: "set (releases H) = ?Th" using D(2) sec(2) by blast
  have "A = es_tab s'"
    by (rule ext) (rule D(7), use sec(2) in \<open>auto simp: active_def\<close>)
  then have "serially (es_tab s) (map (\<lambda>t. (ls t, ops t, xs t)) (releases H)) (es_tab s')"
    using serially_run [of "releases H" ls ops H xs "es_tab s" "es_tab s'"] D(3) set assms(2) by blast
  then show ?thesis using D(1) set by blast
qed


text \<open>Calls on a live inode.\<close>

lemma serve_live:
  assumes "es_good s" "es_tab s i = Some (t, d)"
  shows "\<exists>s'. serve junk s (E_Get i d) = Some s' \<and> es_good s' \<and> es_tab s' = es_tab s \<and> es_room s' = es_room s"
    "\<exists>a. serve junk s (E_Getattr i a) = Some s \<and> a_type a = t \<and> a_size a = of_nat (length d)"
    "\<exists>s'. serve junk s (E_Remove i) = Some s' \<and> es_good s' \<and> es_tab s' = (es_tab s)(i := None)"
    "length d' \<le> MAXFILE \<Longrightarrow> blocks_needed (length d') \<le> es_room s + blocks_needed (length d) \<Longrightarrow>
       \<exists>s'. serve junk s (E_Put i d') = Some s' \<and> es_good s' \<and> es_tab s' = (es_tab s)(i \<mapsto> (t, d'))"
proof -
  have ok: "id_ok i" using es.tab_ok [of s i] assms(2) by simp
  show "\<exists>s'. serve junk s (E_Get i d) = Some s' \<and> es_good s' \<and> es_tab s' = es_tab s \<and> es_room s' = es_room s"
    using es_get_law [OF assms(1) ok, of junk] assms(2) by fastforce
  show "\<exists>a. serve junk s (E_Getattr i a) = Some s \<and> a_type a = t \<and> a_size a = of_nat (length d)"
    using es_getattr_law [OF assms(1) ok, of junk] assms(2) by fastforce
  show "\<exists>s'. serve junk s (E_Remove i) = Some s' \<and> es_good s' \<and> es_tab s' = (es_tab s)(i := None)"
    using es_remove_law [OF assms, of junk] by fastforce
  show "length d' \<le> MAXFILE \<Longrightarrow> blocks_needed (length d') \<le> es_room s + blocks_needed (length d) \<Longrightarrow>
       \<exists>s'. serve junk s (E_Put i d') = Some s' \<and> es_good s' \<and> es_tab s' = (es_tab s)(i \<mapsto> (t, d'))"
    using es_put_law [OF assms, of d' junk] by fastforce
qed

lemma history_serialisable_witness:
  "\<exists>s s' i a. distinct (releases [(0 :: nat, Acq i), (1, Acq 1), (0, E_Get i []), (1, E_Getattr 1 a), (0, E_Put i ''x''), (1, Rel 1), (0, Rel i)])
     \<and> serially (es_tab s) [(some_locals, Op_Isdir 1, R_Bool True), (some_locals, Op_Write i 1 0 ''x'' 0, R_Count OK 1)] (es_tab s')
     \<and> es_tab s i = Some (T_FILE, [])"
proof -
  obtain y i where y: "y_ok y" "y_tab y i = Some (T_FILE, [])" "y_room y = 31734" using y_file by blast
  obtain d1 where d1: "y_tab y 1 = Some (T_DIR, d1)" using y_okD(2) [OF y(1)] by (auto simp: tree_ok_def)
  have ne: "i \<noteq> 1" using y(2) d1 by auto
  let ?j = "\<lambda>_. 7 :: byte"
  obtain s1 where s1: "serve ?j (y_es y) (E_Get i []) = Some s1" "es_good s1" "es_tab s1 = y_tab y" "es_room s1 = 31734"
    using serve_live(1) [OF y_okD(1) [OF y(1)] y(2), of ?j] y(3) by auto
  obtain a where a: "serve ?j s1 (E_Getattr 1 a) = Some s1" "a_type a = T_DIR" using serve_live(2) [OF s1(2), of 1 T_DIR d1 ?j] s1(3) d1 by auto
  have put: "length ''x'' \<le> MAXFILE" "blocks_needed (length ''x'') \<le> es_room s1 + blocks_needed (length [])"
    by (simp_all add: MAXFILE_def blocks_needed_def s1(4))
  obtain s2 where s2: "serve ?j s1 (E_Put i ''x'') = Some s2" "es_tab s2 = (es_tab s1)(i \<mapsto> (T_FILE, ''x''))"
    using serve_live(4) [OF s1(2), of i T_FILE "[]" "''x''" ?j] s1(3) y(2) put by auto
  let ?H = "[(0 :: nat, Acq i), (1, Acq 1), (0, E_Get i []), (1, E_Getattr 1 a), (0, E_Put i ''x''), (1, Rel 1), (0, Rel i)]"
  let ?ops = "\<lambda>t :: nat. if t = 0 then Op_Write i 1 0 ''x'' 0 else Op_Isdir 1" and ?xs = "\<lambda>t :: nat. if t = 0 then R_Count OK 1 else R_Bool True"
  have p: "performs (y_run some_locals script_env (?ops t)) (proj t ?H) (?xs t) \<and> y_tab y (lock_of (?ops t)) \<noteq> None"
    if "t \<in> fst ` set ?H" for t
    using that a(2) y(2) d1
    by (auto simp: performs_def proj_def result_def andthen_def ret_def isdir_def isdir'_def yfs_write_def write'_def locked_def
        script_env_def script_ops_def replace_at_def)
  have run: "serve_run ?j (y_es y) (map snd ?H) = Some s2" using s1(1) a(1) s2(1) by simp
  have room: "never_full ?j (y_es y) (map snd ?H)" using s1(1) a(1) s2(1) put s1(3) y(2) by (simp split: option.splits)
  have "\<exists>L. lock_run Map.empty ?H = Some L" using ne by simp
  then obtain L where L: "lock_run Map.empty ?H = Some L" ..
  have r: "releases ?H = [1, 0]" by (simp add: releases_def)
  have "\<forall>t \<in> fst ` set ?H. performs (y_run some_locals script_env (?ops t)) (proj t ?H) (?xs t) \<and> y_tab y (lock_of (?ops t)) \<noteq> None"
    using p by blast
  from history_serialisable [OF y_okD(1) [OF y(1)] this L run room]
  have "distinct (releases ?H)" "serially (y_tab y) [(some_locals, Op_Isdir 1, R_Bool True), (some_locals, Op_Write i 1 0 ''x'' 0, R_Count OK 1)] (es_tab s2)"
    unfolding r by simp_all
  then show ?thesis using y(2) by blast
qed

section \<open>Types of inodes\<close>

text \<open>A history that is still under way: each operation has performed a part of a script.\<close>

definition under_way :: "('p \<Rightarrow> locals) \<Rightarrow> ('p \<Rightarrow> y_op) \<Rightarrow> ('p \<times> event) list \<Rightarrow> bool" where
  "under_way ls ops H \<longleftrightarrow> (\<forall>t \<in> fst ` set H. \<exists>es x. performs (y_run (ls t) script_env (ops t)) (proj t H @ es) x)"

lemma section_on_prefix: "section_on p (es @ fs) \<Longrightarrow> section_on p es"
  by (induction fs rule: rev_induct) (auto simp: section_on_snoc simp flip: append_assoc)

lemma section_events:
  assumes "section_on p es" "e \<in> set es"
  shows "(\<forall>i. e \<noteq> E_Remove i) \<and> (\<forall>ty i. e = E_Create ty i \<longrightarrow> ty \<in> {T_DIR, T_FILE, T_SYMLINK})"
proof -
  obtain es1 es2 where "es = es1 @ e # es2" using assms(2) by (meson split_list)
  then have "may_follow p es1 e" using assms(1) by (auto simp: section_on_def)
  then show ?thesis by (auto simp: may_follow_def split: if_splits)
qed

lemma proj_mem: "(t, e) \<in> set H \<Longrightarrow> e \<in> set (proj t H)"
  by (force simp: proj_def)

lemma tab_step_types:
  assumes "tab_step e T = Some T'" "\<forall>i. e \<noteq> E_Remove i" "\<forall>ty i. e = E_Create ty i \<longrightarrow> ty \<in> {T_DIR, T_FILE, T_SYMLINK}"
  shows "T i = Some (t, d) \<Longrightarrow> \<exists>d'. T' i = Some (t, d')"
    "T' i = Some (t, d) \<Longrightarrow> (\<exists>d'. T i = Some (t, d')) \<or> t \<in> {T_DIR, T_FILE, T_SYMLINK}"
  using assms by (cases e; auto simp: tab_step_def split: if_splits option.splits)+

lemma tab_run_types:
  assumes "tab_run T es = Some T'" "\<forall>e \<in> set es. (\<forall>i. e \<noteq> E_Remove i) \<and> (\<forall>ty i. e = E_Create ty i \<longrightarrow> ty \<in> {T_DIR, T_FILE, T_SYMLINK})"
  shows "(T i = Some (t, d) \<longrightarrow> (\<exists>d'. T' i = Some (t, d'))) \<and>
    (T' i = Some (t, d) \<longrightarrow> (\<exists>d'. T i = Some (t, d')) \<or> t \<in> {T_DIR, T_FILE, T_SYMLINK})"
  using assms
proof (induction es arbitrary: T d)
  case (Cons e es)
  obtain T1 where T1: "tab_step e T = Some T1" "tab_run T1 es = Some T'" using Cons.prems(1) by (auto split: bind_splits)
  have e: "\<forall>i. e \<noteq> E_Remove i" "\<forall>ty i. e = E_Create ty i \<longrightarrow> ty \<in> {T_DIR, T_FILE, T_SYMLINK}" using Cons.prems(2) by simp_all
  note s = tab_step_types [OF T1(1) e, of i t]
  have IH: "(T1 i = Some (t, d) \<longrightarrow> (\<exists>d'. T' i = Some (t, d'))) \<and>
    (T' i = Some (t, d) \<longrightarrow> (\<exists>d'. T1 i = Some (t, d')) \<or> t \<in> {T_DIR, T_FILE, T_SYMLINK})" for d
    by (rule Cons.IH [OF T1(2)]) (use Cons.prems(2) in simp)
  show ?case using s IH by meson
qed auto



section \<open>The exception\<close>

lemma es_put_dead:
  assumes "es_good s" "id_ok i" "es_tab s i = None"
  shows "es_put junk i d s = Inl Null_Deref"
proof -
  have "get_inode junk (es_im s) (id_mask i) = None"
    using get_inode_dead [OF fs_invD(1), of "es_im s" "id_mask i" junk] id_ok_mask [OF assms(2)] assms
    by (simp add: files_None_iff es_good_def id_ok_def es_tab_def)
  then show ?thesis by (simp add: es_put_def write_file_def)
qed

lemma performs_unlink:
  assumes "a_type a = T_DIR" "names_ok (xs @ \<lparr>de_name = name, de_inum = i\<rparr> # ys)" "\<forall>e \<in> set xs. de_inum e \<noteq> i" "\<not> numeric name"
  shows "performs (unlink l script_env p name)
    [Acq p, E_Getattr p a, E_Get p (dir_text (xs @ \<lparr>de_name = name, de_inum = i\<rparr> # ys)), E_Remove i,
     E_Get p (dir_text (xs @ \<lparr>de_name = name, de_inum = i\<rparr> # ys)), E_Put p (dir_text (xs @ ys)), Rel p] OK"
proof -
  let ?es = "xs @ \<lparr>de_name = name, de_inum = i\<rparr> # ys"
  have f: "find (\<lambda>e. de_name e = name) ?es = Some \<lparr>de_name = name, de_inum = i\<rparr>"
    using assms(2) by (induction xs) (auto simp: names_ok_def)
  have "numeric (filename i)" using filename_digits by (auto simp: numeric_def)
  then have "name \<noteq> filename i" using assms(4) by auto
  then have er: "erase_entry (entry_text name i) (dir_text ?es) = Inr (dir_text (xs @ ys))"
    using assms(2-4) by (intro erase_dir_text) (auto simp: names_ok_def plain_def)
  have rd: "readdir_loop (l_finum l) (dir_text ?es) [] = Some ?es"
    using readdir_dir_text [of ?es "l_finum l" "[]"] assms(2) by (auto simp: names_ok_def plain_def)
  show ?thesis
    using f er rd assms(1)
    by (simp add: performs_def unlink_def unlink'_def lookup'_def isdir'_def readdir'_def andthen_def ret_def locked_def
        script_env_def script_ops_def del: dir_text_simps)
qed


text \<open>
  C21. \<^verbatim>\<open>unlink\<close> holds the lock of the directory but removes the inode of the file, whose lock it does not
  hold.  When a client has read a file in order to write to it, and another unlinks the file, all within
  their locks and without an error, the \<^verbatim>\<open>put\<close> with which the first client goes on dereferences a null
  pointer in the extent server.
\<close>

theorem unlink_write_race:
  assumes "es_good s" "entries (es_tab s) p (xs @ \<lparr>de_name = name, de_inum = i\<rparr> # ys)" "\<forall>e \<in> set xs. de_inum e \<noteq> i" "\<not> numeric name"
    and i: "es_tab s i = Some (t, d)" "i \<noteq> p"
  shows "\<exists>(H :: (nat \<times> event) list) L s'. lock_run Map.empty H = Some L \<and> serve_run junk s (map snd H) = Some s'
    \<and> performs (unlink l script_env p name) (proj 1 H) OK
    \<and> performs (yfs_write script_env i (length x) 0 x 0) (proj 0 H @ [E_Put i (replace_at d 0 (length x) x), Rel i]) (OK, length x)
    \<and> es_put junk i (replace_at d 0 (length x) x) s' = Inl Null_Deref"
proof -
  let ?es = "xs @ \<lparr>de_name = name, de_inum = i\<rparr> # ys"
  have p: "es_tab s p = Some (T_DIR, dir_text ?es)" "names_ok ?es" using entriesD [OF assms(2)] by blast+
  obtain s1 where s1: "serve junk s (E_Get i d) = Some s1" "es_good s1" "es_tab s1 = es_tab s"
    using serve_live(1) [OF assms(1) i(1)] by blast
  obtain a where a: "serve junk s1 (E_Getattr p a) = Some s1" "a_type a = T_DIR" using serve_live(2) [OF s1(2)] s1(3) p(1) by metis
  obtain s2 where s2: "serve junk s1 (E_Get p (dir_text ?es)) = Some s2" "es_good s2" "es_tab s2 = es_tab s"
    using serve_live(1) [OF s1(2)] s1(3) p(1) by metis
  obtain s3 where s3: "serve junk s2 (E_Remove i) = Some s3" "es_good s3" "es_tab s3 = (es_tab s)(i := None)"
    using serve_live(3) [OF s2(2)] s2(3) i(1) by metis
  have p3: "es_tab s3 p = Some (T_DIR, dir_text ?es)" using s3(3) p(1) i(2) by simp
  obtain s4 where s4: "serve junk s3 (E_Get p (dir_text ?es)) = Some s4" "es_good s4" "es_tab s4 = es_tab s3"
    using serve_live(1) [OF s3(2) p3] by blast
  have len: "length (dir_text (xs @ ys)) \<le> length (dir_text ?es)" by simp
  have p4: "es_tab s4 p = Some (T_DIR, dir_text ?es)" using p3 s4(3) by simp
  have "length (dir_text (xs @ ys)) \<le> MAXFILE" using es.size_law [OF s4(2) p4] len by linarith
  then obtain s5 where s5: "serve junk s4 (E_Put p (dir_text (xs @ ys))) = Some s5" "es_good s5"
    "es_tab s5 = (es_tab s4)(p \<mapsto> (T_DIR, dir_text (xs @ ys)))"
    using serve_live(4) [OF s4(2) p4, of "dir_text (xs @ ys)"] blocks_needed_mono [OF len] by (meson trans_le_add2)
  let ?H = "[(0 :: nat, Acq i), (0, E_Get i d), (1, Acq p), (1, E_Getattr p a), (1, E_Get p (dir_text ?es)), (1, E_Remove i),
    (1, E_Get p (dir_text ?es)), (1, E_Put p (dir_text (xs @ ys))), (1, Rel p)]"
  have "\<exists>L. lock_run Map.empty ?H = Some L" using i(2) by simp
  moreover have "serve_run junk s (map snd ?H) = Some s5"
    using s1(1) a(1) s2(1) s3(1) s4(1) s5(1) by (simp del: serve.simps(1-5) dir_text_simps)
  moreover have "performs (unlink l script_env p name) (proj 1 ?H) OK"
    using performs_unlink [OF a(2) p(2) assms(3,4), of l p] by (simp add: proj_def del: dir_text_simps)
  moreover have "performs (yfs_write script_env i (length x) 0 x 0) (proj 0 ?H @ [E_Put i (replace_at d 0 (length x) x), Rel i]) (OK, length x)"
    by (simp add: proj_def performs_def yfs_write_def write'_def locked_def andthen_def ret_def script_env_def script_ops_def)
  moreover have "es_put junk i (replace_at d 0 (length x) x) s5 = Inl Null_Deref"
    using i s5(3) s4(3) s3(3) es.tab_ok [of s i] by (intro es_put_dead [OF s5(2)]) simp_all
  ultimately show ?thesis by blast
qed

theorem unlink_write_race_witness:
  "\<exists>s i d (H :: (nat \<times> event) list) L s'. lock_run Map.empty H = Some L \<and> serve_run (\<lambda>_. 7) s (map snd H) = Some s'
    \<and> performs (unlink some_locals script_env 1 ''a'') (proj 1 H) OK
    \<and> performs (yfs_write script_env i 1 0 ''x'' 0) (proj 0 H @ [E_Put i (replace_at d 0 1 ''x''), Rel i]) (OK, 1)
    \<and> es_put (\<lambda>_. 7) i (replace_at d 0 1 ''x'') s' = Inl Null_Deref"
proof -
  obtain y i where y: "y_ok y" "entries (y_tab y) 1 [\<lparr>de_name = ''a'', de_inum = i\<rparr>]" using y_dir_file by blast
  have i: "y_tab y i \<noteq> None" "i \<noteq> 1"
    using tree_okD(3,4) [OF y_okD(2) [OF y(1)] y(2), of "\<lparr>de_name = ''a'', de_inum = i\<rparr>"] by simp_all
  then obtain t d where d: "y_tab y i = Some (t, d)" by auto
  have e: "entries (y_tab y) 1 ([] @ \<lparr>de_name = ''a'', de_inum = i\<rparr> # [])" using y(2) by simp
  have n: "\<not> numeric ''a''" by (simp add: numeric_def isdigit_def)
  show ?thesis
    using unlink_write_race [OF y_okD(1) [OF y(1)] e _ n d i(2), of "\<lambda>_. 7" some_locals "''x''"] by fastforce
qed


section \<open>Scripts and runs\<close>

text \<open>
  The scripts are those of the code: when an operation runs on the extent server, the calls it makes, with the
  results it gets, are a script that it performs with the same result.
\<close>

definition traced :: "(nat \<Rightarrow> byte) \<Rightarrow> (script, 'a) op \<Rightarrow> (ysys, 'a) op \<Rightarrow> bool" where
  "traced junk f g \<longleftrightarrow> (\<forall>s x s'. g s = Inr (x, s') \<longrightarrow> (\<exists>es. serve_run junk (y_es s) es = Some (y_es s') \<and>
     (\<forall>rest b. f \<lparr>todo = es @ rest, off_script = b\<rparr> = Inr (x, \<lparr>todo = rest, off_script = b\<rparr>))))"

named_theorems traced_intros \<open>scripts of an operation, from its parts\<close>

lemma traced_andthen [traced_intros]:
  assumes "traced junk f g" "\<And>x. traced junk (f' x) (g' x)"
  shows "traced junk (andthen f f') (andthen g g')"
  unfolding traced_def
proof (intro allI impI)
  fix s y s'' assume "andthen g g' s = Inr (y, s'')"
  then obtain x s' where g: "g s = Inr (x, s')" "g' x s' = Inr (y, s'')" by (auto simp: andthen_Inr_iff)
  obtain es where es: "serve_run junk (y_es s) es = Some (y_es s')"
    "\<And>rest b. f \<lparr>todo = es @ rest, off_script = b\<rparr> = Inr (x, \<lparr>todo = rest, off_script = b\<rparr>)"
    using assms(1) g(1) unfolding traced_def by metis
  obtain fs where fs: "serve_run junk (y_es s') fs = Some (y_es s'')"
    "\<And>rest b. f' x \<lparr>todo = fs @ rest, off_script = b\<rparr> = Inr (y, \<lparr>todo = rest, off_script = b\<rparr>)"
    using assms(2) [of x] g(2) unfolding traced_def by metis
  show "\<exists>es. serve_run junk (y_es s) es = Some (y_es s'') \<and>
      (\<forall>rest b. andthen f f' \<lparr>todo = es @ rest, off_script = b\<rparr> = Inr (y, \<lparr>todo = rest, off_script = b\<rparr>))"
    using es fs by (intro exI [of _ "es @ fs"]) (simp add: serve_run_append andthen_def)
qed

lemma traced_basic [traced_intros]:
  "traced junk (ret x) (ret x)" "traced junk (\<lambda>s. Inl e) (\<lambda>s. Inl e)"
  "traced junk (\<lambda>s. case y of None \<Rightarrow> Inl e | Some a \<Rightarrow> Inr (h a, s)) (\<lambda>s. case y of None \<Rightarrow> Inl e | Some a \<Rightarrow> Inr (h a, s))"
  by (auto simp: traced_def ret_def split: option.splits intro!: exI [of _ "[]"])

lemma traced_split [traced_intros]:
  "traced junk f g \<Longrightarrow> traced junk f' g' \<Longrightarrow> traced junk (if b then f else f') (if b then g else g')"
  "(\<And>a b. traced junk (h a b) (k a b)) \<Longrightarrow> traced junk (case p of (a, b) \<Rightarrow> h a b) (case p of (a, b) \<Rightarrow> k a b)"
  "traced junk f g \<Longrightarrow> (\<And>a. traced junk (f'' a) (g'' a)) \<Longrightarrow>
     traced junk (case y of None \<Rightarrow> f | Some a \<Rightarrow> f'' a) (case y of None \<Rightarrow> g | Some a \<Rightarrow> g'' a)"
  by (auto split: prod.splits option.splits)

lemma traced_rbind [traced_intros]:
  "(\<And>a. traced junk (f a) (g a)) \<Longrightarrow> traced junk (\<lambda>s. rbind r (\<lambda>a. f a s)) (\<lambda>s. rbind r (\<lambda>a. g a s))"
  by (cases r) (auto simp: traced_def)

lemma traced_call:
  assumes "\<And>s x s'. g s = Inr (x, s') \<Longrightarrow> \<exists>e. serve junk (y_es s) e = Some (y_es s') \<and>
      (\<forall>rest b. f \<lparr>todo = e # rest, off_script = b\<rparr> = Inr (x, \<lparr>todo = rest, off_script = b\<rparr>))"
  shows "traced junk f g"
  unfolding traced_def
proof (intro allI impI)
  fix s x s' assume "g s = Inr (x, s')"
  from assms [OF this] obtain e where "serve junk (y_es s) e = Some (y_es s')"
    "\<forall>rest b. f \<lparr>todo = e # rest, off_script = b\<rparr> = Inr (x, \<lparr>todo = rest, off_script = b\<rparr>)" by blast
  then show "\<exists>es. serve_run junk (y_es s) es = Some (y_es s') \<and>
      (\<forall>rest b. f \<lparr>todo = es @ rest, off_script = b\<rparr> = Inr (x, \<lparr>todo = rest, off_script = b\<rparr>))"
    by (intro exI [of _ "[e]"]) simp
qed

lemma traced_create [traced_intros]: "traced junk (ec_create (ec script_env) ty i) (ec_create (ec (yfs_env junk)) ty i)"
proof (rule traced_call, goal_cases)
  case (1 s x s')
  then obtain r k where e: "es_create junk ty (y_es s) = Inr ((r, k), y_es s')" "x = (r, k)"
    by (cases x) (auto simp: yfs_env_def on_es_def es_ops_def rbind_Inr_iff)
  with es_status(1) [OF e(1)] show ?case by (intro exI [of _ "E_Create ty k"]) (simp add: script_env_def script_ops_def)
qed

lemma traced_get [traced_intros]: "traced junk (ec_get (ec script_env) j b) (ec_get (ec (yfs_env junk)) j b)"
proof (rule traced_call, goal_cases)
  case (1 s x s')
  then obtain r d where e: "es_get junk j (y_es s) = Inr ((r, d), y_es s')" "x = (r, d)"
    by (cases x) (auto simp: yfs_env_def on_es_def es_ops_def rbind_Inr_iff)
  with es_status(2) [OF e(1)] show ?case by (intro exI [of _ "E_Get j d"]) (simp add: script_env_def script_ops_def)
qed

lemma traced_getattr [traced_intros]: "traced junk (ec_getattr (ec script_env) j a) (ec_getattr (ec (yfs_env junk)) j a)"
proof (rule traced_call, goal_cases)
  case (1 s x s')
  then obtain r a' where e: "es_getattr junk j (y_es s) = Inr ((r, a'), y_es s')" "x = (r, a')"
    by (cases x) (auto simp: yfs_env_def on_es_def es_ops_def rbind_Inr_iff)
  with es_status(3) [OF e(1)] show ?case by (intro exI [of _ "E_Getattr j a'"]) (simp add: script_env_def script_ops_def)
qed

lemma traced_put [traced_intros]: "traced junk (ec_put (ec script_env) j b) (ec_put (ec (yfs_env junk)) j b)"
proof (rule traced_call, goal_cases)
  case (1 s x s')
  then have "es_put junk j b (y_es s) = Inr (OK, y_es s')" "x = OK"
    by (auto simp: yfs_env_def on_es_def es_ops_def rbind_Inr_iff dest: es_status)
  then show ?case by (intro exI [of _ "E_Put j b"]) (simp add: script_env_def script_ops_def)
qed

lemma traced_remove [traced_intros]: "traced junk (ec_remove (ec script_env) j) (ec_remove (ec (yfs_env junk)) j)"
proof (rule traced_call, goal_cases)
  case (1 s x s')
  then have "es_remove junk j (y_es s) = Inr (OK, y_es s')" "x = OK"
    by (auto simp: yfs_env_def on_es_def es_ops_def rbind_Inr_iff dest: es_status)
  then show ?case by (intro exI [of _ "E_Remove j"]) (simp add: script_env_def script_ops_def)
qed

lemma traced_locked [traced_intros]:
  assumes "traced junk f g"
  shows "traced junk (locked script_env p f) (locked (yfs_env junk) p g)"
  unfolding traced_def
proof (intro allI impI)
  fix s x s' assume l: "locked (yfs_env junk) p g s = Inr (x, s')"
  have same: "y_es (lc_acquire (yfs_env junk) p s) = y_es s" "y_es (lc_release (yfs_env junk) p s) = y_es s" for s
    by (simp_all add: yfs_env_def)
  obtain s1 where g: "g (lc_acquire (yfs_env junk) p s) = Inr (x, s1)" "s' = lc_release (yfs_env junk) p s1"
    using l by (auto simp: locked_def rbind_Inr_iff)
  obtain es where es: "serve_run junk (y_es s) es = Some (y_es s')"
    "\<And>rest b. f \<lparr>todo = es @ rest, off_script = b\<rparr> = Inr (x, \<lparr>todo = rest, off_script = b\<rparr>)"
    using assms g unfolding traced_def by (metis same)
  show "\<exists>es. serve_run junk (y_es s) es = Some (y_es s') \<and>
      (\<forall>rest b. locked script_env p f \<lparr>todo = es @ rest, off_script = b\<rparr> = Inr (x, \<lparr>todo = rest, off_script = b\<rparr>))"
    using es by (intro exI [of _ "Acq p # es @ [Rel p]"]) (simp add: serve_run_append locked_def script_env_def)
qed

lemma traced_ops [traced_intros]:
  "traced junk (isfile' l script_env i) (isfile' l (yfs_env junk) i)"
  "traced junk (isdir' l script_env i) (isdir' l (yfs_env junk) i)"
  "traced junk (getfile' l script_env i fi) (getfile' l (yfs_env junk) i fi)"
  "traced junk (getdir' l script_env i di) (getdir' l (yfs_env junk) i di)"
  "traced junk (setattr' script_env i n) (setattr' (yfs_env junk) i n)"
  "traced junk (readdir' l script_env i es) (readdir' l (yfs_env junk) i es)"
  "traced junk (read' script_env i n off d) (read' (yfs_env junk) i n off d)"
  "traced junk (write' script_env i n off d w) (write' (yfs_env junk) i n off d w)"
  "traced junk (readlink' script_env i d) (readlink' (yfs_env junk) i d)"
  "traced junk (add_entry script_env i name j) (add_entry (yfs_env junk) i name j)"
  unfolding isfile'_def isdir'_def getfile'_def getdir'_def setattr'_def readdir'_def read'_def write'_def readlink'_def add_entry_def Let_def
  by (intro traced_intros)+

lemma traced_lookup [traced_intros]: "traced junk (lookup' l script_env i name j) (lookup' l (yfs_env junk) i name j)"
  unfolding lookup'_def by (intro traced_intros)

lemma traced_makers [traced_intros]:
  "traced junk (create' l script_env i name j) (create' l (yfs_env junk) i name j)"
  "traced junk (mkdir' l script_env i name j) (mkdir' l (yfs_env junk) i name j)"
  "traced junk (symlink' l script_env i name link j) (symlink' l (yfs_env junk) i name link j)"
  "traced junk (unlink' l script_env i name) (unlink' l (yfs_env junk) i name)"
  unfolding create'_def mkdir'_def symlink'_def unlink'_def Let_def by (intro traced_intros)+

lemma traced_y_run: "traced junk (y_run l script_env op) (y_run l (yfs_env junk) op)"
  by (cases op) (simp_all only: y_run.simps result_def isfile_def isdir_def getfile_def getdir_def setattr_def create_def mkdir_def
      lookup_def readdir_def read_def yfs_write_def symlink_def readlink_def, (intro traced_intros)+)

lemma run_performs:
  assumes "y_run l (yfs_env junk) op s = Inr (x, s')"
  shows "\<exists>es. performs (y_run l script_env op) es x \<and> serve_run junk (y_es s) es = Some (y_es s')"
proof -
  obtain es where es: "serve_run junk (y_es s) es = Some (y_es s')"
    "\<forall>rest b. y_run l script_env op \<lparr>todo = es @ rest, off_script = b\<rparr> = Inr (x, \<lparr>todo = rest, off_script = b\<rparr>)"
    using traced_y_run assms unfolding traced_def by blast
  from es(2) [rule_format, of "[]" False] es(1) show ?thesis unfolding performs_def by auto
qed


end
