(* ===== verification/Lock_Server.thy ===== *)
theory Lock_Server
  imports Rpc_Server "HOL-Library.List_Lexorder" "HOL-Library.Char_ord"
begin

text \<open>
  The lock servers.  \<^verbatim>\<open>lock_server_cache\<close> (\<^verbatim>\<open>src/lock_server_cache.cc\<close>) grants locks that its clients may
  cache and takes them back with \<^verbatim>\<open>revoke\<close> and \<^verbatim>\<open>retry\<close> calls; the process that serves it is
  \<^verbatim>\<open>src/lock_smain.cc\<close>.  \<^verbatim>\<open>lock_server\<close> (\<^verbatim>\<open>src/lock_server.cc\<close>) is the server of the previous lab, still in
  the tree.  Both keep a table of locks under one mutex; an operation here is the code between taking
  and giving up that mutex, and a call to a client that follows it is a result of the operation.
\<close>

abbreviation L_OK :: int where "L_OK \<equiv> 0"
abbreviation L_RETRY :: int where "L_RETRY \<equiv> 1"
abbreviation L_RPCERR :: int where "L_RPCERR \<equiv> 2"
abbreviation L_NOENT :: int where "L_NOENT \<equiv> 3"
abbreviation L_IOERR :: int where "L_IOERR \<equiv> 4"

abbreviation lock_acquire_num :: u32 where "lock_acquire_num \<equiv> 0x7001"
abbreviation lock_release_num :: u32 where "lock_release_num \<equiv> 0x7002"
abbreviation lock_stat_num :: u32 where "lock_stat_num \<equiv> 0x7003"
abbreviation rlock_revoke_num :: u32 where "rlock_revoke_num \<equiv> 0x8001"
abbreviation rlock_retry_num :: u32 where "rlock_retry_num \<equiv> 0x8002"

section \<open>The caching lock server\<close>

datatype sstate = FREE | LOCKED | REVOKING | RETRYING

text \<open>\<open>waiter\<close> lists a \<^verbatim>\<open>std::set<std::string>\<close> in its order.\<close>

record slock =
  holder :: string
  retryer :: string
  waiter :: "string list"
  sl_state :: sstate

definition slock_new :: slock where
  "slock_new = \<lparr>holder = [], retryer = [], waiter = [], sl_state = FREE\<rparr>"

text \<open>\<^verbatim>\<open>acquire\<close> on the lock: the status, and whether the holder has to be told.\<close>

definition acquire_lock :: "string \<Rightarrow> slock \<Rightarrow> ((int \<times> bool) \<times> slock) res" where
  "acquire_lock cid lock =
     (case sl_state lock of
        FREE \<Rightarrow>
          if waiter lock \<noteq> [] then Inl Verify_Failed
          else Inr ((L_OK, False), lock\<lparr>sl_state := LOCKED, holder := cid\<rparr>)
      | LOCKED \<Rightarrow>
          if waiter lock \<noteq> [] then Inl Verify_Failed
          else if holder lock = [] \<or> cid = [] \<or> holder lock = cid then Inl Verify_Failed
          else Inr ((L_RETRY, True), lock\<lparr>sl_state := REVOKING, waiter := insort_insert cid (waiter lock)\<rparr>)
      | REVOKING \<Rightarrow>
          if waiter lock = [] then Inl Verify_Failed
          else if holder lock = [] \<or> cid = [] \<or> holder lock = cid then Inl Verify_Failed
          else Inr ((L_RETRY, False), lock\<lparr>waiter := insort_insert cid (waiter lock)\<rparr>)
      | RETRYING \<Rightarrow>
          if retryer lock = cid then
            let lock = lock\<lparr>retryer := [], holder := cid\<rparr>
            in if waiter lock \<noteq> [] then Inr ((L_OK, True), lock\<lparr>sl_state := REVOKING\<rparr>)
               else Inr ((L_OK, False), lock\<lparr>sl_state := LOCKED\<rparr>)
          else Inr ((L_RETRY, False), lock\<lparr>waiter := insort_insert cid (waiter lock)\<rparr>))"

text \<open>\<^verbatim>\<open>release\<close>: the next client in line is to be told to retry; \<^verbatim>\<open>*begin()\<close> of an empty set is undefined.\<close>

definition release_lock :: "string \<Rightarrow> slock \<Rightarrow> slock res" where
  "release_lock cid lock =
     (if sl_state lock \<noteq> REVOKING then Inl Verify_Failed
      else if cid \<noteq> holder lock then Inl Verify_Failed
      else case waiter lock of
        [] \<Rightarrow> Inl Null_Deref
      | w # ws \<Rightarrow> Inr (lock\<lparr>sl_state := RETRYING, retryer := w, waiter := ws, holder := []\<rparr>))"

record lock_server_cache =
  nacquire :: int
  s_pool :: "u64 \<rightharpoonup> slock"

definition lock_server_cache_init :: lock_server_cache where
  "lock_server_cache_init = \<lparr>nacquire = 0, s_pool = Map.empty\<rparr>"

text \<open>\<^verbatim>\<open>lock_pool[lid]\<close>, which enters a new lock where there is none.\<close>

definition srv_lock :: "lock_server_cache \<Rightarrow> u64 \<Rightarrow> slock" where
  "srv_lock ls lid = (case s_pool ls lid of None \<Rightarrow> slock_new | Some l \<Rightarrow> l)"

text \<open>The two handlers up to the point where they give up the mutex.\<close>

definition acquire_section :: "u64 \<Rightarrow> string \<Rightarrow> (lock_server_cache, int \<times> bool) op" where
  "acquire_section lid cid ls =
     rbind (acquire_lock cid (srv_lock ls lid)) (\<lambda>(x, lock). Inr (x, ls\<lparr>s_pool := (s_pool ls)(lid \<mapsto> lock)\<rparr>))"

definition release_section :: "u64 \<Rightarrow> string \<Rightarrow> (lock_server_cache, int) op" where
  "release_section lid cid ls =
     (case s_pool ls lid of
        None \<Rightarrow> Inr (L_NOENT, ls)
      | Some lock \<Rightarrow> rbind (release_lock cid lock) (\<lambda>lock. Inr (L_OK, ls\<lparr>s_pool := (s_pool ls)(lid \<mapsto> lock)\<rparr>)))"

text \<open>
  The calls to clients.  \<open>call\<close> stands for \<^verbatim>\<open>call_client\<close>: a client, a procedure and a lock; what it does
  is up to the client and the transport.
\<close>

definition lsc_acquire :: "(string \<Rightarrow> u32 \<Rightarrow> u64 \<Rightarrow> int \<Rightarrow> (lock_server_cache, int \<times> int) op) \<Rightarrow> u64 \<Rightarrow> string \<Rightarrow> int \<Rightarrow>
    (lock_server_cache, int \<times> int) op" where
  "lsc_acquire call lid cid r0 =
     andthen (acquire_section lid cid) (\<lambda>(st, need_revoke).
     if need_revoke then andthen (\<lambda>ls. call (holder (srv_lock ls lid)) rlock_revoke_num lid 0 ls) (\<lambda>_. ret (st, r0))
     else ret (st, r0))"

definition lsc_release :: "(string \<Rightarrow> u32 \<Rightarrow> u64 \<Rightarrow> int \<Rightarrow> (lock_server_cache, int \<times> int) op) \<Rightarrow> u64 \<Rightarrow> string \<Rightarrow> int \<Rightarrow>
    (lock_server_cache, int \<times> int) op" where
  "lsc_release call lid cid r0 =
     andthen (release_section lid cid) (\<lambda>st.
     if st = L_NOENT then ret (L_NOENT, r0)
     else andthen (\<lambda>ls. call (retryer (srv_lock ls lid)) rlock_retry_num lid r0 ls) (\<lambda>(_, r). ret (L_OK, r)))"

definition lsc_stat :: "u64 \<Rightarrow> int \<Rightarrow> (lock_server_cache, int \<times> int) op" where
  "lsc_stat lid r0 ls = Inr ((L_OK, nacquire ls), ls)"

definition lock_smain :: "(string \<Rightarrow> u32 \<Rightarrow> u64 \<Rightarrow> int \<Rightarrow> (lock_server_cache, int \<times> int) op) \<Rightarrow> (nat \<Rightarrow> byte) \<Rightarrow> u32 \<Rightarrow> int \<Rightarrow> int \<Rightarrow>
    lock_server_cache rpcs res" where
  "lock_smain call junk nonce count r =
     rbind (rpcs_init junk nonce count r) (\<lambda>srv.
     rbind (reg1 lock_stat_num (handler1 get_ull (put_int junk) lsc_stat r) srv) (\<lambda>srv.
     rbind (reg1 lock_release_num (handler2 get_ull get_string (put_int junk) (lsc_release call) r) srv) (\<lambda>srv.
     reg1 lock_acquire_num (handler2 get_ull get_string (put_int junk) (lsc_acquire call) r) srv)))"

section \<open>The first lock server\<close>

datatype lstate = L_FREE | L_LOCKED

record lock_server =
  ls_nacquire :: int
  ls_pool :: "u64 \<rightharpoonup> lstate"

definition lock_server_init :: lock_server where
  "lock_server_init = \<lparr>ls_nacquire = 0, ls_pool = Map.empty\<rparr>"

definition ls_stat :: "int \<Rightarrow> u64 \<Rightarrow> lock_server \<Rightarrow> (int \<times> int) \<times> lock_server" where
  "ls_stat clt lid ls = ((L_OK, ls_nacquire ls), ls)"

text \<open>\<open>None\<close>: the call waits on the condition variable of the lock.\<close>

definition ls_acquire :: "int \<Rightarrow> u64 \<Rightarrow> lock_server \<Rightarrow> (int \<times> lock_server) option" where
  "ls_acquire clt lid ls =
     (case ls_pool ls lid of
        Some L_LOCKED \<Rightarrow> None
      | Some L_FREE \<Rightarrow> Some (L_OK, ls\<lparr>ls_pool := (ls_pool ls)(lid \<mapsto> L_LOCKED)\<rparr>)
      | None \<Rightarrow> Some (L_OK, ls\<lparr>ls_pool := (ls_pool ls)(lid \<mapsto> L_FREE)\<rparr>))"

definition ls_release :: "int \<Rightarrow> u64 \<Rightarrow> lock_server \<Rightarrow> int \<times> lock_server" where
  "ls_release clt lid ls =
     (case ls_pool ls lid of
        None \<Rightarrow> (L_NOENT, ls)
      | Some _ \<Rightarrow> (L_OK, ls\<lparr>ls_pool := (ls_pool ls)(lid \<mapsto> L_FREE)\<rparr>))"

section \<open>Properties\<close>

text \<open>The first lock server does not exclude: a lock that nobody has asked for before is entered
  into the table as free, so after its first \<^verbatim>\<open>acquire\<close> a second client gets it as well.\<close>

lemma first_acquire_not_exclusive:
  assumes "ls_pool ls lid = None"
  shows "\<exists>ls1 ls2. ls_acquire clt1 lid ls = Some (L_OK, ls1) \<and> ls_acquire clt2 lid ls1 = Some (L_OK, ls2)"
  using assms by (simp add: ls_acquire_def)

lemma first_acquire_not_exclusive_witness:
  "\<exists>ls1 ls2. ls_acquire 1 5 lock_server_init = Some (L_OK, ls1) \<and> ls_acquire 2 5 ls1 = Some (L_OK, ls2)"
  using first_acquire_not_exclusive [of lock_server_init 5 1 2] by (simp add: lock_server_init_def)

end
