(* ===== verification/Lock_Client.thy ===== *)
theory Lock_Client
  imports Lock_Server
begin

text \<open>
  The caching lock client (\<^verbatim>\<open>src/lock_client_cache.cc\<close>).  Its methods give up the mutex whenever they call
  the server or wait, so each is cut there: a definition below is the code from one such point to the
  next, on the record of one lock.  The queue holds the threads that have called \<^verbatim>\<open>acquire\<close>, named by
  their condition variables; the thread at its front is the one that acquires, holds or releases.  The
  stubs of \<^verbatim>\<open>src/lock_client.cc\<close> are at the end.
\<close>

datatype cstate = C_NONE | C_ACQUIRING | C_FREE | C_RELEASING | C_LOCKED

record clock =
  revoke_later :: bool
  retry_earlier :: bool
  cl_state :: cstate
  queue :: "nat list"

definition clock_new :: clock where
  "clock_new = \<lparr>revoke_later = False, retry_earlier = False, cl_state = C_NONE, queue = []\<rparr>"

text \<open>
  What a thread does next: return with a status, call the server, or wait on its condition variable at
  one of the three places where the code does.  The last outcome is a return without unlocking.
\<close>

datatype next_act = Return int | Call_Acquire | Call_Release | Wait_First | Wait_Behind | Wait_Retry | Return_Locked int

text \<open>The first lines of \<^verbatim>\<open>acquire_server\<close>.\<close>

definition acquire_server :: "clock \<Rightarrow> next_act \<times> clock" where
  "acquire_server lock = (Call_Acquire, lock\<lparr>cl_state := C_ACQUIRING\<rparr>)"

definition lcc_acquire :: "nat \<Rightarrow> clock \<Rightarrow> next_act \<times> clock" where
  "lcc_acquire t lock =
     (if queue lock = [] then
        let lock = lock\<lparr>queue := queue lock @ [t]\<rparr>
        in if cl_state lock = C_NONE then acquire_server lock
           else if cl_state lock = C_FREE then (Return L_OK, lock\<lparr>cl_state := C_LOCKED\<rparr>)
           else (Wait_First, lock)
      else (Wait_Behind, lock\<lparr>queue := queue lock @ [t]\<rparr>))"

text \<open>After \<^verbatim>\<open>waiter->wait(mutex)\<close> in the first and in the second half.\<close>

definition acquire_woken_first :: "clock \<Rightarrow> next_act \<times> clock" where
  "acquire_woken_first lock = acquire_server lock"

definition acquire_woken_behind :: "clock \<Rightarrow> next_act \<times> clock" where
  "acquire_woken_behind lock =
     (if cl_state lock = C_NONE then acquire_server lock
      else if cl_state lock = C_FREE then (Return L_OK, lock\<lparr>cl_state := C_LOCKED\<rparr>)
      else if cl_state lock = C_LOCKED then (Return L_OK, lock)
      else (Return_Locked 0, lock))"

text \<open>The head of the loop of \<^verbatim>\<open>acquire_server\<close>.\<close>

definition acquire_again :: "clock \<Rightarrow> next_act \<times> clock" where
  "acquire_again lock = (if cl_state lock = C_ACQUIRING then (Call_Acquire, lock) else (Return_Locked 0, lock))"

definition acquire_reply :: "int \<Rightarrow> clock \<Rightarrow> next_act \<times> clock" where
  "acquire_reply st lock =
     (if st = L_OK then (Return L_OK, lock\<lparr>cl_state := C_LOCKED\<rparr>)
      else if st = L_RETRY then
        if \<not> retry_earlier lock then (Wait_Retry, lock)
        else acquire_again (lock\<lparr>retry_earlier := False\<rparr>)
      else acquire_again lock)"

definition acquire_woken_retry :: "clock \<Rightarrow> next_act \<times> clock" where
  "acquire_woken_retry lock = acquire_again (lock\<lparr>retry_earlier := False\<rparr>)"

text \<open>
  The second half of \<^verbatim>\<open>release\<close>: the thread that is signalled, if any.  \<^verbatim>\<open>front()\<close> of an empty queue is
  undefined.
\<close>

definition release_end :: "clock \<Rightarrow> (nat option \<times> clock) res" where
  "release_end lock =
     (case queue lock of
        [] \<Rightarrow> Inl Null_Deref
      | t # ts \<Rightarrow>
          let lock = lock\<lparr>queue := ts\<rparr>;
              lock = (if ts \<noteq> [] \<and> \<not> revoke_later lock then lock\<lparr>cl_state := C_LOCKED\<rparr> else lock)
          in Inr (case ts of [] \<Rightarrow> None | u # us \<Rightarrow> Some u, lock\<lparr>revoke_later := False\<rparr>))"

definition lcc_release :: "clock \<Rightarrow> (next_act \<times> nat option \<times> clock) res" where
  "lcc_release lock =
     (if revoke_later lock then Inr (Call_Release, None, lock\<lparr>cl_state := C_RELEASING\<rparr>)
      else rbind (release_end (lock\<lparr>cl_state := C_FREE\<rparr>)) (\<lambda>(sig, lock). Inr (Return 0, sig, lock)))"

definition release_reply :: "clock \<Rightarrow> (nat option \<times> clock) res" where
  "release_reply lock = release_end (lock\<lparr>cl_state := C_NONE\<rparr>)"

definition revoke_handler :: "clock \<Rightarrow> bool \<times> clock" where
  "revoke_handler lock =
     (if cl_state lock = C_FREE then (True, lock\<lparr>cl_state := C_RELEASING\<rparr>) else (False, lock\<lparr>revoke_later := True\<rparr>))"

definition revoke_reply :: "clock \<Rightarrow> nat option \<times> clock" where
  "revoke_reply lock = (case queue lock of [] \<Rightarrow> None | t # ts \<Rightarrow> Some t, lock\<lparr>cl_state := C_NONE\<rparr>)"

definition retry_handler :: "clock \<Rightarrow> (nat \<times> clock) res" where
  "retry_handler lock =
     (case queue lock of [] \<Rightarrow> Inl Null_Deref | t # ts \<Rightarrow> Inr (t, lock\<lparr>retry_earlier := True\<rparr>))"

section \<open>The plain lock client\<close>

text \<open>\<open>clt\<close> is the client's nonce; the status is checked and the integer result returned.\<close>

definition lock_client_call :: "'s transport \<Rightarrow> (nat \<Rightarrow> byte) \<Rightarrow> u32 \<Rightarrow> int \<Rightarrow> u32 \<Rightarrow> u64 \<Rightarrow> ('s, int) op" where
  "lock_client_call cl junk clt r proc lid =
     andthen (rpc_call2 cl junk (put_uint junk) (put_ull junk) get_int proc clt lid r 120000) (\<lambda>(st, r).
     if st \<noteq> L_OK then (\<lambda>s. Inl Verify_Failed) else ret r)"

definition lc_stat :: "'s transport \<Rightarrow> (nat \<Rightarrow> byte) \<Rightarrow> u32 \<Rightarrow> int \<Rightarrow> u64 \<Rightarrow> ('s, int) op" where
  "lc_stat cl junk clt r = lock_client_call cl junk clt r lock_stat_num"

definition lc_acquire_plain :: "'s transport \<Rightarrow> (nat \<Rightarrow> byte) \<Rightarrow> u32 \<Rightarrow> int \<Rightarrow> u64 \<Rightarrow> ('s, int) op" where
  "lc_acquire_plain cl junk clt r = lock_client_call cl junk clt r lock_acquire_num"

definition lc_release_plain :: "'s transport \<Rightarrow> (nat \<Rightarrow> byte) \<Rightarrow> u32 \<Rightarrow> int \<Rightarrow> u64 \<Rightarrow> ('s, int) op" where
  "lc_release_plain cl junk clt r = lock_client_call cl junk clt r lock_release_num"

section \<open>Properties\<close>

text \<open>A condition variable may wake a thread that nobody signalled.  \<^verbatim>\<open>acquire\<close> does not test for
  that: a thread waiting behind another that is woken while the lock is being fetched or given back
  returns \<^verbatim>\<open>OK\<close> without the lock, and with the mutex of the client still locked.\<close>

lemma spurious_wakeup_grants:
  assumes "cl_state lock = C_ACQUIRING \<or> cl_state lock = C_RELEASING"
  shows "acquire_woken_behind lock = (Return_Locked L_OK, lock)"
  using assms by (auto simp: acquire_woken_behind_def)

lemma spurious_wakeup_grants_witness:
  "acquire_woken_behind (snd (lcc_acquire 2 (snd (lcc_acquire 1 clock_new)))) =
     (Return_Locked L_OK, \<lparr>revoke_later = False, retry_earlier = False, cl_state = C_ACQUIRING, queue = [1, 2]\<rparr>)"
  using spurious_wakeup_grants [of "snd (lcc_acquire 2 (snd (lcc_acquire 1 clock_new)))"]
  by (simp add: lcc_acquire_def clock_new_def acquire_server_def)

end
