(* ===== verification/Lock_Protocol.thy ===== *)
theory Lock_Protocol
  imports Lock_Client
begin

text \<open>
  The lock protocol: the server and any number of caching clients with any number of threads each, on
  one lock (the code treats locks independently of each other).  A step is one critical section of the
  server or of a client, or the delivery of a call or of its reply; calls are delivered once, in any
  order and after any delay, as the RPC library provides.  Condition variables wake a thread only when
  it is signalled.  The server reads the client it has to call after it has given up its mutex, which is
  a step of its own.
\<close>

section \<open>State\<close>

text \<open>
  Where a thread of a client is: outside, waiting at one of the three places (signalled or not), with
  an acquire call or its reply under way, holding the lock, or with a release call or its reply under
  way.
\<close>

datatype tpc = Idle | W_First bool | W_Behind bool | Acq_Req | Acq_Rep int | W_Retry bool | Held | Rel_Req | Rel_Rep

text \<open>Where the revoke handler of a client is.\<close>

datatype hpc = H_Idle | H_Rel_Req | H_Rel_Rep

record lclient =
  lk :: clock
  pcs :: "nat \<Rightarrow> tpc"
  hp :: hpc

text \<open>
  \<open>pend_rv\<close> and \<open>pend_rt\<close> count the server threads about to send a revoke or a retry, \<open>revs\<close> and \<open>rets\<close> the
  revokes and retries under way to a client.
\<close>

record lsys =
  l_srv :: slock
  l_cl :: "string \<Rightarrow> lclient"
  pend_rv :: nat
  pend_rt :: nat
  revs :: "string \<Rightarrow> nat"
  rets :: "string \<Rightarrow> nat"

definition lsys_init :: lsys where
  "lsys_init = \<lparr>l_srv = slock_new, l_cl = (\<lambda>_. \<lparr>lk = clock_new, pcs = (\<lambda>_. Idle), hp = H_Idle\<rparr>),
     pend_rv = 0, pend_rt = 0, revs = (\<lambda>_. 0), rets = (\<lambda>_. 0)\<rparr>"

fun pc_of :: "next_act \<Rightarrow> tpc" where
  "pc_of (Return _) = Held"
| "pc_of Call_Acquire = Acq_Req"
| "pc_of Call_Release = Rel_Req"
| "pc_of Wait_First = W_First False"
| "pc_of Wait_Behind = W_Behind False"
| "pc_of Wait_Retry = W_Retry False"
| "pc_of (Return_Locked _) = Held"

fun wake :: "tpc \<Rightarrow> tpc" where
  "wake (W_First b) = W_First True"
| "wake (W_Behind b) = W_Behind True"
| "wake (W_Retry b) = W_Retry True"
| "wake p = p"

definition signal :: "nat option \<Rightarrow> (nat \<Rightarrow> tpc) \<Rightarrow> nat \<Rightarrow> tpc" where
  "signal sig p = (case sig of None \<Rightarrow> p | Some t \<Rightarrow> p(t := wake (p t)))"

section \<open>Steps of a client\<close>

text \<open>A client with a new record and program counter of thread \<open>t\<close>.\<close>

definition act :: "nat \<Rightarrow> next_act \<times> clock \<Rightarrow> lclient \<Rightarrow> lclient" where
  "act t x c = c\<lparr>lk := snd x, pcs := (pcs c)(t := pc_of (fst x))\<rparr>"

text \<open>Steps that neither send nor receive a call of the server.\<close>

inductive cl_step :: "lclient \<Rightarrow> lclient \<Rightarrow> bool" where
  enter: "pcs c t = Idle \<Longrightarrow> cl_step c (act t (lcc_acquire t (lk c)) c)"
| woken_first: "pcs c t = W_First True \<Longrightarrow> cl_step c (act t (acquire_woken_first (lk c)) c)"
| woken_behind: "pcs c t = W_Behind True \<Longrightarrow> cl_step c (act t (acquire_woken_behind (lk c)) c)"
| woken_retry: "pcs c t = W_Retry True \<Longrightarrow> cl_step c (act t (acquire_woken_retry (lk c)) c)"
| reply: "pcs c t = Acq_Rep st \<Longrightarrow> cl_step c (act t (acquire_reply st (lk c)) c)"
| give_back: "pcs c t = Held \<Longrightarrow> lcc_release (lk c) = Inr (Call_Release, sig, l) \<Longrightarrow>
    cl_step c (c\<lparr>lk := l, pcs := signal sig ((pcs c)(t := Rel_Req))\<rparr>)"
| give_up: "pcs c t = Held \<Longrightarrow> lcc_release (lk c) = Inr (Return r, sig, l) \<Longrightarrow>
    cl_step c (c\<lparr>lk := l, pcs := signal sig ((pcs c)(t := Idle))\<rparr>)"
| given_back: "pcs c t = Rel_Rep \<Longrightarrow> release_reply (lk c) = Inr (sig, l) \<Longrightarrow>
    cl_step c (c\<lparr>lk := l, pcs := signal sig ((pcs c)(t := Idle))\<rparr>)"
| revoked: "hp c = H_Rel_Rep \<Longrightarrow> revoke_reply (lk c) = (sig, l) \<Longrightarrow>
    cl_step c (c\<lparr>lk := l, pcs := signal sig (pcs c), hp := H_Idle\<rparr>)"

section \<open>Steps of the system\<close>

inductive lock_step :: "lsys \<Rightarrow> lsys \<Rightarrow> bool" where
  client: "i \<noteq> [] \<Longrightarrow> cl_step (l_cl S i) c \<Longrightarrow> lock_step S (S\<lparr>l_cl := (l_cl S)(i := c)\<rparr>)"
| acquire: "pcs (l_cl S i) t = Acq_Req \<Longrightarrow> acquire_lock i (l_srv S) = Inr ((st, need), l) \<Longrightarrow>
    lock_step S (S\<lparr>l_srv := l, l_cl := (l_cl S)(i := (l_cl S i)\<lparr>pcs := (pcs (l_cl S i))(t := Acq_Rep st)\<rparr>),
      pend_rv := pend_rv S + of_bool need\<rparr>)"
| send_revoke: "pend_rv S = Suc n \<Longrightarrow>
    lock_step S (S\<lparr>pend_rv := n, revs := (revs S)(holder (l_srv S) := Suc (revs S (holder (l_srv S))))\<rparr>)"
| revoke: "revs S i = Suc n \<Longrightarrow> revoke_handler (lk (l_cl S i)) = (rel, l) \<Longrightarrow>
    lock_step S (S\<lparr>l_cl := (l_cl S)(i := (l_cl S i)\<lparr>lk := l, hp := (if rel then H_Rel_Req else hp (l_cl S i))\<rparr>),
      revs := (revs S)(i := n)\<rparr>)"
| release: "pcs (l_cl S i) t = Rel_Req \<Longrightarrow> release_lock i (l_srv S) = Inr l \<Longrightarrow>
    lock_step S (S\<lparr>l_srv := l, l_cl := (l_cl S)(i := (l_cl S i)\<lparr>pcs := (pcs (l_cl S i))(t := Rel_Rep)\<rparr>), pend_rt := Suc (pend_rt S)\<rparr>)"
| release_h: "hp (l_cl S i) = H_Rel_Req \<Longrightarrow> release_lock i (l_srv S) = Inr l \<Longrightarrow>
    lock_step S (S\<lparr>l_srv := l, l_cl := (l_cl S)(i := (l_cl S i)\<lparr>hp := H_Rel_Rep\<rparr>), pend_rt := Suc (pend_rt S)\<rparr>)"
| send_retry: "pend_rt S = Suc n \<Longrightarrow>
    lock_step S (S\<lparr>pend_rt := n, rets := (rets S)(retryer (l_srv S) := Suc (rets S (retryer (l_srv S))))\<rparr>)"
| retry: "rets S i = Suc n \<Longrightarrow> retry_handler (lk (l_cl S i)) = Inr (t, l) \<Longrightarrow>
    lock_step S (S\<lparr>l_cl := (l_cl S)(i := (l_cl S i)\<lparr>lk := l, pcs := (pcs (l_cl S i))(t := wake (pcs (l_cl S i) t))\<rparr>),
      rets := (rets S)(i := n)\<rparr>)"

section \<open>The invariant of a client\<close>

text \<open>
  The threads of the queue are the only ones that are not outside; all but the first wait behind it,
  unsignalled; the state of the lock says what the first one and the revoke handler are doing.
\<close>

definition front_pc :: "lclient \<Rightarrow> tpc" where
  "front_pc c = (case queue (lk c) of [] \<Rightarrow> Idle | t # _ \<Rightarrow> pcs c t)"

definition cl_inv :: "lclient \<Rightarrow> bool" where
  "cl_inv c \<longleftrightarrow> distinct (queue (lk c)) \<and> (\<forall>t. t \<notin> set (queue (lk c)) \<longrightarrow> pcs c t = Idle) \<and>
     (\<forall>t \<in> set (tl (queue (lk c))). pcs c t = W_Behind False) \<and>
     (hp c \<noteq> H_Idle \<longrightarrow> cl_state (lk c) = C_RELEASING \<and> \<not> revoke_later (lk c)) \<and>
     (retry_earlier (lk c) \<longrightarrow> front_pc c \<in> {Acq_Rep L_RETRY, W_Retry True}) \<and>
     (front_pc c = W_Retry True \<longrightarrow> retry_earlier (lk c)) \<and>
     (case cl_state (lk c) of
        C_NONE \<Rightarrow> \<not> revoke_later (lk c) \<and> (queue (lk c) = [] \<or> front_pc c \<in> {W_First True, W_Behind True})
      | C_ACQUIRING \<Rightarrow> front_pc c \<in> {Acq_Req, Acq_Rep L_OK, Acq_Rep L_RETRY, W_Retry False, W_Retry True}
      | C_FREE \<Rightarrow> \<not> revoke_later (lk c) \<and> queue (lk c) = []
      | C_LOCKED \<Rightarrow> front_pc c \<in> {Held, W_Behind True}
      | C_RELEASING \<Rightarrow> hp c = H_Idle \<and> revoke_later (lk c) \<and> front_pc c \<in> {Rel_Req, Rel_Rep} \<or>
          hp c \<noteq> H_Idle \<and> (queue (lk c) = [] \<or> front_pc c = W_First False))"

text \<open>
  What the rest of the system sees of a client: it has the lock (or the grant is under way to it), it is
  giving it back, it has asked, it has been put off, it has been told to retry, or none of these.
\<close>

datatype phase = Quiet | Req | Own | Give | Wait | Back

definition phase :: "lclient \<Rightarrow> phase" where
  "phase c =
     (if front_pc c = Rel_Req \<or> hp c = H_Rel_Req then Give
      else if cl_state (lk c) \<in> {C_FREE, C_LOCKED} \<or> front_pc c = Acq_Rep L_OK then Own
      else if front_pc c = Acq_Req then Req
      else if front_pc c \<in> {Acq_Rep L_RETRY, W_Retry False, W_Retry True} then if retry_earlier (lk c) then Back else Wait
      else Quiet)"

text \<open>The client has been told to give the lock back, and has not begun to.\<close>

definition told :: "lclient \<Rightarrow> bool" where
  "told c \<longleftrightarrow> revoke_later (lk c) \<and> cl_state (lk c) \<noteq> C_RELEASING"

lemma cl_inv_front:
  assumes "cl_inv c" "pcs c t \<notin> {Idle, W_Behind False}"
  shows "\<exists>ts. queue (lk c) = t # ts" "front_pc c = pcs c t"
proof -
  have "t \<in> set (queue (lk c))" "t \<notin> set (tl (queue (lk c)))" using assms by (auto simp: cl_inv_def)
  then show "\<exists>ts. queue (lk c) = t # ts" "front_pc c = pcs c t"
    by (cases "queue (lk c)"; auto simp: front_pc_def)+
qed

lemma queue_not_idle:
  assumes "cl_inv c" "t \<in> set (queue (lk c))"
  shows "pcs c t \<noteq> Idle"
proof (cases "queue (lk c)")
  case (Cons u us)
  then have "front_pc c \<noteq> Idle" using assms(1) by (cases "cl_state (lk c)") (auto simp: cl_inv_def)
  then show ?thesis using assms Cons by (auto simp: cl_inv_def front_pc_def)
qed (use assms(2) in simp)

lemma enter_local:
  assumes "cl_inv c" "pcs c t = Idle"
  shows "cl_inv (act t (lcc_acquire t (lk c)) c) \<and> (phase (act t (lcc_acquire t (lk c)) c) = phase c \<or>
    phase c = Quiet \<and> phase (act t (lcc_acquire t (lk c)) c) = Req) \<and> told (act t (lcc_acquire t (lk c)) c) = told c"
proof (cases "queue (lk c)")
  case Nil
  then show ?thesis using assms
    by (cases "cl_state (lk c)") (auto simp: cl_inv_def front_pc_def lcc_acquire_def acquire_server_def act_def phase_def told_def split: if_splits)
next
  case (Cons u us)
  have "t \<notin> set (queue (lk c))" using queue_not_idle [OF assms(1)] assms(2) by blast
  then show ?thesis using assms Cons
    by (cases "cl_state (lk c)") (auto simp: cl_inv_def front_pc_def lcc_acquire_def act_def phase_def told_def)
qed

text \<open>The place of the front thread determines the state of the lock.\<close>

lemma front_state:
  assumes "cl_inv c"
  shows "front_pc c = W_First True \<Longrightarrow> cl_state (lk c) = C_NONE" "front_pc c = W_Behind True \<Longrightarrow> cl_state (lk c) \<in> {C_NONE, C_LOCKED}"
    "front_pc c = W_Retry b \<Longrightarrow> cl_state (lk c) = C_ACQUIRING" "front_pc c = Acq_Req \<Longrightarrow> cl_state (lk c) = C_ACQUIRING"
    "front_pc c = Acq_Rep st \<Longrightarrow> cl_state (lk c) = C_ACQUIRING \<and> st \<in> {L_OK, L_RETRY}" "front_pc c = Held \<Longrightarrow> cl_state (lk c) = C_LOCKED"
    "front_pc c \<in> {Rel_Req, Rel_Rep} \<Longrightarrow> cl_state (lk c) = C_RELEASING \<and> hp c = H_Idle"
  using assms by (cases "cl_state (lk c)"; auto simp: cl_inv_def front_pc_def split: list.splits)+

text \<open>A client whose front thread moves from one place to another.\<close>

lemma front_moved:
  assumes "cl_inv c" "queue (lk c) = t # ts" "queue l = t # ts" "hp c = H_Idle"
    "retry_earlier l \<longrightarrow> p \<in> {Acq_Rep L_RETRY, W_Retry True}" "p = W_Retry True \<longrightarrow> retry_earlier l"
    "cl_state l = C_ACQUIRING \<and> p \<in> {Acq_Req, Acq_Rep L_OK, Acq_Rep L_RETRY, W_Retry False, W_Retry True} \<or>
     cl_state l = C_LOCKED \<and> p \<in> {Held, W_Behind True} \<or> cl_state l = C_RELEASING \<and> revoke_later l \<and> p \<in> {Rel_Req, Rel_Rep}"
  shows "cl_inv (c\<lparr>lk := l, pcs := (pcs c)(t := p)\<rparr>)" "front_pc (c\<lparr>lk := l, pcs := (pcs c)(t := p)\<rparr>) = p"
proof -
  show f: "front_pc (c\<lparr>lk := l, pcs := (pcs c)(t := p)\<rparr>) = p" using assms(3) by (simp add: front_pc_def)
  have "t \<notin> set ts" "distinct ts" "\<forall>u \<in> set ts. pcs c u = W_Behind False" "\<forall>u. u \<notin> set (t # ts) \<longrightarrow> pcs c u = Idle"
    using assms(1,2) by (auto simp: cl_inv_def)
  then show "cl_inv (c\<lparr>lk := l, pcs := (pcs c)(t := p)\<rparr>)"
    unfolding cl_inv_def f using assms(3-7) by (elim disjE) auto
qed

text \<open>How a step of a client looks from outside.\<close>

definition local_ok :: "lclient \<Rightarrow> lclient \<Rightarrow> bool" where
  "local_ok c c' \<longleftrightarrow> cl_inv c' \<and>
     (phase c' = phase c \<and> told c' = told c \<or> phase c \<in> {Quiet, Back} \<and> phase c' = Req \<and> told c' = told c \<or>
      phase c = Own \<and> told c \<and> phase c' = Give \<and> \<not> told c')"

lemma hp_idle:
  "cl_inv c \<Longrightarrow> cl_state (lk c) \<noteq> C_RELEASING \<Longrightarrow> hp c = H_Idle"
  by (auto simp: cl_inv_def)

lemma woken_first_local:
  assumes "cl_inv c" "pcs c t = W_First True"
  shows "local_ok c (act t (acquire_woken_first (lk c)) c)"
proof -
  obtain ts where q: "queue (lk c) = t # ts" "front_pc c = W_First True" using cl_inv_front [OF assms(1), of t] assms(2) by auto
  have s: "cl_state (lk c) = C_NONE" using front_state(1) [OF assms(1) q(2)] .
  have "\<not> retry_earlier (lk c)" using assms(1) q(2) by (auto simp: cl_inv_def)
  then have "cl_inv (c\<lparr>lk := (lk c)\<lparr>cl_state := C_ACQUIRING\<rparr>, pcs := (pcs c)(t := Acq_Req)\<rparr>)"
    using q hp_idle [OF assms(1)] s by (intro front_moved(1) [OF assms(1) q(1)]) auto
  then show ?thesis using q s hp_idle [OF assms(1)]
    by (simp add: local_ok_def act_def acquire_woken_first_def acquire_server_def phase_def told_def) (simp add: front_pc_def)
qed

lemma woken_behind_local:
  assumes "cl_inv c" "pcs c t = W_Behind True"
  shows "local_ok c (act t (acquire_woken_behind (lk c)) c)"
proof -
  obtain ts where q: "queue (lk c) = t # ts" "front_pc c = W_Behind True" using cl_inv_front [OF assms(1), of t] assms(2) by auto
  have r: "\<not> retry_earlier (lk c)" using assms(1) q(2) by (auto simp: cl_inv_def)
  from front_state(2) [OF assms(1) q(2)] consider "cl_state (lk c) = C_NONE" | "cl_state (lk c) = C_LOCKED" by blast
  then show ?thesis
  proof cases
    case 1
    then have "cl_inv (c\<lparr>lk := (lk c)\<lparr>cl_state := C_ACQUIRING\<rparr>, pcs := (pcs c)(t := Acq_Req)\<rparr>)"
      using q r hp_idle [OF assms(1)] by (intro front_moved(1) [OF assms(1) q(1)]) auto
    then show ?thesis using q 1 hp_idle [OF assms(1)]
      by (simp add: local_ok_def act_def acquire_woken_behind_def acquire_server_def phase_def told_def) (simp add: front_pc_def)
  next
    case 2
    then have "cl_inv (c\<lparr>lk := lk c, pcs := (pcs c)(t := Held)\<rparr>)"
      using q r hp_idle [OF assms(1)] by (intro front_moved(1) [OF assms(1) q(1)]) auto
    then show ?thesis using q 2 hp_idle [OF assms(1)]
      by (simp add: local_ok_def act_def acquire_woken_behind_def phase_def told_def) (simp add: front_pc_def)
  qed
qed

lemma woken_retry_local:
  assumes "cl_inv c" "pcs c t = W_Retry True"
  shows "local_ok c (act t (acquire_woken_retry (lk c)) c)"
proof -
  obtain ts where q: "queue (lk c) = t # ts" "front_pc c = W_Retry True" using cl_inv_front [OF assms(1), of t] assms(2) by auto
  have s: "cl_state (lk c) = C_ACQUIRING" using front_state(3) [OF assms(1) q(2)] .
  have r: "retry_earlier (lk c)" using assms(1) q(2) by (auto simp: cl_inv_def)
  have "cl_inv (c\<lparr>lk := (lk c)\<lparr>retry_earlier := False\<rparr>, pcs := (pcs c)(t := Acq_Req)\<rparr>)"
    using q s hp_idle [OF assms(1)] by (intro front_moved(1) [OF assms(1) q(1)]) auto
  then show ?thesis using q s r hp_idle [OF assms(1)]
    by (simp add: local_ok_def act_def acquire_woken_retry_def acquire_again_def phase_def told_def) (simp add: front_pc_def)
qed

lemma reply_local:
  assumes "cl_inv c" "pcs c t = Acq_Rep st"
  shows "local_ok c (act t (acquire_reply st (lk c)) c)"
proof -
  obtain ts where q: "queue (lk c) = t # ts" "front_pc c = Acq_Rep st" using cl_inv_front [OF assms(1), of t] assms(2) by auto
  have s: "cl_state (lk c) = C_ACQUIRING" "hp c = H_Idle" using front_state(5) [OF assms(1) q(2)] hp_idle [OF assms(1)] by auto
  from front_state(5) [OF assms(1) q(2)] consider "st = L_OK" | "st = L_RETRY" "\<not> retry_earlier (lk c)" | "st = L_RETRY" "retry_earlier (lk c)" by blast
  then show ?thesis
  proof cases
    case 1
    then have "\<not> retry_earlier (lk c)" using assms(1) q(2) by (auto simp: cl_inv_def)
    then have "cl_inv (c\<lparr>lk := (lk c)\<lparr>cl_state := C_LOCKED\<rparr>, pcs := (pcs c)(t := Held)\<rparr>)"
      using q s by (intro front_moved(1) [OF assms(1) q(1)]) auto
    then show ?thesis using q s 1
      by (simp add: local_ok_def act_def acquire_reply_def phase_def told_def) (simp add: front_pc_def)
  next
    case 2
    then have "cl_inv (c\<lparr>lk := lk c, pcs := (pcs c)(t := W_Retry False)\<rparr>)"
      using q s by (intro front_moved(1) [OF assms(1) q(1)]) auto
    then show ?thesis using q s 2
      by (simp add: local_ok_def act_def acquire_reply_def phase_def told_def) (simp add: front_pc_def)
  next
    case 3
    have "cl_inv (c\<lparr>lk := (lk c)\<lparr>retry_earlier := False\<rparr>, pcs := (pcs c)(t := Acq_Req)\<rparr>)"
      using q s by (intro front_moved(1) [OF assms(1) q(1)]) auto
    then show ?thesis using q s 3
      by (simp add: local_ok_def act_def acquire_reply_def acquire_again_def phase_def told_def) (simp add: front_pc_def)
  qed
qed

lemma give_back_local:
  assumes "cl_inv c" "pcs c t = Held" "lcc_release (lk c) = Inr (Call_Release, sig, l)"
  shows "local_ok c (c\<lparr>lk := l, pcs := signal sig ((pcs c)(t := Rel_Req))\<rparr>)"
proof -
  obtain ts where q: "queue (lk c) = t # ts" "front_pc c = Held" using cl_inv_front [OF assms(1), of t] assms(2) by auto
  have s: "cl_state (lk c) = C_LOCKED" "hp c = H_Idle" using front_state(6) [OF assms(1) q(2)] hp_idle [OF assms(1)] by auto
  have l: "revoke_later (lk c)" "l = (lk c)\<lparr>cl_state := C_RELEASING\<rparr>" "sig = None"
    using assms(3) by (auto simp: lcc_release_def rbind_Inr_iff split: if_splits)
  have "\<not> retry_earlier (lk c)" using assms(1) q(2) by (auto simp: cl_inv_def)
  then have "cl_inv (c\<lparr>lk := l, pcs := (pcs c)(t := Rel_Req)\<rparr>)"
    using q s l by (intro front_moved(1) [OF assms(1) q(1)]) auto
  then show ?thesis using q s l
    by (simp add: local_ok_def signal_def phase_def told_def) (simp add: front_pc_def)
qed

text \<open>The front thread leaves and the next one, if any, is signalled.\<close>

lemma front_leaves:
  assumes "cl_inv c" "queue (lk c) = t # ts" "queue l = ts" "hp c = H_Idle" "\<not> revoke_later l" "\<not> retry_earlier l"
    "cl_state l = (if ts = [] then s else if s = C_NONE then C_NONE else C_LOCKED)" "s \<in> {C_NONE, C_FREE}"
    "sig = (case ts of [] \<Rightarrow> None | u # _ \<Rightarrow> Some u)"
  shows "cl_inv (c\<lparr>lk := l, pcs := signal sig ((pcs c)(t := Idle))\<rparr>)"
    "phase (c\<lparr>lk := l, pcs := signal sig ((pcs c)(t := Idle))\<rparr>) = (if s = C_NONE then Quiet else Own)"
proof -
  have q: "t \<notin> set ts" "distinct ts" "\<forall>u \<in> set ts. pcs c u = W_Behind False" "\<forall>u. u \<notin> set (t # ts) \<longrightarrow> pcs c u = Idle"
    using assms(1,2) by (auto simp: cl_inv_def)
  show "cl_inv (c\<lparr>lk := l, pcs := signal sig ((pcs c)(t := Idle))\<rparr>)"
    using q assms(3-9) by (cases ts) (auto simp: cl_inv_def front_pc_def signal_def)
  show "phase (c\<lparr>lk := l, pcs := signal sig ((pcs c)(t := Idle))\<rparr>) = (if s = C_NONE then Quiet else Own)"
    using q assms(3-9) by (cases ts) (auto simp: phase_def front_pc_def signal_def)
qed

lemma release_end_leaves:
  assumes "release_end l0 = Inr (sig, l)" "queue l0 = t # ts"
  shows "queue l = ts" "\<not> revoke_later l" "retry_earlier l = retry_earlier l0" "sig = (case ts of [] \<Rightarrow> None | u # _ \<Rightarrow> Some u)"
    "cl_state l = (if ts \<noteq> [] \<and> \<not> revoke_later l0 then C_LOCKED else cl_state l0)"
  using assms by (auto simp: release_end_def Let_def split: list.splits if_splits)

lemma give_up_local:
  assumes "cl_inv c" "pcs c t = Held" "lcc_release (lk c) = Inr (Return r, sig, l)"
  shows "local_ok c (c\<lparr>lk := l, pcs := signal sig ((pcs c)(t := Idle))\<rparr>)"
proof -
  obtain ts where q: "queue (lk c) = t # ts" "front_pc c = Held" using cl_inv_front [OF assms(1), of t] assms(2) by auto
  have s: "cl_state (lk c) = C_LOCKED" "hp c = H_Idle" using front_state(6) [OF assms(1) q(2)] hp_idle [OF assms(1)] by auto
  have l: "\<not> revoke_later (lk c)" "release_end ((lk c)\<lparr>cl_state := C_FREE\<rparr>) = Inr (sig, l)"
    using assms(3) by (auto simp: lcc_release_def rbind_Inr_iff split: if_splits)
  have r: "\<not> retry_earlier (lk c)" using assms(1) q(2) by (auto simp: cl_inv_def)
  note e = release_end_leaves [OF l(2), of t ts]
  have "cl_state l = (if ts = [] then C_FREE else if C_FREE = C_NONE then C_NONE else C_LOCKED)" using e(5) q(1) l(1) by simp
  note f = front_leaves [OF assms(1) q(1) _ s(2) _ _ this]
  show ?thesis using f e q r s l(1) by (simp add: local_ok_def told_def phase_def)
qed

lemma given_back_local:
  assumes "cl_inv c" "pcs c t = Rel_Rep" "release_reply (lk c) = Inr (sig, l)"
  shows "local_ok c (c\<lparr>lk := l, pcs := signal sig ((pcs c)(t := Idle))\<rparr>)"
proof -
  obtain ts where q: "queue (lk c) = t # ts" "front_pc c = Rel_Rep" using cl_inv_front [OF assms(1), of t] assms(2) by auto
  have s: "cl_state (lk c) = C_RELEASING" "hp c = H_Idle" using front_state(7) [OF assms(1)] q(2) by auto
  have r: "\<not> retry_earlier (lk c)" "revoke_later (lk c)" using assms(1) q(2) s by (auto simp: cl_inv_def)
  have l: "release_end ((lk c)\<lparr>cl_state := C_NONE\<rparr>) = Inr (sig, l)" using assms(3) by (simp add: release_reply_def)
  note e = release_end_leaves [OF l, of t ts]
  have "cl_state l = (if ts = [] then C_NONE else if C_NONE = C_NONE then C_NONE else C_LOCKED)" using e(5) q(1) r(2) by simp
  note f = front_leaves [OF assms(1) q(1) _ s(2) _ _ this]
  show ?thesis using f e q r s by (simp add: local_ok_def told_def phase_def)
qed

lemma revoked_local:
  assumes "cl_inv c" "hp c = H_Rel_Rep" "revoke_reply (lk c) = (sig, l)"
  shows "local_ok c (c\<lparr>lk := l, pcs := signal sig (pcs c), hp := H_Idle\<rparr>)"
proof -
  have s: "cl_state (lk c) = C_RELEASING" "\<not> revoke_later (lk c)" "queue (lk c) = [] \<or> front_pc c = W_First False" "\<not> retry_earlier (lk c)"
    using assms(1,2) by (auto simp: cl_inv_def front_pc_def)
  have q: "distinct (queue (lk c))" "\<forall>t. t \<notin> set (queue (lk c)) \<longrightarrow> pcs c t = Idle" "\<forall>t \<in> set (tl (queue (lk c))). pcs c t = W_Behind False"
    using assms(1) by (auto simp: cl_inv_def)
  show ?thesis using s q assms(2,3)
    by (cases "queue (lk c)") (auto simp: local_ok_def revoke_reply_def cl_inv_def front_pc_def signal_def phase_def told_def)
qed

lemma cl_step_local:
  assumes "cl_step c c'" "cl_inv c"
  shows "local_ok c c'"
  using assms(1)
proof cases
  case (enter t)
  then show ?thesis using enter_local [OF assms(2) enter(2)] by (auto simp: local_ok_def)
qed (use assms(2) in \<open>auto intro: woken_first_local woken_behind_local woken_retry_local reply_local give_back_local give_up_local
       given_back_local revoked_local\<close>)

section \<open>A client and the messages of the server\<close>

lemma acquire_local:
  assumes "cl_inv c" "pcs c t = Acq_Req" "st \<in> {L_OK, L_RETRY}"
  shows "phase c = Req" "cl_inv (c\<lparr>pcs := (pcs c)(t := Acq_Rep st)\<rparr>)"
    "phase (c\<lparr>pcs := (pcs c)(t := Acq_Rep st)\<rparr>) = (if st = L_OK then Own else Wait)"
    "told (c\<lparr>pcs := (pcs c)(t := Acq_Rep st)\<rparr>) = told c"
proof -
  obtain ts where q: "queue (lk c) = t # ts" "front_pc c = Acq_Req" using cl_inv_front [OF assms(1), of t] assms(2) by auto
  have s: "cl_state (lk c) = C_ACQUIRING" "hp c = H_Idle" using front_state(4) [OF assms(1) q(2)] hp_idle [OF assms(1)] by auto
  have r: "\<not> retry_earlier (lk c)" using assms(1) q(2) by (auto simp: cl_inv_def)
  show "phase c = Req" using q s by (simp add: phase_def)
  have "cl_inv (c\<lparr>lk := lk c, pcs := (pcs c)(t := Acq_Rep st)\<rparr>)"
    using q s r assms(3) by (intro front_moved(1) [OF assms(1) q(1)]) auto
  then show "cl_inv (c\<lparr>pcs := (pcs c)(t := Acq_Rep st)\<rparr>)" by simp
  show "phase (c\<lparr>pcs := (pcs c)(t := Acq_Rep st)\<rparr>) = (if st = L_OK then Own else Wait)"
    using q s r assms(3) by (auto simp: phase_def front_pc_def)
  show "told (c\<lparr>pcs := (pcs c)(t := Acq_Rep st)\<rparr>) = told c" by (simp add: told_def)
qed

lemma revoke_local:
  assumes "cl_inv c" "phase c = Own" "\<not> told c" "revoke_handler (lk c) = (rel, l)"
  shows "cl_inv (c\<lparr>lk := l, hp := (if rel then H_Rel_Req else hp c)\<rparr>)"
    "phase (c\<lparr>lk := l, hp := (if rel then H_Rel_Req else hp c)\<rparr>) = (if rel then Give else Own)"
    "told (c\<lparr>lk := l, hp := (if rel then H_Rel_Req else hp c)\<rparr>) \<longleftrightarrow> \<not> rel"
proof -
  have s: "cl_state (lk c) \<noteq> C_RELEASING" "hp c = H_Idle"
    using assms(1,2) by (auto simp: phase_def cl_inv_def front_pc_def split: if_splits list.splits)
  have "cl_inv (c\<lparr>lk := l, hp := (if rel then H_Rel_Req else hp c)\<rparr>) \<and>
    phase (c\<lparr>lk := l, hp := (if rel then H_Rel_Req else hp c)\<rparr>) = (if rel then Give else Own) \<and>
    (told (c\<lparr>lk := l, hp := (if rel then H_Rel_Req else hp c)\<rparr>) \<longleftrightarrow> \<not> rel)"
  proof (cases "cl_state (lk c) = C_FREE")
    case True
    then have e: "rel" "l = (lk c)\<lparr>cl_state := C_RELEASING\<rparr>" using assms(4) by (simp_all add: revoke_handler_def)
    have q: "queue (lk c) = []" "\<not> revoke_later (lk c)" "\<forall>t. pcs c t = Idle" "\<not> retry_earlier (lk c)"
      using assms(1) True by (auto simp: cl_inv_def front_pc_def)
    with e show ?thesis by (simp add: cl_inv_def front_pc_def phase_def told_def)
  next
    case False
    then have e: "\<not> rel" "l = (lk c)\<lparr>revoke_later := True\<rparr>" using assms(4) by (simp_all add: revoke_handler_def)
    have f: "front_pc (c\<lparr>lk := l, hp := hp c\<rparr>) = front_pc c" using e(2) by (simp add: front_pc_def split: list.splits)
    have n: "cl_state (lk c) \<noteq> C_NONE" using assms(1,2) s(2) by (auto simp: phase_def cl_inv_def front_pc_def split: if_splits)
    have "cl_inv (c\<lparr>lk := l, hp := hp c\<rparr>)"
      using assms(1) s False n unfolding cl_inv_def f by (cases "cl_state (lk c)") (simp_all add: e(2))
    moreover have "phase (c\<lparr>lk := l, hp := hp c\<rparr>) = Own" using assms(2) unfolding phase_def f by (auto simp: e(2) split: if_splits)
    ultimately show ?thesis using e s(1) by (simp add: told_def)
  qed
  then show "cl_inv (c\<lparr>lk := l, hp := (if rel then H_Rel_Req else hp c)\<rparr>)"
    "phase (c\<lparr>lk := l, hp := (if rel then H_Rel_Req else hp c)\<rparr>) = (if rel then Give else Own)"
    "told (c\<lparr>lk := l, hp := (if rel then H_Rel_Req else hp c)\<rparr>) \<longleftrightarrow> \<not> rel" by blast+
qed

lemma release_local:
  assumes "cl_inv c" "pcs c t = Rel_Req"
  shows "phase c = Give" "cl_inv (c\<lparr>pcs := (pcs c)(t := Rel_Rep)\<rparr>)" "phase (c\<lparr>pcs := (pcs c)(t := Rel_Rep)\<rparr>) = Quiet"
    "\<not> told (c\<lparr>pcs := (pcs c)(t := Rel_Rep)\<rparr>)"
proof -
  obtain ts where q: "queue (lk c) = t # ts" "front_pc c = Rel_Req" using cl_inv_front [OF assms(1), of t] assms(2) by auto
  have s: "cl_state (lk c) = C_RELEASING" "hp c = H_Idle" using front_state(7) [OF assms(1)] q(2) by auto
  have r: "\<not> retry_earlier (lk c)" "revoke_later (lk c)" using assms(1) q(2) s by (auto simp: cl_inv_def)
  show "phase c = Give" using q by (simp add: phase_def)
  have "cl_inv (c\<lparr>lk := lk c, pcs := (pcs c)(t := Rel_Rep)\<rparr>)" using q s r by (intro front_moved(1) [OF assms(1) q(1)]) auto
  then show "cl_inv (c\<lparr>pcs := (pcs c)(t := Rel_Rep)\<rparr>)" by simp
  show "phase (c\<lparr>pcs := (pcs c)(t := Rel_Rep)\<rparr>) = Quiet" "\<not> told (c\<lparr>pcs := (pcs c)(t := Rel_Rep)\<rparr>)"
    using q s by (simp_all add: phase_def front_pc_def told_def)
qed

lemma release_h_local:
  assumes "cl_inv c" "hp c = H_Rel_Req"
  shows "phase c = Give" "cl_inv (c\<lparr>hp := H_Rel_Rep\<rparr>)" "phase (c\<lparr>hp := H_Rel_Rep\<rparr>) = Quiet" "\<not> told (c\<lparr>hp := H_Rel_Rep\<rparr>)"
proof -
  have s: "cl_state (lk c) = C_RELEASING" "queue (lk c) = [] \<or> front_pc c = W_First False"
    using assms by (auto simp: cl_inv_def)
  show "phase c = Give" using assms(2) by (simp add: phase_def)
  have f: "front_pc (c\<lparr>hp := H_Rel_Rep\<rparr>) = front_pc c" by (simp add: front_pc_def split: list.splits)
  show "cl_inv (c\<lparr>hp := H_Rel_Rep\<rparr>)" using assms s unfolding cl_inv_def f by simp
  show "phase (c\<lparr>hp := H_Rel_Rep\<rparr>) = Quiet" "\<not> told (c\<lparr>hp := H_Rel_Rep\<rparr>)"
    using s unfolding phase_def f told_def by (auto simp: front_pc_def)
qed

lemma retry_local:
  assumes "cl_inv c" "phase c = Wait"
  shows "\<exists>t l. retry_handler (lk c) = Inr (t, l)"
    "retry_handler (lk c) = Inr (t, l) \<Longrightarrow> cl_inv (c\<lparr>lk := l, pcs := (pcs c)(t := wake (pcs c t))\<rparr>) \<and>
      phase (c\<lparr>lk := l, pcs := (pcs c)(t := wake (pcs c t))\<rparr>) = Back \<and> told (c\<lparr>lk := l, pcs := (pcs c)(t := wake (pcs c t))\<rparr>) = told c"
proof -
  have p: "front_pc c \<in> {Acq_Rep L_RETRY, W_Retry False, W_Retry True}" "\<not> retry_earlier (lk c)"
    using assms(2) by (auto simp: phase_def split: if_splits)
  then obtain u ts where q: "queue (lk c) = u # ts" by (cases "queue (lk c)") (auto simp: front_pc_def)
  then show "\<exists>t l. retry_handler (lk c) = Inr (t, l)" by (simp add: retry_handler_def)
  assume h: "retry_handler (lk c) = Inr (t, l)"
  then have l: "t = u" "l = (lk c)\<lparr>retry_earlier := True\<rparr>" using q by (simp_all add: retry_handler_def)
  have f: "front_pc c = pcs c u" using q by (simp add: front_pc_def)
  have s: "cl_state (lk c) = C_ACQUIRING" "hp c = H_Idle" using p(1) front_state(3) [OF assms(1), of False] front_state(3) [OF assms(1), of True] front_state(5) [OF assms(1)] hp_idle [OF assms(1)] by auto
  have w: "front_pc c \<noteq> W_Retry True" using assms(1) p(2) by (auto simp: cl_inv_def)
  have "cl_inv (c\<lparr>lk := l, pcs := (pcs c)(u := wake (pcs c u))\<rparr>)"
    using q s l p f w by (intro front_moved(1) [OF assms(1) q(1)]) auto
  moreover have "phase (c\<lparr>lk := l, pcs := (pcs c)(u := wake (pcs c u))\<rparr>) = Back"
    using q s l p(1) f w by (auto simp: phase_def front_pc_def)
  ultimately show "cl_inv (c\<lparr>lk := l, pcs := (pcs c)(t := wake (pcs c t))\<rparr>) \<and>
      phase (c\<lparr>lk := l, pcs := (pcs c)(t := wake (pcs c t))\<rparr>) = Back \<and> told (c\<lparr>lk := l, pcs := (pcs c)(t := wake (pcs c t))\<rparr>) = told c"
    using l by (simp add: told_def)
qed

section \<open>The invariant of the server\<close>

text \<open>
  In terms of what the server sees: \<open>P\<close> the phases of the clients, \<open>T\<close> which have been told to give the
  lock back, and the messages on their way.  While the lock is being revoked there is exactly one sign
  of it; while it is being handed on, the next client has exactly one sign of that.
\<close>

definition revoking_ok :: "phase \<Rightarrow> nat \<Rightarrow> nat \<Rightarrow> bool \<Rightarrow> bool" where
  "revoking_ok p prv rv t \<longleftrightarrow> p = Own \<and> prv + rv + of_bool t = 1 \<or> p = Give \<and> prv = 0 \<and> rv = 0 \<and> \<not> t"

definition retrying_ok :: "phase \<Rightarrow> nat \<Rightarrow> nat \<Rightarrow> bool" where
  "retrying_ok p prt rt \<longleftrightarrow> p = Wait \<and> prt + rt = 1 \<or> p \<in> {Back, Req} \<and> prt = 0 \<and> rt = 0"

text \<open>Every client but \<open>h\<close> is at rest, has asked, or is in the line of waiting clients.\<close>

definition others_ok :: "string \<Rightarrow> string list \<Rightarrow> (string \<Rightarrow> phase) \<Rightarrow> bool" where
  "others_ok h ws P \<longleftrightarrow> h \<notin> set ws \<and> distinct ws \<and> (\<forall>i \<in> set ws. P i = Wait) \<and>
     (\<forall>i. i \<noteq> h \<longrightarrow> i \<notin> set ws \<longrightarrow> P i = Quiet \<or> P i = Req)"

definition srv_ok :: "slock \<Rightarrow> (string \<Rightarrow> phase) \<Rightarrow> (string \<Rightarrow> bool) \<Rightarrow> nat \<Rightarrow> nat \<Rightarrow> (string \<Rightarrow> nat) \<Rightarrow> (string \<Rightarrow> nat) \<Rightarrow> bool" where
  "srv_ok s P T prv prt rv rt \<longleftrightarrow> P [] = Quiet \<and>
     (case sl_state s of
        FREE \<Rightarrow> waiter s = [] \<and> prv = 0 \<and> prt = 0 \<and> (\<forall>i. P i \<in> {Quiet, Req} \<and> \<not> T i \<and> rv i = 0 \<and> rt i = 0)
      | LOCKED \<Rightarrow> waiter s = [] \<and> prv = 0 \<and> prt = 0 \<and> P (holder s) = Own \<and> others_ok (holder s) [] P \<and>
          (\<forall>i. \<not> T i \<and> rv i = 0 \<and> rt i = 0)
      | REVOKING \<Rightarrow> waiter s \<noteq> [] \<and> prt = 0 \<and> (\<forall>i. rt i = 0) \<and>
          revoking_ok (P (holder s)) prv (rv (holder s)) (T (holder s)) \<and> others_ok (holder s) (waiter s) P \<and>
          (\<forall>i. i \<noteq> holder s \<longrightarrow> \<not> T i \<and> rv i = 0)
      | RETRYING \<Rightarrow> prv = 0 \<and> (\<forall>i. rv i = 0 \<and> \<not> T i) \<and>
          retrying_ok (P (retryer s)) prt (rt (retryer s)) \<and> others_ok (retryer s) (waiter s) P \<and> (\<forall>i. i \<noteq> retryer s \<longrightarrow> rt i = 0))"

lemma others_ok_asks: "others_ok h ws P \<Longrightarrow> P i \<noteq> Wait \<Longrightarrow> others_ok h ws (P(i := Req))"
  by (auto simp: others_ok_def)

lemma others_ok_self: "others_ok h ws P \<Longrightarrow> others_ok h ws (P(h := p))"
  by (simp add: others_ok_def)

lemma others_ok_wait:
  assumes "others_ok h ws P" "i \<noteq> h"
  shows "others_ok h (insort_insert i ws) (P(i := Wait))"
  using assms by (auto simp: others_ok_def set_insort_insert distinct_insort_insert)

lemma others_ok_phase: "others_ok h ws P \<Longrightarrow> i \<noteq> h \<Longrightarrow> P i = Quiet \<or> P i = Req \<or> P i = Wait"
  by (auto simp: others_ok_def)

lemma others_ok_next: "others_ok h (w # ws) P \<Longrightarrow> others_ok w ws (P(h := Quiet))"
  by (auto simp: others_ok_def)

lemma insort_insert_not_Nil: "insort_insert x xs \<noteq> []"
  by (simp add: insort_insert_key_def insort_not_Nil) (cases xs; simp)

lemma srv_ok_asks:
  assumes "srv_ok s P T prv prt rv rt" "P i \<in> {Quiet, Back}" "i \<noteq> []"
  shows "srv_ok s (P(i := Req)) T prv prt rv rt"
proof -
  have "P i \<noteq> Wait" "P i \<noteq> Own" "P i \<noteq> Give" using assms(2) by auto
  then show ?thesis using assms others_ok_asks [of _ _ P i]
    by (cases "sl_state s") (auto simp: srv_ok_def revoking_ok_def retrying_ok_def)
qed

lemma srv_ok_own:
  assumes "srv_ok s P T prv prt rv rt" "P i \<in> {Own, Give}"
  shows "i = holder s \<and> (sl_state s = LOCKED \<or> sl_state s = REVOKING)"
proof -
  have o: "i = h" if "others_ok h ws P" for h ws using others_ok_phase [OF that, of i] assms(2) by (cases "i = h") auto
  have "sl_state s \<noteq> FREE" using assms by (auto simp: srv_ok_def dest!: spec [of _ i])
  then show ?thesis using assms o by (cases "sl_state s") (auto simp: srv_ok_def retrying_ok_def)
qed

lemma srv_ok_give:
  assumes "srv_ok s P T prv prt rv rt" "P i = Give"
  shows "i = holder s" "sl_state s = REVOKING"
  using srv_ok_own [OF assms(1), of i] assms by (auto simp: srv_ok_def)

lemma srv_ok_gives:
  assumes "srv_ok s P T prv prt rv rt" "P i = Own" "T i"
  shows "srv_ok s (P(i := Give)) (T(i := False)) prv prt rv rt"
  using assms srv_ok_own [OF assms(1), of i] by (auto simp: srv_ok_def revoking_ok_def intro: others_ok_self)

text \<open>An acquire passes the assertions of the server, and its answer says what the client is from then on.\<close>

definition acquire_ok :: "string \<Rightarrow> slock \<Rightarrow> (string \<Rightarrow> phase) \<Rightarrow> (string \<Rightarrow> bool) \<Rightarrow> nat \<Rightarrow> nat \<Rightarrow> (string \<Rightarrow> nat) \<Rightarrow> (string \<Rightarrow> nat) \<Rightarrow> bool" where
  "acquire_ok i s P T prv prt rv rt \<longleftrightarrow>
     (case acquire_lock i s of
        Inl _ \<Rightarrow> False
      | Inr ((st, need), l) \<Rightarrow> (st = L_OK \<and> srv_ok l (P(i := Own)) T (prv + of_bool need) prt rv rt) \<or>
          (st = L_RETRY \<and> srv_ok l (P(i := Wait)) T (prv + of_bool need) prt rv rt))"

lemma srv_ok_acquire_retrying:
  assumes "srv_ok s P T prv prt rv rt" "P i = Req" "sl_state s = RETRYING"
  shows "acquire_ok i s P T prv prt rv rt"
proof (cases "retryer s = i")
  case True
  have f: "retrying_ok (P i) prt (rt i)" "\<forall>j. j \<noteq> i \<longrightarrow> rt j = 0" "prv = 0" "\<forall>j. rv j = 0 \<and> \<not> T j" "P [] = Quiet"
    "others_ok i (waiter s) P" using assms(1,3) True by (simp_all add: srv_ok_def)
  have "prt = 0" "rt i = 0" "i \<noteq> []" using f assms(2) by (auto simp: retrying_ok_def)
  then have "\<forall>j. rt j = 0" using f(2) by metis
  then show ?thesis using f \<open>prt = 0\<close> \<open>i \<noteq> []\<close> True assms(3) others_ok_self [OF f(6), of Own]
    by (cases "waiter s") (simp_all add: acquire_ok_def acquire_lock_def srv_ok_def revoking_ok_def)
next
  case False
  have "others_ok (retryer s) (insort_insert i (waiter s)) (P(i := Wait))" "i \<noteq> []"
    using assms False by (auto simp: srv_ok_def intro: others_ok_wait)
  then show ?thesis using assms False by (simp add: acquire_ok_def acquire_lock_def srv_ok_def)
qed

lemma srv_ok_acquire:
  assumes "srv_ok s P T prv prt rv rt" "P i = Req"
  shows "acquire_ok i s P T prv prt rv rt"
proof (cases "sl_state s")
  case FREE
  have "i \<noteq> []" using assms by (auto simp: srv_ok_def)
  moreover have "others_ok i [] (P(i := Own))" using assms FREE by (simp add: srv_ok_def others_ok_def)
  ultimately show ?thesis using assms FREE by (simp add: acquire_ok_def acquire_lock_def srv_ok_def)
next
  case LOCKED
  have "i \<noteq> []" "holder s \<noteq> i" "holder s \<noteq> []" using assms LOCKED by (auto simp: srv_ok_def)
  moreover have "others_ok (holder s) (insort_insert i (waiter s)) (P(i := Wait))"
    using assms LOCKED \<open>holder s \<noteq> i\<close> by (intro others_ok_wait) (simp_all add: srv_ok_def)
  ultimately show ?thesis using assms LOCKED
    by (simp add: acquire_ok_def acquire_lock_def srv_ok_def revoking_ok_def insort_insert_not_Nil)
next
  case REVOKING
  have "i \<noteq> []" "holder s \<noteq> i" "holder s \<noteq> []" using assms REVOKING by (auto simp: srv_ok_def revoking_ok_def)
  moreover have "others_ok (holder s) (insort_insert i (waiter s)) (P(i := Wait))"
    using assms REVOKING \<open>holder s \<noteq> i\<close> by (intro others_ok_wait) (simp_all add: srv_ok_def)
  ultimately show ?thesis using assms REVOKING
    by (simp add: acquire_ok_def acquire_lock_def srv_ok_def insort_insert_not_Nil)
next
  case RETRYING
  then show ?thesis using srv_ok_acquire_retrying [OF assms] by simp
qed

lemma srv_ok_send_revoke:
  assumes "srv_ok s P T (Suc n) prt rv rt"
  shows "srv_ok s P T n prt (rv(holder s := Suc (rv (holder s)))) rt"
  using assms by (cases "sl_state s") (auto simp: srv_ok_def revoking_ok_def)

lemma srv_ok_revoke:
  assumes "srv_ok s P T prv prt rv rt" "rv i = Suc n"
  shows "P i = Own" "\<not> T i" "srv_ok s (P(i := Give)) (T(i := False)) prv prt (rv(i := n)) rt" "srv_ok s P (T(i := True)) prv prt (rv(i := n)) rt"
proof -
  have s: "sl_state s = REVOKING" using assms by (cases "sl_state s") (auto simp: srv_ok_def)
  then have "i = holder s" using assms by (auto simp: srv_ok_def)
  then show "P i = Own" "\<not> T i" "srv_ok s (P(i := Give)) (T(i := False)) prv prt (rv(i := n)) rt" "srv_ok s P (T(i := True)) prv prt (rv(i := n)) rt"
    using assms s by (auto simp: srv_ok_def revoking_ok_def intro: others_ok_self)
qed

lemma srv_ok_release:
  assumes "srv_ok s P T prv prt rv rt" "P i = Give"
  shows "\<exists>l. release_lock i s = Inr l \<and> srv_ok l (P(i := Quiet)) (T(i := False)) prv (Suc prt) rv rt"
proof -
  have s: "i = holder s" "sl_state s = REVOKING" using srv_ok_give [OF assms] by simp_all
  then obtain w ws where w: "waiter s = w # ws" using assms by (cases "waiter s") (auto simp: srv_ok_def)
  have o: "others_ok i (w # ws) P" "w \<noteq> i" using assms s w by (auto simp: srv_ok_def others_ok_def)
  then have "P w = Wait" by (auto simp: others_ok_def)
  have "rv i = 0" "\<forall>j. j \<noteq> i \<longrightarrow> \<not> T j \<and> rv j = 0" using assms s by (simp_all add: srv_ok_def revoking_ok_def)
  then have "\<forall>j. rv j = 0 \<and> (j \<noteq> i \<longrightarrow> \<not> T j)" by metis
  then have "srv_ok (s\<lparr>sl_state := RETRYING, retryer := w, waiter := ws, holder := []\<rparr>) (P(i := Quiet)) (T(i := False)) prv (Suc prt) rv rt"
    using assms s w o \<open>P w = Wait\<close> others_ok_next [OF o(1)] by (auto simp: srv_ok_def revoking_ok_def retrying_ok_def)
  then show ?thesis using s w by (simp add: release_lock_def)
qed

lemma srv_ok_send_retry:
  assumes "srv_ok s P T prv (Suc n) rv rt"
  shows "srv_ok s P T prv n rv (rt(retryer s := Suc (rt (retryer s))))"
  using assms by (cases "sl_state s") (auto simp: srv_ok_def retrying_ok_def)

lemma srv_ok_retry:
  assumes "srv_ok s P T prv prt rv rt" "rt i = Suc n"
  shows "P i = Wait" "srv_ok s (P(i := Back)) T prv prt rv (rt(i := n))"
proof -
  have s: "sl_state s = RETRYING" using assms by (cases "sl_state s") (auto simp: srv_ok_def)
  then have "i = retryer s" using assms by (auto simp: srv_ok_def)
  then show "P i = Wait" "srv_ok s (P(i := Back)) T prv prt rv (rt(i := n))"
    using assms s by (auto simp: srv_ok_def retrying_ok_def intro: others_ok_self)
qed

section \<open>The invariant of the system\<close>

definition phases :: "lsys \<Rightarrow> string \<Rightarrow> phase" where
  "phases S = (\<lambda>i. phase (l_cl S i))"

definition tolds :: "lsys \<Rightarrow> string \<Rightarrow> bool" where
  "tolds S = (\<lambda>i. told (l_cl S i))"

definition lock_inv :: "lsys \<Rightarrow> bool" where
  "lock_inv S \<longleftrightarrow> (\<forall>i. cl_inv (l_cl S i)) \<and> srv_ok (l_srv S) (phases S) (tolds S) (pend_rv S) (pend_rt S) (revs S) (rets S)"

lemma lock_invD:
  assumes "lock_inv S"
  shows "cl_inv (l_cl S i)" "srv_ok (l_srv S) (phases S) (tolds S) (pend_rv S) (pend_rt S) (revs S) (rets S)"
  using assms by (simp_all add: lock_inv_def)

lemma lock_inv_init: "lock_inv lsys_init"
  by (simp add: lock_inv_def lsys_init_def phases_def tolds_def srv_ok_def slock_new_def cl_inv_def front_pc_def clock_new_def phase_def told_def)

text \<open>One client changed, and the server and the messages perhaps.\<close>

lemma lock_inv_update:
  assumes "lock_inv S" "cl_inv c" "srv_ok s ((phases S)(i := phase c)) ((tolds S)(i := told c)) prv prt rv rt"
  shows "lock_inv (S\<lparr>l_srv := s, l_cl := (l_cl S)(i := c), pend_rv := prv, pend_rt := prt, revs := rv, rets := rt\<rparr>)"
proof -
  have "phases (S\<lparr>l_srv := s, l_cl := (l_cl S)(i := c), pend_rv := prv, pend_rt := prt, revs := rv, rets := rt\<rparr>) = (phases S)(i := phase c)"
    "tolds (S\<lparr>l_srv := s, l_cl := (l_cl S)(i := c), pend_rv := prv, pend_rt := prt, revs := rv, rets := rt\<rparr>) = (tolds S)(i := told c)"
    by (auto simp: phases_def tolds_def fun_eq_iff)
  then show ?thesis using assms by (simp add: lock_inv_def)
qed

lemma tolds_same: "told c = told (l_cl S i) \<Longrightarrow> (tolds S)(i := told c) = tolds S"
  by (auto simp: tolds_def fun_eq_iff)

lemma client_keeps:
  assumes "lock_inv S" "i \<noteq> []" "cl_step (l_cl S i) c"
  shows "lock_inv (S\<lparr>l_cl := (l_cl S)(i := c)\<rparr>)"
proof -
  note inv = lock_invD [OF assms(1)]
  have l: "local_ok (l_cl S i) c" by (rule cl_step_local [OF assms(3) inv(1)])
  have p: "phases S i = phase (l_cl S i)" "tolds S i = told (l_cl S i)" by (simp_all add: phases_def tolds_def)
  from l consider "phase c = phases S i" "told c = tolds S i" | "phases S i \<in> {Quiet, Back}" "phase c = Req" "told c = tolds S i"
    | "phases S i = Own" "tolds S i" "phase c = Give" "\<not> told c"
    unfolding local_ok_def p by blast
  then have "srv_ok (l_srv S) ((phases S)(i := phase c)) ((tolds S)(i := told c)) (pend_rv S) (pend_rt S) (revs S) (rets S)"
  proof cases
    case 1
    then show ?thesis using inv(2) by simp
  next
    case 2
    then show ?thesis using srv_ok_asks [OF inv(2) _ assms(2)] by simp
  next
    case 3
    then show ?thesis using srv_ok_gives [OF inv(2)] by simp
  qed
  then show ?thesis using lock_inv_update [OF assms(1), of c "l_srv S" i "pend_rv S" "pend_rt S" "revs S" "rets S"] l by (simp add: local_ok_def)
qed

lemma acquire_keeps:
  assumes "lock_inv S" "pcs (l_cl S i) t = Acq_Req" "acquire_lock i (l_srv S) = Inr ((st, need), l)"
  shows "lock_inv (S\<lparr>l_srv := l, l_cl := (l_cl S)(i := (l_cl S i)\<lparr>pcs := (pcs (l_cl S i))(t := Acq_Rep st)\<rparr>),
    pend_rv := pend_rv S + of_bool need\<rparr>)"
proof -
  note inv = lock_invD [OF assms(1)]
  have "phases S i = Req" using acquire_local(1) [OF inv(1) assms(2), of L_OK] by (simp add: phases_def)
  from srv_ok_acquire [OF inv(2) this] have ok: "st \<in> {L_OK, L_RETRY}"
    "srv_ok l ((phases S)(i := if st = L_OK then Own else Wait)) (tolds S) (pend_rv S + of_bool need) (pend_rt S) (revs S) (rets S)"
    using assms(3) by (auto simp: acquire_ok_def)
  note loc = acquire_local [OF inv(1) assms(2) ok(1)]
  show ?thesis
    using lock_inv_update [OF assms(1) loc(2), of l i "pend_rv S + of_bool need" "pend_rt S" "revs S" "rets S"] ok(2) loc(3) tolds_same [OF loc(4)]
    by (simp split del: split_of_bool)
qed

lemma revoke_keeps:
  assumes "lock_inv S" "revs S i = Suc n" "revoke_handler (lk (l_cl S i)) = (rel, l)"
  shows "lock_inv (S\<lparr>l_cl := (l_cl S)(i := (l_cl S i)\<lparr>lk := l, hp := (if rel then H_Rel_Req else hp (l_cl S i))\<rparr>),
    revs := (revs S)(i := n)\<rparr>)"
proof -
  note inv = lock_invD [OF assms(1)]
  note ok = srv_ok_revoke [OF inv(2) assms(2)]
  have "phase (l_cl S i) = Own" "\<not> told (l_cl S i)" using ok(1,2) by (simp_all add: phases_def tolds_def)
  note loc = revoke_local [OF inv(1) this assms(3)]
  have "(phases S)(i := Own) = phases S" using ok(1) by (simp add: fun_eq_iff)
  then show ?thesis using lock_inv_update [OF assms(1) loc(1), of "l_srv S" i "pend_rv S" "pend_rt S" "(revs S)(i := n)" "rets S"] ok(3,4) loc(2,3)
    by (cases rel) simp_all
qed

lemma release_keeps:
  assumes "lock_inv S" "phase (l_cl S i) = Give" "cl_inv c" "phase c = Quiet" "\<not> told c" "release_lock i (l_srv S) = Inr l"
  shows "lock_inv (S\<lparr>l_srv := l, l_cl := (l_cl S)(i := c), pend_rt := Suc (pend_rt S)\<rparr>)"
proof -
  note inv = lock_invD [OF assms(1)]
  have "phases S i = Give" using assms(2) by (simp add: phases_def)
  from srv_ok_release [OF inv(2) this]
  have "srv_ok l ((phases S)(i := Quiet)) ((tolds S)(i := False)) (pend_rv S) (Suc (pend_rt S)) (revs S) (rets S)" using assms(6) by simp
  then show ?thesis using lock_inv_update [OF assms(1,3), of l i "pend_rv S" "Suc (pend_rt S)" "revs S" "rets S"] assms(4,5) by simp
qed

lemma retry_keeps:
  assumes "lock_inv S" "rets S i = Suc n" "retry_handler (lk (l_cl S i)) = Inr (t, l)"
  shows "lock_inv (S\<lparr>l_cl := (l_cl S)(i := (l_cl S i)\<lparr>lk := l, pcs := (pcs (l_cl S i))(t := wake (pcs (l_cl S i) t))\<rparr>),
    rets := (rets S)(i := n)\<rparr>)"
proof -
  note inv = lock_invD [OF assms(1)]
  note ok = srv_ok_retry [OF inv(2) assms(2)]
  have "phase (l_cl S i) = Wait" using ok(1) by (simp add: phases_def)
  note loc = retry_local(2) [OF inv(1) this assms(3)]
  show ?thesis using lock_inv_update [OF assms(1) conjunct1 [OF loc], of "l_srv S" i "pend_rv S" "pend_rt S" "revs S" "(rets S)(i := n)"] ok(2) loc tolds_same [of _ S i]
    by simp
qed

lemma lock_step_inv:
  assumes "lock_step S S'" "lock_inv S"
  shows "lock_inv S'"
  using assms
proof cases
  case (client i c)
  then show ?thesis using client_keeps assms(2) by blast
next
  case (acquire i t st need l)
  then show ?thesis using acquire_keeps assms(2) by blast
next
  case (send_revoke n)
  then show ?thesis using assms(2) srv_ok_send_revoke by (simp add: lock_inv_def phases_def tolds_def)
next
  case (revoke i n rel l)
  then show ?thesis using revoke_keeps assms(2) by blast
next
  case (release i t l)
  show ?thesis unfolding release(1)
    using release_local [OF lock_invD(1) [OF assms(2)] release(2)] by (intro release_keeps [OF assms(2) _ _ _ _ release(3)]) auto
next
  case (release_h i l)
  show ?thesis unfolding release_h(1)
    using release_h_local [OF lock_invD(1) [OF assms(2)] release_h(2)] by (intro release_keeps [OF assms(2) _ _ _ _ release_h(3)]) auto
next
  case (send_retry n)
  then show ?thesis using assms(2) srv_ok_send_retry by (simp add: lock_inv_def phases_def tolds_def)
next
  case (retry i n t l)
  then show ?thesis using retry_keeps assms(2) by blast
qed

lemma reachable_lock_inv: "lock_step\<^sup>*\<^sup>* lsys_init S \<Longrightarrow> lock_inv S"
  by (induction rule: rtranclp_induct) (auto intro: lock_inv_init lock_step_inv)

section \<open>Properties\<close>

lemma held_owner:
  assumes "lock_inv S" "pcs (l_cl S i) t = Held"
  shows "i = holder (l_srv S)" "\<exists>ts. queue (lk (l_cl S i)) = t # ts"
proof -
  note inv = lock_invD [OF assms(1)]
  have q: "\<exists>ts. queue (lk (l_cl S i)) = t # ts" "front_pc (l_cl S i) = Held"
    using cl_inv_front [OF inv(1), of i t] assms(2) by auto
  then show "\<exists>ts. queue (lk (l_cl S i)) = t # ts" by blast
  have "cl_state (lk (l_cl S i)) = C_LOCKED" using front_state(6) [OF inv(1) q(2)] by blast
  then have "phases S i = Own" using hp_idle [OF inv(1), of i] q(2) by (simp add: phases_def phase_def)
  then show "i = holder (l_srv S)" using srv_ok_own [OF inv(2), of i] by simp
qed

text \<open>The first steps of a client that gets the lock at once.\<close>

definition granted :: "string \<Rightarrow> nat \<Rightarrow> lsys" where
  "granted i t = lsys_init\<lparr>l_srv := slock_new\<lparr>sl_state := LOCKED, holder := i\<rparr>,
     l_cl := (l_cl lsys_init)(i := \<lparr>lk = clock_new\<lparr>cl_state := C_LOCKED, queue := [t]\<rparr>, pcs = (\<lambda>_. Idle)(t := Held), hp = H_Idle\<rparr>)\<rparr>"

lemma granted_path:
  assumes "i \<noteq> []"
  shows "\<exists>S1 S2. lock_step lsys_init S1 \<and> lock_step S1 S2 \<and> lock_step S2 (granted i t)
    \<and> (\<forall>j u. pcs (l_cl S1 j) u \<noteq> Held) \<and> (\<forall>j u. pcs (l_cl S2 j) u \<noteq> Held)"
proof -
  let ?c = "\<lambda>st p. \<lparr>lk = clock_new\<lparr>cl_state := st, queue := [t]\<rparr>, pcs = (\<lambda>_. Idle)(t := p), hp = H_Idle\<rparr>"
  let ?l = "slock_new\<lparr>sl_state := LOCKED, holder := i\<rparr>"
  let ?S1 = "lsys_init\<lparr>l_cl := (l_cl lsys_init)(i := ?c C_ACQUIRING Acq_Req)\<rparr>"
  let ?S2 = "lsys_init\<lparr>l_srv := ?l, l_cl := (l_cl lsys_init)(i := ?c C_ACQUIRING (Acq_Rep L_OK))\<rparr>"
  have "cl_step (l_cl lsys_init i) (?c C_ACQUIRING Acq_Req)"
    using cl_step.enter [of "l_cl lsys_init i" t] by (simp add: lsys_init_def act_def lcc_acquire_def acquire_server_def clock_new_def)
  then have 1: "lock_step lsys_init ?S1" using lock_step.client [of i lsys_init] assms by blast
  have "acquire_lock i (l_srv ?S1) = Inr ((L_OK, False), ?l)" by (simp add: acquire_lock_def lsys_init_def slock_new_def)
  then have 2: "lock_step ?S1 ?S2"
    using lock_step.acquire [of ?S1 i t L_OK False ?l] by (simp add: lsys_init_def)
  have "cl_step (?c C_ACQUIRING (Acq_Rep L_OK)) (?c C_LOCKED Held)"
    using cl_step.reply [of "?c C_ACQUIRING (Acq_Rep L_OK)" t L_OK] by (simp add: act_def acquire_reply_def clock_new_def)
  then have 3: "lock_step ?S2 (granted i t)"
    using lock_step.client [of i ?S2 "?c C_LOCKED Held"] assms by (simp add: granted_def)
  have "\<forall>j u. pcs (l_cl ?S1 j) u \<noteq> Held" "\<forall>j u. pcs (l_cl ?S2 j) u \<noteq> Held" by (simp_all add: lsys_init_def)
  with 1 2 3 show ?thesis by blast
qed

lemma granted_reachable:
  assumes "i \<noteq> []"
  shows "lock_step\<^sup>*\<^sup>* lsys_init (granted i t)"
proof -
  obtain S1 S2 where "lock_step lsys_init S1" "lock_step S1 S2" "lock_step S2 (granted i t)" using granted_path [OF assms] by blast
  then show ?thesis by (meson rtranclp.rtrancl_into_rtrancl rtranclp.rtrancl_refl)
qed

lemma granted_release:
  assumes "i \<noteq> []"
  shows "\<exists>S. lock_step (granted i t) S \<and> (\<forall>j u. pcs (l_cl S j) u \<noteq> Held)"
proof -
  let ?c = "l_cl (granted i t) i"
  have "lcc_release (lk ?c) = Inr (Return 0, None, clock_new\<lparr>cl_state := C_FREE\<rparr>)"
    by (simp add: granted_def lcc_release_def release_end_def clock_new_def)
  then have "cl_step ?c (?c\<lparr>lk := clock_new\<lparr>cl_state := C_FREE\<rparr>, pcs := signal None ((pcs ?c)(t := Idle))\<rparr>)"
    by (intro cl_step.give_up) (simp add: granted_def)
  note l = lock_step.client [OF assms this]
  show ?thesis by (rule exI, rule conjI, rule l) (simp add: granted_def lsys_init_def signal_def)
qed

text \<open>Mutual exclusion: whatever the clients, their threads, the server and the network do, at most one
  thread of one client has been granted the lock.\<close>

lemma lock_mutual_exclusion:
  assumes "lock_step\<^sup>*\<^sup>* lsys_init S" "pcs (l_cl S i) t = Held" "pcs (l_cl S j) u = Held"
  shows "i = j \<and> t = u"
  using held_owner [OF reachable_lock_inv [OF assms(1)] assms(2)] held_owner [OF reachable_lock_inv [OF assms(1)] assms(3)] by auto

lemma lock_takes:
  assumes "lock_inv S"
  shows "pcs (l_cl S i) t = Acq_Req \<Longrightarrow> \<exists>st need l. acquire_lock i (l_srv S) = Inr ((st, need), l) \<and> st \<in> {L_OK, L_RETRY}"
    "pcs (l_cl S i) t = Rel_Req \<or> hp (l_cl S i) = H_Rel_Req \<Longrightarrow> \<exists>l. release_lock i (l_srv S) = Inr l"
    "0 < rets S i \<Longrightarrow> \<exists>x. retry_handler (lk (l_cl S i)) = Inr x"
    "pcs (l_cl S i) t = Held \<Longrightarrow> \<exists>x. lcc_release (lk (l_cl S i)) = Inr x"
    "pcs (l_cl S i) t = Rel_Rep \<Longrightarrow> \<exists>x. release_reply (lk (l_cl S i)) = Inr x"
proof -
  note inv = lock_invD [OF assms]
  show "\<exists>st need l. acquire_lock i (l_srv S) = Inr ((st, need), l) \<and> st \<in> {L_OK, L_RETRY}" if "pcs (l_cl S i) t = Acq_Req"
  proof -
    have "phases S i = Req" using acquire_local(1) [OF inv(1) that, of L_OK] by (simp add: phases_def)
    from srv_ok_acquire [OF inv(2) this] show ?thesis by (auto simp: acquire_ok_def split: sum.splits prod.splits)
  qed
  show "\<exists>l. release_lock i (l_srv S) = Inr l" if "pcs (l_cl S i) t = Rel_Req \<or> hp (l_cl S i) = H_Rel_Req"
  proof -
    have "phases S i = Give" using that release_local(1) [OF inv(1)] release_h_local(1) [OF inv(1)] by (auto simp: phases_def)
    from srv_ok_release [OF inv(2) this] show ?thesis by blast
  qed
  show "\<exists>x. retry_handler (lk (l_cl S i)) = Inr x" if "0 < rets S i"
  proof -
    from that obtain n where "rets S i = Suc n" using gr0_implies_Suc by blast
    then have "phase (l_cl S i) = Wait" using srv_ok_retry(1) [OF inv(2)] by (simp add: phases_def)
    then show ?thesis using retry_local(1) [OF inv(1)] by blast
  qed
  show "\<exists>x. lcc_release (lk (l_cl S i)) = Inr x" if "pcs (l_cl S i) t = Held"
    using cl_inv_front(1) [OF inv(1), of i t] that by (auto simp: lcc_release_def release_end_def Let_def)
  show "\<exists>x. release_reply (lk (l_cl S i)) = Inr x" if "pcs (l_cl S i) t = Rel_Rep"
    using cl_inv_front(1) [OF inv(1), of i t] that by (auto simp: release_reply_def release_end_def Let_def)
qed

section \<open>The protocol is never stuck\<close>

text \<open>No thread enters.\<close>

definition nobody_enters :: "lsys \<Rightarrow> lsys \<Rightarrow> bool" where
  "nobody_enters S S' \<longleftrightarrow> (\<forall>i t. pcs (l_cl S i) t = Idle \<longrightarrow> pcs (l_cl S' i) t = Idle)"

lemma signal_keeps_idle: "p t = Idle \<Longrightarrow> signal sig p t = Idle"
  by (auto simp: signal_def split: option.splits)

lemma client_moves:
  assumes "cl_inv c" "front_pc c \<notin> {Idle, Acq_Req, Rel_Req, W_First False, W_Behind False, W_Retry False}"
  shows "\<exists>c'. cl_step c c' \<and> (\<forall>t. pcs c t = Idle \<longrightarrow> pcs c' t = Idle)"
proof -
  obtain t ts where q: "queue (lk c) = t # ts" using assms(2) by (cases "queue (lk c)") (auto simp: front_pc_def)
  then have f: "front_pc c = pcs c t" by (simp add: front_pc_def)
  have i: "\<forall>u. pcs c u = Idle \<longrightarrow> u \<noteq> t" using assms(2) f by auto
  have act: "\<forall>u. pcs c u = Idle \<longrightarrow> pcs (act t x c) u = Idle" for x using i by (simp add: act_def)
  have sig: "\<forall>u. pcs c u = Idle \<longrightarrow> signal sg ((pcs c)(t := p)) u = Idle" for sg p using i by (simp add: signal_keeps_idle)
  show ?thesis
  proof (cases "pcs c t")
    case Held
    have "\<exists>a sg l. lcc_release (lk c) = Inr (a, sg, l) \<and> (a = Call_Release \<or> a = Return 0)"
      using q by (simp add: lcc_release_def release_end_def Let_def)
    then obtain a sg l where l: "lcc_release (lk c) = Inr (a, sg, l)" "a = Call_Release \<or> a = Return 0" by blast
    from l(2) show ?thesis using cl_step.give_back [OF Held] cl_step.give_up [OF Held] l(1) sig [of sg] by (elim disjE) fastforce+
  next
    case Rel_Rep
    obtain sg l where "release_reply (lk c) = Inr (sg, l)" using q by (auto simp: release_reply_def release_end_def Let_def)
    from cl_step.given_back [OF Rel_Rep this] show ?thesis using sig [of sg] by fastforce
  next
    case (W_First b)
    then show ?thesis using assms(2) f cl_step.woken_first [of c t] act [of "acquire_woken_first (lk c)"] by (cases b) auto
  next
    case (W_Behind b)
    then show ?thesis using assms(2) f cl_step.woken_behind [of c t] act [of "acquire_woken_behind (lk c)"] by (cases b) auto
  next
    case (W_Retry b)
    then show ?thesis using assms(2) f cl_step.woken_retry [of c t] act [of "acquire_woken_retry (lk c)"] by (cases b) auto
  next
    case (Acq_Rep st)
    then show ?thesis using cl_step.reply [of c t st] act by blast
  qed (use assms(2) f in auto)
qed

lemma client_step_quiet:
  assumes "i \<noteq> []" "cl_inv (l_cl S i)" "front_pc (l_cl S i) \<notin> {Idle, Acq_Req, Rel_Req, W_First False, W_Behind False, W_Retry False}"
  shows "\<exists>S'. lock_step S S' \<and> nobody_enters S S'"
proof -
  obtain c where c: "cl_step (l_cl S i) c" "\<forall>t. pcs (l_cl S i) t = Idle \<longrightarrow> pcs c t = Idle"
    using client_moves [OF assms(2,3)] by blast
  then have "nobody_enters S (S\<lparr>l_cl := (l_cl S)(i := c)\<rparr>)" by (auto simp: nobody_enters_def)
  then show ?thesis using lock_step.client [OF assms(1) c(1)] by blast
qed

lemma server_step_quiet:
  assumes "lock_inv S"
  shows "phases S i = Req \<Longrightarrow> \<exists>S'. lock_step S S' \<and> nobody_enters S S'"
    "phases S i = Give \<Longrightarrow> \<exists>S'. lock_step S S' \<and> nobody_enters S S'"
    "rets S i = Suc n \<Longrightarrow> \<exists>S'. lock_step S S' \<and> nobody_enters S S'"
proof -
  note inv = lock_invD [OF assms]
  show "\<exists>S'. lock_step S S' \<and> nobody_enters S S'" if "phases S i = Req"
  proof -
    have "front_pc (l_cl S i) = Acq_Req" using that by (auto simp: phases_def phase_def split: if_splits)
    then obtain t where t: "pcs (l_cl S i) t = Acq_Req" by (auto simp: front_pc_def split: list.splits)
    obtain st need l where "acquire_lock i (l_srv S) = Inr ((st, need), l)" using lock_takes(1) [OF assms t] by blast
    from lock_step.acquire [OF t this] t show ?thesis by (fastforce simp: nobody_enters_def)
  qed
  show "\<exists>S'. lock_step S S' \<and> nobody_enters S S'" if g: "phases S i = Give"
  proof -
    obtain l where l: "release_lock i (l_srv S) = Inr l" using srv_ok_release [OF inv(2) g] by blast
    have "front_pc (l_cl S i) = Rel_Req \<or> hp (l_cl S i) = H_Rel_Req" using g by (auto simp: phases_def phase_def split: if_splits)
    then consider t where "pcs (l_cl S i) t = Rel_Req" | "hp (l_cl S i) = H_Rel_Req" by (auto simp: front_pc_def split: list.splits)
    then show ?thesis
    proof cases
      case (1 t)
      from lock_step.release [OF 1 l] 1 show ?thesis by (fastforce simp: nobody_enters_def)
    next
      case 2
      from lock_step.release_h [OF 2 l] show ?thesis by (fastforce simp: nobody_enters_def)
    qed
  qed
  show "\<exists>S'. lock_step S S' \<and> nobody_enters S S'" if n: "rets S i = Suc n"
  proof -
    obtain t l where l: "retry_handler (lk (l_cl S i)) = Inr (t, l)" using lock_takes(3) [OF assms, of i] n by auto
    show ?thesis using lock_step.retry [OF n l] by (fastforce simp: nobody_enters_def)
  qed
qed

lemma owner_step_quiet:
  assumes "lock_inv S" "i \<noteq> []" "phases S i = Own" "tolds S i"
  shows "\<exists>S'. lock_step S S' \<and> nobody_enters S S'"
proof -
  have c: "cl_inv (l_cl S i)" by (rule lock_invD(1) [OF assms(1)])
  have p: "revoke_later (lk (l_cl S i))" "cl_state (lk (l_cl S i)) \<in> {C_FREE, C_LOCKED} \<or> front_pc (l_cl S i) = Acq_Rep L_OK"
    using assms(3,4) by (auto simp: phases_def phase_def tolds_def told_def split: if_splits)
  then have "front_pc (l_cl S i) \<in> {Held, W_Behind True, Acq_Rep L_OK}" using c by (auto simp: cl_inv_def)
  then show ?thesis using client_step_quiet [OF assms(2) c] by auto
qed

lemma waiting_step_quiet:
  assumes "lock_inv S" "phases S i = Wait"
  shows "\<exists>S'. lock_step S S' \<and> nobody_enters S S'"
proof -
  note inv = lock_invD [OF assms(1)]
  show ?thesis
  proof (cases "sl_state (l_srv S)")
    case REVOKING
    let ?h = "holder (l_srv S)"
    have r: "revoking_ok (phases S ?h) (pend_rv S) (revs S ?h) (tolds S ?h)" "phases S [] = Quiet"
      using inv(2) REVOKING by (simp_all add: srv_ok_def)
    consider n where "pend_rv S = Suc n" | n where "revs S ?h = Suc n" | "phases S ?h = Own" "tolds S ?h" | "phases S ?h = Give"
      using r(1) by (cases "pend_rv S"; cases "revs S ?h"; cases "tolds S ?h") (auto simp: revoking_ok_def)
    then show ?thesis
    proof cases
      case (1 n)
      show ?thesis using lock_step.send_revoke [OF 1] by (fastforce simp: nobody_enters_def)
    next
      case (2 n)
      obtain rel l where "revoke_handler (lk (l_cl S ?h)) = (rel, l)" by (cases "revoke_handler (lk (l_cl S ?h))")
      from lock_step.revoke [OF 2 this] show ?thesis by (fastforce simp: nobody_enters_def)
    next
      case 3
      moreover have "?h \<noteq> []" using 3(1) r(2) by auto
      ultimately show ?thesis using owner_step_quiet [OF assms(1)] by blast
    next
      case 4
      then show ?thesis by (rule server_step_quiet(2) [OF assms(1)])
    qed
  next
    case RETRYING
    let ?r = "retryer (l_srv S)"
    have r: "retrying_ok (phases S ?r) (pend_rt S) (rets S ?r)" "phases S [] = Quiet" using inv(2) RETRYING by (simp_all add: srv_ok_def)
    consider n where "pend_rt S = Suc n" | n where "rets S ?r = Suc n" | "phases S ?r = Back" | "phases S ?r = Req"
      using r(1) by (cases "pend_rt S"; cases "rets S ?r") (auto simp: retrying_ok_def)
    then show ?thesis
    proof cases
      case (1 n)
      show ?thesis using lock_step.send_retry [OF 1] by (fastforce simp: nobody_enters_def)
    next
      case (2 n)
      then show ?thesis by (rule server_step_quiet(3) [OF assms(1)])
    next
      case 3
      then have "front_pc (l_cl S ?r) \<in> {Acq_Rep L_RETRY, W_Retry True}" "?r \<noteq> []"
        using inv(1) [of ?r] r(2) by (auto simp: phases_def phase_def cl_inv_def split: if_splits)
      then show ?thesis using client_step_quiet [OF _ inv(1), of ?r] by auto
    next
      case 4
      then show ?thesis by (rule server_step_quiet(1) [OF assms(1)])
    qed
  qed (use inv(2) assms(2) others_ok_phase [of "holder (l_srv S)" "[]" "phases S" i] in \<open>auto simp: srv_ok_def others_ok_def dest!: spec [of _ i]\<close>)
qed

text \<open>The protocol never gets stuck: as long as some thread of some client is inside \<^verbatim>\<open>acquire\<close> or
  \<^verbatim>\<open>release\<close> or has the lock, some step can be taken by those already there, so that no thread waits for
  something that only a newcomer could bring about.\<close>

lemma lock_never_stuck:
  assumes "lock_step\<^sup>*\<^sup>* lsys_init S" "i \<noteq> []" "pcs (l_cl S i) t \<noteq> Idle"
  shows "\<exists>S'. lock_step S S' \<and> nobody_enters S S'"
proof -
  have inv: "lock_inv S" by (rule reachable_lock_inv [OF assms(1)])
  note c = lock_invD(1) [OF inv, of i]
  have q: "queue (lk (l_cl S i)) \<noteq> []" using c assms(3) by (auto simp: cl_inv_def)
  then have f: "front_pc (l_cl S i) \<noteq> Idle" using queue_not_idle [OF c] by (auto simp: front_pc_def split: list.splits)
  consider "front_pc (l_cl S i) \<notin> {Idle, Acq_Req, Rel_Req, W_First False, W_Behind False, W_Retry False}"
    | "front_pc (l_cl S i) = Acq_Req" | "front_pc (l_cl S i) = Rel_Req" | "front_pc (l_cl S i) = W_First False" | "front_pc (l_cl S i) = W_Behind False"
    | "front_pc (l_cl S i) = W_Retry False" using f by blast
  then show ?thesis
  proof cases
    case 1
    then show ?thesis by (rule client_step_quiet [OF assms(2) c])
  next
    case 2
    then have "phases S i = Req" using front_state(4) [OF c] hp_idle [OF c] by (simp add: phases_def phase_def)
    then show ?thesis by (rule server_step_quiet(1) [OF inv])
  next
    case 3
    then have "phases S i = Give" by (simp add: phases_def phase_def)
    then show ?thesis by (rule server_step_quiet(2) [OF inv])
  next
    case 4
    then have h: "hp (l_cl S i) \<noteq> H_Idle" using c q by (cases "cl_state (lk (l_cl S i))") (auto simp: cl_inv_def)
    then consider "phases S i = Give" | "hp (l_cl S i) = H_Rel_Rep" by (cases "hp (l_cl S i)") (simp_all add: phases_def phase_def)
    then show ?thesis
    proof cases
      case 1
      then show ?thesis by (rule server_step_quiet(2) [OF inv])
    next
      case 2
      obtain sig l where "revoke_reply (lk (l_cl S i)) = (sig, l)" by (cases "revoke_reply (lk (l_cl S i))")
      from lock_step.client [OF assms(2) cl_step.revoked [OF 2 this]] show ?thesis by (fastforce simp: nobody_enters_def signal_keeps_idle)
    qed
  next
    case 5
    then show ?thesis using c q by (cases "cl_state (lk (l_cl S i))") (auto simp: cl_inv_def)
  next
    case 6
    then have "phases S i = Wait" using front_state(3) [OF c] hp_idle [OF c] c by (auto simp: phases_def phase_def cl_inv_def)
    then show ?thesis by (rule waiting_step_quiet [OF inv])
  qed
qed

end
