(* ===== verification/Lock_Pool.thy ===== *)
theory Lock_Pool
  imports Lock_Protocol Directory
begin

text \<open>
  The lock protocol with all its locks: the tables of the server (\<^verbatim>\<open>lock_server_cache::lock_pool\<close>) and of each
  client (\<^verbatim>\<open>lock_client_cache::lock_pool\<close>), the constructor of a client and the two handlers it registers.
  The system of all locks is an interleaving of the one-lock systems of \<open>Lock_Protocol\<close>: every step of it is
  a step on one lock and leaves the others alone, and every step of a lock is possible in it.  So the
  properties of the protocol hold of every lock.
\<close>

section \<open>The client\<close>

record lock_client_cache =
  rlock_port :: int
  lcc_id :: string
  c_pool :: "u64 \<rightharpoonup> clock"

text \<open>\<open>rand\<close> is the first number that \<^verbatim>\<open>rand()\<close> returns after \<^verbatim>\<open>srand\<close> with the given seed.\<close>

definition lock_client_cache_init :: "(u32 \<Rightarrow> nat) \<Rightarrow> u32 \<Rightarrow> u32 \<Rightarrow> lock_client_cache" where
  "lock_client_cache_init rand now last_port =
     (let port = (int (rand (now XOR last_port)) mod 32000) OR push_bit 10 1
      in \<lparr>rlock_port = port, lcc_id = ''127.0.0.1'' @ '':'' @ show_nat (nat port), c_pool = Map.empty\<rparr>)"

definition lock_client_cache_destroy :: "lock_client_cache \<Rightarrow> lock_client_cache" where
  "lock_client_cache_destroy c = c\<lparr>c_pool := Map.empty\<rparr>"

text \<open>\<^verbatim>\<open>lock_pool[lid]\<close>, and a piece of code on it.\<close>

definition pool_lock :: "lock_client_cache \<Rightarrow> u64 \<Rightarrow> clock" where
  "pool_lock c lid = (case c_pool c lid of None \<Rightarrow> clock_new | Some l \<Rightarrow> l)"

definition set_lock :: "u64 \<Rightarrow> clock \<Rightarrow> lock_client_cache \<Rightarrow> lock_client_cache" where
  "set_lock lid l c = c\<lparr>c_pool := (c_pool c)(lid \<mapsto> l)\<rparr>"

definition on_lock :: "u64 \<Rightarrow> (clock \<Rightarrow> 'a \<times> clock) \<Rightarrow> lock_client_cache \<Rightarrow> 'a \<times> lock_client_cache" where
  "on_lock lid f c = (let (x, l) = f (pool_lock c lid) in (x, set_lock lid l c))"

definition on_lock_res :: "u64 \<Rightarrow> (clock \<Rightarrow> ('a \<times> clock) res) \<Rightarrow> (lock_client_cache, 'a) op" where
  "on_lock_res lid f c = rbind (f (pool_lock c lid)) (\<lambda>(x, l). Inr (x, set_lock lid l c))"

text \<open>\<^verbatim>\<open>acquire\<close> and \<^verbatim>\<open>release\<close> up to the first point where the mutex is given up.\<close>

definition acquire_on :: "u64 \<Rightarrow> nat \<Rightarrow> lock_client_cache \<Rightarrow> next_act \<times> lock_client_cache" where
  "acquire_on lid t = on_lock lid (lcc_acquire t)"

definition release_on :: "u64 \<Rightarrow> (lock_client_cache, next_act \<times> nat option) op" where
  "release_on lid c =
     (if c_pool c lid = None then Inr ((Return L_NOENT, None), c)
      else on_lock_res lid (\<lambda>l. rbind (lcc_release l) (\<lambda>(a, sig, l). Inr ((a, sig), l))) c)"

text \<open>
  The handlers as the RPC server of the client calls them; \<open>call\<close> stands for the call of the lock
  server's \<^verbatim>\<open>release\<close>, and a signal of a condition variable has no effect on the data.
\<close>

definition revoke_rpc :: "(u64 \<Rightarrow> string \<Rightarrow> (lock_client_cache, int) op) \<Rightarrow> u64 \<Rightarrow> int \<Rightarrow> (lock_client_cache, int \<times> int) op" where
  "revoke_rpc call lid r0 c =
     (let (rel, c) = on_lock lid revoke_handler c
      in if rel then rbind (call lid (lcc_id c) c) (\<lambda>(st, c). let (sig, c) = on_lock lid revoke_reply c in Inr ((st, r0), c))
         else Inr ((L_OK, r0), c))"

definition retry_rpc :: "u64 \<Rightarrow> int \<Rightarrow> (lock_client_cache, int \<times> int) op" where
  "retry_rpc lid r0 c = rbind (on_lock_res lid retry_handler c) (\<lambda>(t, c). Inr ((L_OK, r0), c))"

definition lock_client_serve :: "(u64 \<Rightarrow> string \<Rightarrow> (lock_client_cache, int) op) \<Rightarrow> (nat \<Rightarrow> byte) \<Rightarrow> u32 \<Rightarrow> int \<Rightarrow> int \<Rightarrow> lock_client_cache rpcs res" where
  "lock_client_serve call junk nonce count r =
     rbind (rpcs_init junk nonce count r) (\<lambda>srv.
     rbind (reg1 rlock_revoke_num (handler1 get_ull (put_int junk) (revoke_rpc call) r) srv) (\<lambda>srv.
     reg1 rlock_retry_num (handler1 get_ull (put_int junk) retry_rpc r) srv))"

section \<open>The system of all locks\<close>

text \<open>
  Where each thread of a client is with respect to each lock, and where its revoke handler for a lock is.
\<close>

record pclient =
  pc_cc :: lock_client_cache
  pc_at :: "u64 \<Rightarrow> nat \<Rightarrow> tpc"
  pc_hp :: "u64 \<Rightarrow> hpc"

record psys =
  p_srv :: lock_server_cache
  p_cl :: "string \<Rightarrow> pclient"
  p_rv :: "u64 \<Rightarrow> nat"
  p_rt :: "u64 \<Rightarrow> nat"
  p_revs :: "u64 \<Rightarrow> string \<Rightarrow> nat"
  p_rets :: "u64 \<Rightarrow> string \<Rightarrow> nat"

definition psys_init :: psys where
  "psys_init = \<lparr>p_srv = lock_server_cache_init,
     p_cl = (\<lambda>i. \<lparr>pc_cc = \<lparr>rlock_port = 0, lcc_id = i, c_pool = Map.empty\<rparr>, pc_at = (\<lambda>_ _. Idle), pc_hp = (\<lambda>_. H_Idle)\<rparr>),
     p_rv = (\<lambda>_. 0), p_rt = (\<lambda>_. 0), p_revs = (\<lambda>_ _. 0), p_rets = (\<lambda>_ _. 0)\<rparr>"

definition put_at :: "u64 \<Rightarrow> (nat \<Rightarrow> tpc) \<Rightarrow> pclient \<Rightarrow> pclient" where
  "put_at lid p c = c\<lparr>pc_at := (pc_at c)(lid := p)\<rparr>"

definition goes :: "u64 \<Rightarrow> nat \<Rightarrow> next_act \<times> lock_client_cache \<Rightarrow> pclient \<Rightarrow> pclient" where
  "goes lid t x c = put_at lid ((pc_at c lid)(t := pc_of (fst x))) (c\<lparr>pc_cc := snd x\<rparr>)"

inductive pcl_step :: "u64 \<Rightarrow> pclient \<Rightarrow> pclient \<Rightarrow> bool" where
  enter: "pc_at c lid t = Idle \<Longrightarrow> pcl_step lid c (goes lid t (acquire_on lid t (pc_cc c)) c)"
| woken_first: "pc_at c lid t = W_First True \<Longrightarrow> pcl_step lid c (goes lid t (on_lock lid acquire_woken_first (pc_cc c)) c)"
| woken_behind: "pc_at c lid t = W_Behind True \<Longrightarrow> pcl_step lid c (goes lid t (on_lock lid acquire_woken_behind (pc_cc c)) c)"
| woken_retry: "pc_at c lid t = W_Retry True \<Longrightarrow> pcl_step lid c (goes lid t (on_lock lid acquire_woken_retry (pc_cc c)) c)"
| reply: "pc_at c lid t = Acq_Rep st \<Longrightarrow> pcl_step lid c (goes lid t (on_lock lid (acquire_reply st) (pc_cc c)) c)"
| give_back: "pc_at c lid t = Held \<Longrightarrow> release_on lid (pc_cc c) = Inr ((Call_Release, sig), cc) \<Longrightarrow>
    pcl_step lid c (put_at lid (signal sig ((pc_at c lid)(t := Rel_Req))) (c\<lparr>pc_cc := cc\<rparr>))"
| give_up: "pc_at c lid t = Held \<Longrightarrow> release_on lid (pc_cc c) = Inr ((Return r, sig), cc) \<Longrightarrow>
    pcl_step lid c (put_at lid (signal sig ((pc_at c lid)(t := Idle))) (c\<lparr>pc_cc := cc\<rparr>))"
| given_back: "pc_at c lid t = Rel_Rep \<Longrightarrow> on_lock_res lid release_reply (pc_cc c) = Inr (sig, cc) \<Longrightarrow>
    pcl_step lid c (put_at lid (signal sig ((pc_at c lid)(t := Idle))) (c\<lparr>pc_cc := cc\<rparr>))"
| revoked: "pc_hp c lid = H_Rel_Rep \<Longrightarrow> on_lock lid revoke_reply (pc_cc c) = (sig, cc) \<Longrightarrow>
    pcl_step lid c (put_at lid (signal sig (pc_at c lid)) (c\<lparr>pc_cc := cc, pc_hp := (pc_hp c)(lid := H_Idle)\<rparr>))"

definition put_cl :: "string \<Rightarrow> pclient \<Rightarrow> psys \<Rightarrow> psys" where
  "put_cl i c S = S\<lparr>p_cl := (p_cl S)(i := c)\<rparr>"

inductive lock_at_step :: "u64 \<Rightarrow> psys \<Rightarrow> psys \<Rightarrow> bool" where
  client: "i \<noteq> [] \<Longrightarrow> pcl_step lid (p_cl S i) c \<Longrightarrow> lock_at_step lid S (put_cl i c S)"
| acquire: "pc_at (p_cl S i) lid t = Acq_Req \<Longrightarrow> acquire_section lid i (p_srv S) = Inr ((st, need), srv) \<Longrightarrow>
    lock_at_step lid S (put_cl i (put_at lid ((pc_at (p_cl S i) lid)(t := Acq_Rep st)) (p_cl S i))
      (S\<lparr>p_srv := srv, p_rv := (p_rv S)(lid := p_rv S lid + of_bool need)\<rparr>))"
| send_revoke: "p_rv S lid = Suc n \<Longrightarrow> h = holder (srv_lock (p_srv S) lid) \<Longrightarrow>
    lock_at_step lid S (S\<lparr>p_rv := (p_rv S)(lid := n), p_revs := (p_revs S)(lid := (p_revs S lid)(h := Suc (p_revs S lid h)))\<rparr>)"
| revoke: "p_revs S lid i = Suc n \<Longrightarrow> on_lock lid revoke_handler (pc_cc (p_cl S i)) = (rel, cc) \<Longrightarrow>
    lock_at_step lid S (put_cl i ((p_cl S i)\<lparr>pc_cc := cc, pc_hp := (pc_hp (p_cl S i))(lid := if rel then H_Rel_Req else pc_hp (p_cl S i) lid)\<rparr>)
      (S\<lparr>p_revs := (p_revs S)(lid := (p_revs S lid)(i := n))\<rparr>))"
| release: "pc_at (p_cl S i) lid t = Rel_Req \<Longrightarrow> release_section lid i (p_srv S) = Inr (st, srv) \<Longrightarrow>
    lock_at_step lid S (put_cl i (put_at lid ((pc_at (p_cl S i) lid)(t := Rel_Rep)) (p_cl S i))
      (S\<lparr>p_srv := srv, p_rt := (p_rt S)(lid := p_rt S lid + of_bool (st = L_OK))\<rparr>))"
| release_h: "pc_hp (p_cl S i) lid = H_Rel_Req \<Longrightarrow> release_section lid i (p_srv S) = Inr (st, srv) \<Longrightarrow>
    lock_at_step lid S (put_cl i ((p_cl S i)\<lparr>pc_hp := (pc_hp (p_cl S i))(lid := H_Rel_Rep)\<rparr>)
      (S\<lparr>p_srv := srv, p_rt := (p_rt S)(lid := p_rt S lid + of_bool (st = L_OK))\<rparr>))"
| send_retry: "p_rt S lid = Suc n \<Longrightarrow> h = retryer (srv_lock (p_srv S) lid) \<Longrightarrow>
    lock_at_step lid S (S\<lparr>p_rt := (p_rt S)(lid := n), p_rets := (p_rets S)(lid := (p_rets S lid)(h := Suc (p_rets S lid h)))\<rparr>)"
| retry: "p_rets S lid i = Suc n \<Longrightarrow> on_lock_res lid retry_handler (pc_cc (p_cl S i)) = Inr (t, cc) \<Longrightarrow>
    lock_at_step lid S (put_cl i (put_at lid ((pc_at (p_cl S i) lid)(t := wake (pc_at (p_cl S i) lid t))) ((p_cl S i)\<lparr>pc_cc := cc\<rparr>))
      (S\<lparr>p_rets := (p_rets S)(lid := (p_rets S lid)(i := n))\<rparr>))"

definition pool_step :: "psys \<Rightarrow> psys \<Rightarrow> bool" where
  "pool_step S S' \<longleftrightarrow> (\<exists>lid. lock_at_step lid S S')"

section \<open>One lock of many\<close>

definition cview :: "u64 \<Rightarrow> pclient \<Rightarrow> lclient" where
  "cview lid c = \<lparr>lk = pool_lock (pc_cc c) lid, pcs = pc_at c lid, hp = pc_hp c lid\<rparr>"

definition view :: "u64 \<Rightarrow> psys \<Rightarrow> lsys" where
  "view lid S = \<lparr>l_srv = srv_lock (p_srv S) lid, l_cl = (\<lambda>i. cview lid (p_cl S i)), pend_rv = p_rv S lid, pend_rt = p_rt S lid,
     revs = p_revs S lid, rets = p_rets S lid\<rparr>"

text \<open>A step on lock \<open>lid\<close> only.\<close>

definition only :: "u64 \<Rightarrow> psys \<Rightarrow> psys \<Rightarrow> bool" where
  "only lid S S' \<longleftrightarrow> lock_step (view lid S) (view lid S') \<and> (\<forall>lid'. lid' \<noteq> lid \<longrightarrow> view lid' S' = view lid' S)"

definition pool_inv :: "psys \<Rightarrow> bool" where
  "pool_inv S \<longleftrightarrow> (\<forall>lid. lock_inv (view lid S))"

lemma pool_lock_set [simp]: "pool_lock (set_lock lid l c) lid' = (if lid' = lid then l else pool_lock c lid')"
  by (simp add: pool_lock_def set_lock_def)

lemma view_init: "view lid psys_init = lsys_init"
  by (simp add: view_def psys_init_def lsys_init_def cview_def pool_lock_def srv_lock_def lock_server_cache_init_def)

lemma cview_simps [simp]:
  "cview lid' (put_at lid p c) = (if lid' = lid then (cview lid c)\<lparr>pcs := p\<rparr> else cview lid' c)"
  "cview lid' (c\<lparr>pc_cc := set_lock lid l (pc_cc c)\<rparr>) = (if lid' = lid then (cview lid c)\<lparr>lk := l\<rparr> else cview lid' c)"
  "cview lid' (c\<lparr>pc_hp := (pc_hp c)(lid := h)\<rparr>) = (if lid' = lid then (cview lid c)\<lparr>hp := h\<rparr> else cview lid' c)"
  "cview lid' (c\<lparr>pc_cc := set_lock lid l (pc_cc c), pc_hp := (pc_hp c)(lid := h)\<rparr>) =
     (if lid' = lid then (cview lid c)\<lparr>lk := l, hp := h\<rparr> else cview lid' c)"
  by (simp_all add: cview_def put_at_def)

lemma hp_pcs [simp]: "x\<lparr>lk := l, hp := h, pcs := p\<rparr> = x\<lparr>lk := l, pcs := p, hp := h\<rparr>" for x :: lclient
  by (cases x) simp

lemma cview_sel [simp]: "lk (cview lid c) = pool_lock (pc_cc c) lid" "pcs (cview lid c) = pc_at c lid" "hp (cview lid c) = pc_hp c lid"
  by (simp_all add: cview_def)

lemma view_sel [simp]:
  "l_srv (view lid S) = srv_lock (p_srv S) lid" "l_cl (view lid S) i = cview lid (p_cl S i)" "pend_rv (view lid S) = p_rv S lid"
  "pend_rt (view lid S) = p_rt S lid" "revs (view lid S) = p_revs S lid" "rets (view lid S) = p_rets S lid"
  by (simp_all add: view_def)

lemma cview_upd: "(\<lambda>j. cview lid (if j = i then c else f j)) = (\<lambda>j. cview lid (f j))(i := cview lid c)"
  by auto

lemma cview_hp [simp]: "(cview lid c)\<lparr>lk := l, hp := pc_hp c lid\<rparr> = (cview lid c)\<lparr>lk := l\<rparr>"
  by (simp add: cview_def)

lemma cview_triv: "(\<lambda>j. cview lid (f j))(i := cview lid (f i)) = (\<lambda>j. cview lid (f j))"
  by auto

lemma cview_goes:
  "cview lid' (goes lid t (on_lock lid f (pc_cc c)) c) = (if lid' = lid then act t (f (lk (cview lid c))) (cview lid c) else cview lid' c)"
  by (cases "f (pool_lock (pc_cc c) lid)") (simp add: goes_def on_lock_def act_def cview_def put_at_def)

lemma on_lock_iff: "on_lock lid f c = (x, c') \<longleftrightarrow> (\<exists>l. f (pool_lock c lid) = (x, l) \<and> c' = set_lock lid l c)"
  by (cases "f (pool_lock c lid)") (auto simp: on_lock_def)

lemma on_lock_res_iff: "on_lock_res lid f c = Inr (x, c') \<longleftrightarrow> (\<exists>l. f (pool_lock c lid) = Inr (x, l) \<and> c' = set_lock lid l c)"
  by (cases "f (pool_lock c lid)") (auto simp: on_lock_res_def)

text \<open>Where a thread has the lock, the lock is in the table.\<close>

lemma held_in_pool:
  assumes "cl_inv (cview lid c)" "pc_at c lid t = Held"
  shows "c_pool (pc_cc c) lid \<noteq> None"
proof
  assume "c_pool (pc_cc c) lid = None"
  then have "lk (cview lid c) = clock_new" by (simp add: pool_lock_def)
  with cl_inv_front(1) [OF assms(1), of t] assms(2) show False by (simp add: clock_new_def)
qed

lemma release_on_iff:
  assumes "cl_inv (cview lid c)" "pc_at c lid t = Held"
  shows "release_on lid (pc_cc c) = Inr ((a, sig), cc) \<longleftrightarrow> (\<exists>l. lcc_release (pool_lock (pc_cc c) lid) = Inr (a, sig, l) \<and> cc = set_lock lid l (pc_cc c))"
proof -
  have "rbind y (\<lambda>(a, sig, l). Inr ((a, sig), l)) = Inr ((a, sig), l) \<longleftrightarrow> y = Inr (a, sig, l)" for y :: "(next_act \<times> nat option \<times> clock) res" and l
    by (cases y) auto
  then show ?thesis using held_in_pool [OF assms] by (auto simp: release_on_def on_lock_res_iff)
qed

lemma pcl_step_view:
  assumes "pcl_step lid c c'" "cl_inv (cview lid c)"
  shows "cl_step (cview lid c) (cview lid c') \<and> (\<forall>lid'. lid' \<noteq> lid \<longrightarrow> cview lid' c' = cview lid' c)"
  using assms(1)
proof cases
  case (enter t)
  then show ?thesis using cl_step.enter [of "cview lid c" t] by (simp add: acquire_on_def cview_goes)
next
  case (woken_first t)
  then show ?thesis using cl_step.woken_first [of "cview lid c" t] by (simp add: cview_goes)
next
  case (woken_behind t)
  then show ?thesis using cl_step.woken_behind [of "cview lid c" t] by (simp add: cview_goes)
next
  case (woken_retry t)
  then show ?thesis using cl_step.woken_retry [of "cview lid c" t] by (simp add: cview_goes)
next
  case (reply t st)
  then show ?thesis using cl_step.reply [of "cview lid c" t st] by (simp add: cview_goes)
next
  case (give_back t sig cc)
  then obtain l where "lcc_release (pool_lock (pc_cc c) lid) = Inr (Call_Release, sig, l)" "cc = set_lock lid l (pc_cc c)"
    using release_on_iff [OF assms(2)] by blast
  then show ?thesis using give_back cl_step.give_back [of "cview lid c" t sig l] by simp
next
  case (give_up t r sig cc)
  then obtain l where "lcc_release (pool_lock (pc_cc c) lid) = Inr (Return r, sig, l)" "cc = set_lock lid l (pc_cc c)"
    using release_on_iff [OF assms(2)] by blast
  then show ?thesis using give_up cl_step.give_up [of "cview lid c" t r sig l] by simp
next
  case (given_back t sig cc)
  then obtain l where "release_reply (pool_lock (pc_cc c) lid) = Inr (sig, l)" "cc = set_lock lid l (pc_cc c)"
    by (auto simp: on_lock_res_iff)
  then show ?thesis using given_back cl_step.given_back [of "cview lid c" t sig l] by simp
next
  case (revoked sig cc)
  then obtain l where "revoke_reply (pool_lock (pc_cc c) lid) = (sig, l)" "cc = set_lock lid l (pc_cc c)"
    by (auto simp: on_lock_iff)
  then show ?thesis using revoked cl_step.revoked [of "cview lid c" sig l] by simp
qed

text \<open>The converse: what one lock can do, the client can.\<close>

lemma cl_step_pool:
  assumes "cl_step (cview lid c) k" "cl_inv (cview lid c)"
  shows "\<exists>c'. pcl_step lid c c' \<and> cview lid c' = k"
  using assms(1)
proof cases
  case (enter t)
  then show ?thesis using pcl_step.enter [of c lid t] by (fastforce simp: acquire_on_def cview_goes)
next
  case (woken_first t)
  then show ?thesis using pcl_step.woken_first [of c lid t] by (fastforce simp: cview_goes)
next
  case (woken_behind t)
  then show ?thesis using pcl_step.woken_behind [of c lid t] by (fastforce simp: cview_goes)
next
  case (woken_retry t)
  then show ?thesis using pcl_step.woken_retry [of c lid t] by (fastforce simp: cview_goes)
next
  case (reply t st)
  then show ?thesis using pcl_step.reply [of c lid t st] by (fastforce simp: cview_goes)
next
  case (give_back t sig l)
  then have "release_on lid (pc_cc c) = Inr ((Call_Release, sig), set_lock lid l (pc_cc c))" using release_on_iff [OF assms(2), of t] by simp
  from pcl_step.give_back [OF _ this, of t] give_back show ?thesis by fastforce
next
  case (give_up t r sig l)
  then have "release_on lid (pc_cc c) = Inr ((Return r, sig), set_lock lid l (pc_cc c))" using release_on_iff [OF assms(2), of t] by simp
  from pcl_step.give_up [OF _ this, of t] give_up show ?thesis by fastforce
next
  case (given_back t sig l)
  then have "on_lock_res lid release_reply (pc_cc c) = Inr (sig, set_lock lid l (pc_cc c))" by (simp add: on_lock_res_iff)
  from pcl_step.given_back [OF _ this, of t] given_back show ?thesis by fastforce
next
  case (revoked sig l)
  then have "on_lock lid revoke_reply (pc_cc c) = (sig, set_lock lid l (pc_cc c))" by (simp add: on_lock_iff)
  from pcl_step.revoked [OF _ this] revoked show ?thesis by fastforce
qed


section \<open>All locks as an interleaving\<close>

lemma srv_lock_upd [simp]: "srv_lock (ls\<lparr>s_pool := (s_pool ls)(lid \<mapsto> l)\<rparr>) lid' = (if lid' = lid then l else srv_lock ls lid')"
  by (simp add: srv_lock_def)

lemma acquire_section_iff:
  "acquire_section lid i ls = Inr (x, ls') \<longleftrightarrow>
     (\<exists>l. acquire_lock i (srv_lock ls lid) = Inr (x, l) \<and> ls' = ls\<lparr>s_pool := (s_pool ls)(lid \<mapsto> l)\<rparr>)"
  by (cases "acquire_lock i (srv_lock ls lid)") (auto simp: acquire_section_def)

lemma release_section_ok:
  assumes "release_lock i (srv_lock ls lid) = Inr l"
  shows "release_section lid i ls = Inr (L_OK, ls\<lparr>s_pool := (s_pool ls)(lid \<mapsto> l)\<rparr>)"
  using assms by (auto simp: release_section_def srv_lock_def release_lock_def slock_new_def split: option.splits)

lemmas view_simps = only_def view_def put_cl_def cview_upd cview_triv on_lock_iff on_lock_res_iff

lemma release_same:
  assumes "pool_inv S" "pc_at (p_cl S i) lid t = Rel_Req \<or> pc_hp (p_cl S i) lid = H_Rel_Req" "release_section lid i (p_srv S) = Inr (st, srv)"
  shows "\<exists>l. release_lock i (l_srv (view lid S)) = Inr l \<and> st = L_OK \<and> srv = (p_srv S)\<lparr>s_pool := (s_pool (p_srv S))(lid \<mapsto> l)\<rparr>"
proof -
  have "lock_inv (view lid S)" using assms(1) by (simp add: pool_inv_def)
  from lock_takes(2) [OF this, of i t] assms(2) obtain l where "release_lock i (srv_lock (p_srv S) lid) = Inr l" by auto
  with release_section_ok [OF this] assms(3) show ?thesis by simp
qed

lemma pool_client_only:
  assumes "pool_inv S" "i \<noteq> []" "pcl_step lid (p_cl S i) c"
  shows "only lid S (put_cl i c S)"
proof -
  have "cl_inv (cview lid (p_cl S i))" using assms(1) lock_invD(1) [of "view lid S" i] by (simp add: pool_inv_def)
  from pcl_step_view [OF assms(3) this] have c: "cl_step (cview lid (p_cl S i)) (cview lid c)" "\<And>lid'. lid' \<noteq> lid \<Longrightarrow> cview lid' c = cview lid' (p_cl S i)" by auto
  then show ?thesis using lock_step.client [OF assms(2), of "view lid S" "cview lid c"] by (simp add: view_simps)
qed

lemma lock_at_step_only:
  assumes "lock_at_step lid S S'" "pool_inv S"
  shows "only lid S S'"
  using assms(1)
proof cases
  case (client i c)
  then show ?thesis using pool_client_only [OF assms(2)] by blast
next
  case (acquire i t st need srv)
  then obtain l where l: "acquire_lock i (srv_lock (p_srv S) lid) = Inr ((st, need), l)" "srv = (p_srv S)\<lparr>s_pool := (s_pool (p_srv S))(lid \<mapsto> l)\<rparr>"
    by (auto simp: acquire_section_iff)
  show ?thesis using acquire lock_step.acquire [of "view lid S" i t st need l] l by (simp add: view_simps)
next
  case (send_revoke n h)
  show ?thesis using send_revoke lock_step.send_revoke [of "view lid S" n] by (simp add: view_simps)
next
  case (revoke i n rel cc)
  then obtain l where l: "revoke_handler (pool_lock (pc_cc (p_cl S i)) lid) = (rel, l)" "cc = set_lock lid l (pc_cc (p_cl S i))"
    by (auto simp: on_lock_iff)
  show ?thesis using revoke lock_step.revoke [of "view lid S" i n rel l] l by (cases rel) (simp_all add: view_simps)
next
  case (release i t st srv)
  then obtain l where l: "release_lock i (l_srv (view lid S)) = Inr l" "st = L_OK" "srv = (p_srv S)\<lparr>s_pool := (s_pool (p_srv S))(lid \<mapsto> l)\<rparr>"
    using release_same [OF assms(2), of i lid t] by blast
  show ?thesis using release lock_step.release [of "view lid S" i t l] l by (simp add: view_simps)
next
  case (release_h i st srv)
  then obtain l where l: "release_lock i (l_srv (view lid S)) = Inr l" "st = L_OK" "srv = (p_srv S)\<lparr>s_pool := (s_pool (p_srv S))(lid \<mapsto> l)\<rparr>"
    using release_same [OF assms(2), of i lid] by blast
  show ?thesis using release_h lock_step.release_h [of "view lid S" i l] l by (simp add: view_simps)
next
  case (send_retry n h)
  show ?thesis using send_retry lock_step.send_retry [of "view lid S" n] by (simp add: view_simps)
next
  case (retry i n t cc)
  then obtain l where l: "retry_handler (pool_lock (pc_cc (p_cl S i)) lid) = Inr (t, l)" "cc = set_lock lid l (pc_cc (p_cl S i))"
    by (auto simp: on_lock_res_iff)
  show ?thesis using retry lock_step.retry [of "view lid S" i n t l] l by (simp add: view_simps)
qed


lemma lock_step_at:
  assumes "lock_step (view lid S) L" "pool_inv S"
  shows "\<exists>S'. lock_at_step lid S S' \<and> view lid S' = L"
  using assms(1)
proof cases
  case (client i c)
  have "cl_inv (cview lid (p_cl S i))" using assms(2) lock_invD(1) [of "view lid S" i] by (simp add: pool_inv_def)
  then obtain c' where "pcl_step lid (p_cl S i) c'" "cview lid c' = c"
    using cl_step_pool [of lid "p_cl S i" c] client(3) by auto
  then show ?thesis using lock_at_step.client [OF client(2)] client(1) by (intro exI [of _ "put_cl i c' S"]) (simp add: view_simps)
next
  case (acquire i t st need l)
  then have "acquire_section lid i (p_srv S) = Inr ((st, need), (p_srv S)\<lparr>s_pool := (s_pool (p_srv S))(lid \<mapsto> l)\<rparr>)"
    by (simp add: acquire_section_iff)
  from lock_at_step.acquire [OF _ this, of t] acquire show ?thesis by (auto simp: view_simps intro!: exI)
next
  case (send_revoke n)
  then show ?thesis using lock_at_step.send_revoke [of S lid n] by (auto simp: view_simps intro!: exI)
next
  case (revoke i n rel l)
  then have "on_lock lid revoke_handler (pc_cc (p_cl S i)) = (rel, set_lock lid l (pc_cc (p_cl S i)))" by (simp add: on_lock_iff)
  from lock_at_step.revoke [OF _ this, of n] revoke show ?thesis by (cases rel) (auto simp: view_simps intro!: exI)
next
  case (release i t l)
  then have "release_section lid i (p_srv S) = Inr (L_OK, (p_srv S)\<lparr>s_pool := (s_pool (p_srv S))(lid \<mapsto> l)\<rparr>)"
    using release_section_ok by simp
  from lock_at_step.release [OF _ this, of t] release show ?thesis by (auto simp: view_simps intro!: exI)
next
  case (release_h i l)
  then have "release_section lid i (p_srv S) = Inr (L_OK, (p_srv S)\<lparr>s_pool := (s_pool (p_srv S))(lid \<mapsto> l)\<rparr>)"
    using release_section_ok by simp
  from lock_at_step.release_h [OF _ this] release_h show ?thesis by (auto simp: view_simps intro!: exI)
next
  case (send_retry n)
  then show ?thesis using lock_at_step.send_retry [of S lid n] by (auto simp: view_simps intro!: exI)
next
  case (retry i n t l)
  then have "on_lock_res lid retry_handler (pc_cc (p_cl S i)) = Inr (t, set_lock lid l (pc_cc (p_cl S i)))" by (simp add: on_lock_res_iff)
  from lock_at_step.retry [OF _ this, of n] retry show ?thesis by (auto simp: view_simps intro!: exI)
qed

lemma only_inv:
  assumes "only lid S S'" "pool_inv S"
  shows "pool_inv S'"
  unfolding pool_inv_def
proof
  fix k
  have i: "lock_inv (view k S)" using assms(2) by (simp add: pool_inv_def)
  show "lock_inv (view k S')"
  proof (cases "k = lid")
    case True
    then show ?thesis using assms(1) i lock_step_inv [of "view lid S" "view lid S'"] by (simp add: only_def)
  qed (use assms(1) i in \<open>simp add: only_def\<close>)
qed

lemma reachable_pool:
  assumes "pool_step\<^sup>*\<^sup>* psys_init S"
  shows "pool_inv S \<and> (\<forall>lid. lock_step\<^sup>*\<^sup>* lsys_init (view lid S))"
  using assms
proof (induction rule: rtranclp_induct)
  case base
  show ?case by (simp add: pool_inv_def view_init lock_inv_init)
next
  case (step S S')
  then obtain lid where o: "only lid S S'" using lock_at_step_only by (auto simp: pool_step_def)
  have "lock_step\<^sup>*\<^sup>* lsys_init (view k S')" for k
  proof (cases "k = lid")
    case True
    have "lock_step (view lid S) (view lid S')" using o by (simp add: only_def)
    with step.IH True show ?thesis by (metis rtranclp.rtrancl_into_rtrancl)
  next
    case False
    then have "view k S' = view k S" using o by (simp add: only_def)
    with step.IH show ?thesis by simp
  qed
  then show ?case using only_inv [OF o] step.IH by blast
qed


lemma pool_invD: "pool_inv S \<Longrightarrow> lock_inv (view lid S)"
  by (simp add: pool_inv_def)

section \<open>Properties\<close>

text \<open>C2. Mutual exclusion, for every lock: whatever the clients, their threads, the server and the network do, at most one
  thread of one client has been granted a lock.\<close>

theorem pool_mutual_exclusion:
  assumes "pool_step\<^sup>*\<^sup>* psys_init S" "pc_at (p_cl S i) lid t = Held" "pc_at (p_cl S j) lid u = Held"
  shows "i = j \<and> t = u"
  using lock_mutual_exclusion [of "view lid S" i t j u] reachable_pool [OF assms(1)] assms(2,3) by simp



section \<open>A state with two locks\<close>

lemma pool_follows:
  assumes "lock_step\<^sup>*\<^sup>* (view lid S) L" "pool_step\<^sup>*\<^sup>* psys_init S"
  shows "\<exists>S'. pool_step\<^sup>*\<^sup>* psys_init S' \<and> view lid S' = L \<and> (\<forall>k. k \<noteq> lid \<longrightarrow> view k S' = view k S)"
  using assms(1)
proof (induction rule: rtranclp_induct)
  case (step L L')
  then obtain S' where S': "pool_step\<^sup>*\<^sup>* psys_init S'" "view lid S' = L" "\<forall>k. k \<noteq> lid \<longrightarrow> view k S' = view k S" by blast
  have i: "pool_inv S'" using reachable_pool [OF S'(1)] by blast
  have "lock_step (view lid S') L'" using step.hyps(2) S'(2) by simp
  from lock_step_at [OF this i] obtain S2 where S2: "lock_at_step lid S' S2" "view lid S2 = L'" by blast
  have "only lid S' S2" by (rule lock_at_step_only [OF S2(1) i])
  then have "\<forall>k. k \<noteq> lid \<longrightarrow> view k S2 = view k S" using S'(3) by (simp add: only_def)
  moreover have "pool_step S' S2" using S2(1) by (auto simp: pool_step_def)
  ultimately show ?case using rtranclp.rtrancl_into_rtrancl [OF S'(1)] S2(2) by blast
qed (use assms(2) in auto)

lemma two_locks:
  "\<exists>S. pool_step\<^sup>*\<^sup>* psys_init S \<and> view 7 S = granted ''a'' 1 \<and> view 8 S = granted ''b'' 2"
proof -
  have "lock_step\<^sup>*\<^sup>* (view 7 psys_init) (granted ''a'' 1)" unfolding view_init by (rule granted_reachable) simp
  from pool_follows [OF this] obtain S where S: "pool_step\<^sup>*\<^sup>* psys_init S" "view 7 S = granted ''a'' 1" "view 8 S = view 8 psys_init" by auto
  have "lock_step\<^sup>*\<^sup>* (view 8 S) (granted ''b'' 2)" unfolding S(3) view_init by (rule granted_reachable) simp
  from pool_follows [OF this S(1)] obtain S' where "pool_step\<^sup>*\<^sup>* psys_init S'" "view 8 S' = granted ''b'' 2" "view 7 S' = view 7 S" by auto
  then show ?thesis using S(2) by auto
qed

lemma granted_pc: "view lid S = granted i t \<Longrightarrow> pc_at (p_cl S i) lid t = Held"
  by (drule arg_cong [where f = "\<lambda>L. pcs (l_cl L i) t"]) (simp add: granted_def)

theorem pool_mutual_exclusion_witness:
  "\<exists>S. pool_step\<^sup>*\<^sup>* psys_init S \<and> {(j, u). pc_at (p_cl S j) 7 u = Held} = {(''a'', 1)} \<and> {(j, u). pc_at (p_cl S j) 8 u = Held} = {(''b'', 2)}"
proof -
  obtain S where S: "pool_step\<^sup>*\<^sup>* psys_init S" "view 7 S = granted ''a'' 1" "view 8 S = granted ''b'' 2" using two_locks by blast
  note h = granted_pc [OF S(2)] granted_pc [OF S(3)]
  show ?thesis using pool_mutual_exclusion [OF S(1) _ h(1)] pool_mutual_exclusion [OF S(1) _ h(2)] S(1) h by (intro exI [of _ S]) blast
qed




section \<open>Identities of clients\<close>

text \<open>The identity that a client announces is a name of its port, is never empty, and the port is not privileged.\<close>

lemma client_port:
  "1024 \<le> rlock_port (lock_client_cache_init rand now last_port) \<and> rlock_port (lock_client_cache_init rand now last_port) < 32768"
proof -
  let ?r = "int (rand (now XOR last_port)) mod 32000"
  have "?r < 2 ^ 15" using pos_mod_bound [of 32000 "int (rand (now XOR last_port))"] by simp
  then have "?r OR 1024 < 2 ^ 15" by (intro OR_upper) simp_all
  moreover have "1024 \<le> 1024 OR ?r" by (rule or_greater_eq) simp
  ultimately show ?thesis by (simp add: lock_client_cache_init_def Let_def push_bit_eq_mult or.commute)
qed

lemma client_identity:
  "lcc_id (lock_client_cache_init rand now last_port) \<noteq> []"
  "lcc_id (lock_client_cache_init rand now last_port) = lcc_id (lock_client_cache_init rand' now' last_port') \<longleftrightarrow>
     rlock_port (lock_client_cache_init rand now last_port) = rlock_port (lock_client_cache_init rand' now' last_port')"
proof -
  have id: "lcc_id (lock_client_cache_init r n l) = ''127.0.0.1:'' @ show_nat (nat (rlock_port (lock_client_cache_init r n l)))" for r n l
    by (simp add: lock_client_cache_init_def Let_def)
  then show "lcc_id (lock_client_cache_init rand now last_port) \<noteq> []" by simp
  have inj: "show_nat a = show_nat b \<longleftrightarrow> a = b" for a b using read_show_nat by metis
  show "lcc_id (lock_client_cache_init rand now last_port) = lcc_id (lock_client_cache_init rand' now' last_port') \<longleftrightarrow>
      rlock_port (lock_client_cache_init rand now last_port) = rlock_port (lock_client_cache_init rand' now' last_port')"
    using client_port [of rand now last_port] client_port [of rand' now' last_port'] by (auto simp: id inj)
qed


end
