(* ===== verification/Yfs_Locks.thy ===== *)
theory Yfs_Locks
  imports Yfs_Atomic Lock_Pool
begin

text \<open>
  The operations of \<^verbatim>\<open>yfs_client\<close> under the locks of the lock protocol.  A run interleaves the steps of the lock
  server and the caching lock clients with calls to the extent server; its history notes when a thread is
  granted a lock, when it starts to release it, and the calls with their results.  The protocol makes the locks
  of every such history exclude each other, so that the operations of all clients are atomic.
\<close>

section \<open>Runs\<close>

text \<open>
  A thread is a client and the condition variable that its call of \<^verbatim>\<open>acquire\<close> creates; \<open>owner\<close> is the thread that
  has a lock.
\<close>

type_synonym thread = "string \<times> nat"

definition has_lock :: "psys \<Rightarrow> u64 \<Rightarrow> thread \<Rightarrow> bool" where
  "has_lock S lid p \<longleftrightarrow> pc_at (p_cl S (fst p)) lid (snd p) = Held"

text \<open>What a step on a lock contributes to the history.\<close>

definition changes :: "u64 \<Rightarrow> psys \<Rightarrow> psys \<Rightarrow> (thread \<times> event) list \<Rightarrow> bool" where
  "changes lid S S' es \<longleftrightarrow> (\<exists>rs as. es = map (\<lambda>p. (p, Rel lid)) rs @ map (\<lambda>p. (p, Acq lid)) as \<and>
     distinct rs \<and> distinct as \<and> set rs = {p. has_lock S lid p \<and> \<not> has_lock S' lid p} \<and> set as = {p. \<not> has_lock S lid p \<and> has_lock S' lid p})"

inductive y_history :: "(nat \<Rightarrow> byte) \<Rightarrow> extent_server \<Rightarrow> psys \<Rightarrow> extent_server \<Rightarrow> (thread \<times> event) list \<Rightarrow> bool" for junk s0 where
  start: "y_history junk s0 psys_init s0 []"
| lock: "y_history junk s0 S s H \<Longrightarrow> lock_at_step lid S S' \<Longrightarrow> changes lid S S' es \<Longrightarrow> y_history junk s0 S' s (H @ es)"
| call: "y_history junk s0 S s H \<Longrightarrow> target e \<noteq> None \<Longrightarrow> serve junk s e = Some s' \<Longrightarrow> y_history junk s0 S s' (H @ [(p, e)])"

lemma history_reachable: "y_history junk s0 S s H \<Longrightarrow> pool_step\<^sup>*\<^sup>* psys_init S"
  by (induction rule: y_history.induct) (auto simp: pool_step_def intro: rtranclp.rtrancl_into_rtrancl)

lemma history_served: "y_history junk s0 S s H \<Longrightarrow> serve_run junk s0 (map snd H) = Some s"
proof (induction rule: y_history.induct)
  case (lock S s H lid S' es)
  have "serve_run junk t (map snd es) = Some t" for t
  proof -
    have "serve_run junk t (map snd (map (\<lambda>p. (p, Rel lid)) rs @ map (\<lambda>p. (p, Acq lid)) as)) = Some t" for rs as :: "thread list"
      by (induction rs) (induction as, auto)
    then show ?thesis using lock.hyps(3) by (auto simp: changes_def)
  qed
  then show ?case using lock.IH by (simp add: serve_run_append)
qed (auto simp: serve_run_append)

section \<open>The locks of a run exclude each other\<close>

lemma has_lock_view: "has_lock S lid p \<longleftrightarrow> pcs (l_cl (view lid S) (fst p)) (snd p) = Held"
  by (simp add: has_lock_def)

lemma distinct_one:
  assumes "distinct xs" "\<And>x y. x \<in> set xs \<Longrightarrow> y \<in> set xs \<Longrightarrow> x = y"
  shows "xs = [] \<or> (\<exists>x. xs = [x])"
proof (cases xs)
  case (Cons x ys)
  then show ?thesis using assms(1) assms(2) [of x "hd ys"] by (cases ys) simp_all
qed simp

lemma has_lock_unique:
  assumes "pool_step\<^sup>*\<^sup>* psys_init S" "has_lock S lid p" "has_lock S lid q"
  shows "p = q"
  using lock_mutual_exclusion [of "view lid S" "fst p" "snd p" "fst q" "snd q"] reachable_pool [OF assms(1)] assms(2,3)
  by (simp add: has_lock_def prod_eq_iff)

definition owner :: "psys \<Rightarrow> u64 \<rightharpoonup> thread" where
  "owner S lid = (if \<exists>p. has_lock S lid p then Some (THE p. has_lock S lid p) else None)"

lemma owner_iff:
  assumes "pool_step\<^sup>*\<^sup>* psys_init S"
  shows "owner S lid = Some p \<longleftrightarrow> has_lock S lid p"
proof -
  have "(THE q. has_lock S lid q) = q" if "has_lock S lid q" for q using that has_lock_unique [OF assms] by blast
  then show ?thesis unfolding owner_def by (metis option.distinct(1) option.inject)
qed

lemma lock_run_changes:
  assumes "pool_step\<^sup>*\<^sup>* psys_init S" "lock_at_step lid S S'" "changes lid S S' es"
  shows "lock_run (owner S) es = Some (owner S')"
proof -
  have S': "pool_step\<^sup>*\<^sup>* psys_init S'" using assms(1,2) by (meson pool_step_def rtranclp.rtrancl_into_rtrancl)
  have inv: "pool_inv S" using reachable_pool [OF assms(1)] by blast
  have "view k S' = view k S" if "k \<noteq> lid" for k using lock_at_step_only [OF assms(2) inv] that by (simp add: only_def)
  then have "has_lock S' k = has_lock S k" if "k \<noteq> lid" for k using that by (simp add: fun_eq_iff has_lock_view del: view_sel)
  then have other: "owner S' k = owner S k" if "k \<noteq> lid" for k using that by (simp add: owner_def)
  obtain rs as where es: "es = map (\<lambda>p. (p, Rel lid)) rs @ map (\<lambda>p. (p, Acq lid)) as" "distinct rs" "distinct as"
    "set rs = {p. has_lock S lid p \<and> \<not> has_lock S' lid p}" "set as = {p. \<not> has_lock S lid p \<and> has_lock S' lid p}"
    using assms(3) by (auto simp: changes_def)
  note u = has_lock_unique [OF assms(1)] has_lock_unique [OF S']
  note o = owner_iff [OF assms(1)] owner_iff [OF S']
  define x where "x = owner S' lid"
  have S'_owner: "owner S' = (owner S)(lid := x)" by (rule ext) (simp add: other x_def)
  have none: "owner T lid = None" if "\<And>p. \<not> has_lock T lid p" for T using that by (simp add: owner_def)
  have "x = y" if "x \<in> set rs" "y \<in> set rs" for x y using that u(1) [of lid x y] es(4) by simp
  with es(2) have rs: "rs = [] \<or> (\<exists>r. rs = [r])" by (rule distinct_one)
  have "x = y" if "x \<in> set as" "y \<in> set as" for x y using that u(2) [of lid x y] es(5) by simp
  with es(3) have as: "as = [] \<or> (\<exists>a. as = [a])" by (rule distinct_one)
  show ?thesis
  proof (cases "owner S lid")
    case None
    then have "\<not> has_lock S lid p" for p using o(1) [of lid p] by simp
    then have m: "rs = []" "\<And>p. p \<in> set as \<longleftrightarrow> has_lock S' lid p" using es(4,5) by simp_all
    show ?thesis
    proof (cases as)
      case Nil
      then have "owner S' lid = None" using m(2) none by simp
      then show ?thesis unfolding S'_owner using x_def None es(1) m(1) Nil by (simp add: fun_upd_idem)
    next
      case (Cons a as')
      then have a: "as = [a]" "owner S' lid = Some a" using as m(2) [of a] o(2) [of lid a] by auto
      then show ?thesis unfolding S'_owner using x_def None es(1) m(1) by simp
    qed
  next
    case (Some r)
    then have r: "has_lock S lid r" using o(1) by simp
    have only_r: "has_lock S lid p \<longleftrightarrow> p = r" for p using u(1) [of lid p r] r by auto
    show ?thesis
    proof (cases "has_lock S' lid r")
      case True
      have "has_lock S' lid p \<longleftrightarrow> p = r" for p using u(2) [of lid p r] True by auto
      then have "rs = []" "as = []" "owner S' lid = Some r" using es(4,5) only_r o(2) [of lid r] by simp_all
      then show ?thesis unfolding S'_owner using x_def Some es(1) by (simp add: fun_upd_idem)
    next
      case False
      then have rs: "rs = [r]" using rs es(4) only_r by auto
      have m: "p \<in> set as \<longleftrightarrow> has_lock S' lid p" for p using es(5) only_r False by auto
      show ?thesis
      proof (cases as)
        case Nil
        then have "owner S' lid = None" using m none by simp
        then show ?thesis unfolding S'_owner using x_def Some es(1) rs Nil by simp
      next
        case (Cons a as')
        then have "as = [a]" "owner S' lid = Some a" using as m [of a] o(2) [of lid a] by auto
        then show ?thesis unfolding S'_owner using x_def Some es(1) rs by simp
      qed
    qed
  qed
qed

lemma history_locks: "y_history junk s0 S s H \<Longrightarrow> lock_run Map.empty H = Some (owner S)"
proof (induction rule: y_history.induct)
  case start
  have "owner psys_init = Map.empty" by (rule ext) (simp add: owner_def has_lock_def psys_init_def)
  then show ?case by simp
next
  case (lock S s H lid S' es)
  then show ?case using lock_run_changes [OF history_reachable [OF lock.hyps(1)] lock.hyps(2,3)] by (simp add: lock_run_append)
next
  case (call S s H e s' p)
  have "lock_run (owner S) [(p, e)] = Some (owner S)" using call.hyps(2) by (cases e) simp_all
  then show ?case using call.IH by (simp add: lock_run_append)
qed


section \<open>A run of two clients\<close>

lemma history_step:
  assumes h: "y_history junk s0 S s H" and l: "lock_step (view lid S) L"
    and es: "es = map (\<lambda>p. (p, Rel lid)) rs @ map (\<lambda>p. (p, Acq lid)) as" "distinct rs" "distinct as"
      "set rs = {p. has_lock S lid p \<and> pcs (l_cl L (fst p)) (snd p) \<noteq> Held}" "set as = {p. \<not> has_lock S lid p \<and> pcs (l_cl L (fst p)) (snd p) = Held}"
  shows "\<exists>S'. y_history junk s0 S' s (H @ es) \<and> view lid S' = L \<and> (\<forall>k. k \<noteq> lid \<longrightarrow> view k S' = view k S)"
proof -
  have inv: "pool_inv S" using reachable_pool [OF history_reachable [OF h]] by blast
  obtain S' where S': "lock_at_step lid S S'" "view lid S' = L" using lock_step_at [OF l inv] by blast
  have "has_lock S' lid p \<longleftrightarrow> pcs (l_cl L (fst p)) (snd p) = Held" for p using S'(2) by (simp add: has_lock_view del: view_sel)
  then have "changes lid S S' es" using es by (auto simp: changes_def)
  from y_history.lock [OF h S'(1) this] lock_at_step_only [OF S'(1) inv] S'(2) show ?thesis by (auto simp: only_def)
qed

lemma history_acquire:
  assumes "y_history junk s0 S s H" "view lid S = lsys_init" "i \<noteq> []"
  shows "\<exists>S'. y_history junk s0 S' s (H @ [((i, t), Acq lid)]) \<and> view lid S' = granted i t \<and> (\<forall>k. k \<noteq> lid \<longrightarrow> view k S' = view k S)"
proof -
  obtain L1 L2 where L: "lock_step lsys_init L1" "lock_step L1 L2" "lock_step L2 (granted i t)"
    "\<forall>j u. pcs (l_cl L1 j) u \<noteq> Held" "\<forall>j u. pcs (l_cl L2 j) u \<noteq> Held" using granted_path [OF assms(3), of t] by blast
  have n: "\<not> has_lock S lid p" for p using assms(2) by (simp add: has_lock_view lsys_init_def del: view_sel)
  obtain S1 where S1: "y_history junk s0 S1 s (H @ [])" "view lid S1 = L1" "\<forall>k. k \<noteq> lid \<longrightarrow> view k S1 = view k S"
    using history_step [OF assms(1), of lid L1 "[]" "[]" "[]"] L(1,4) assms(2) n by auto
  have n1: "\<not> has_lock S1 lid p" for p using S1(2) L(4) by (simp add: has_lock_view del: view_sel)
  obtain S2 where S2: "y_history junk s0 S2 s (H @ [])" "view lid S2 = L2" "\<forall>k. k \<noteq> lid \<longrightarrow> view k S2 = view k S1"
    using history_step [OF S1(1), of lid L2 "[]" "[]" "[]"] L(2,5) S1(2) n1 by auto
  have n2: "\<not> has_lock S2 lid p" for p using S2(2) L(5) by (simp add: has_lock_view del: view_sel)
  have "{p. pcs (l_cl (granted i t) (fst p)) (snd p) = Held} = {(i, t)}" by (auto simp: granted_def lsys_init_def split: if_splits)
  then show ?thesis
    using history_step [OF S2(1), of lid "granted i t" "[((i, t), Acq lid)]" "[]" "[(i, t)]"] L(3) S2(2,3) S1(3) n2 by auto
qed

lemma history_release:
  assumes "y_history junk s0 S s H" "view lid S = granted i t" "i \<noteq> []"
  shows "\<exists>S'. y_history junk s0 S' s (H @ [((i, t), Rel lid)]) \<and> (\<forall>k. k \<noteq> lid \<longrightarrow> view k S' = view k S)"
proof -
  obtain L where L: "lock_step (granted i t) L" "\<forall>j u. pcs (l_cl L j) u \<noteq> Held" using granted_release [OF assms(3)] by blast
  have "{p. has_lock S lid p} = {(i, t)}" using assms(2) by (auto simp: has_lock_view granted_def lsys_init_def simp del: view_sel split: if_splits)
  then show ?thesis using history_step [OF assms(1), of lid L "[((i, t), Rel lid)]" "[(i, t)]" "[]"] L assms(2) by auto
qed




end
