(* ===== verification/Sockaddr.thy ===== *)
theory Sockaddr
  imports Lock_Pool
begin

text \<open>
  Socket addresses (\<^verbatim>\<open>make_sockaddr\<close> and the order of \<^verbatim>\<open>sockaddr_in\<close> in \<^verbatim>\<open>src/rpc/rpc.cc\<close>), by which the processes
  find each other: the lock server calls a client at the address that the client gives as its identity.
  The resolver of the system is a parameter.
\<close>

unbundle bit_operations_syntax

record sockaddr_in =
  sin_family :: u16
  sin_port :: u16
  s_addr :: u32

text \<open>\<open>inet_addr\<close> gives \<^verbatim>\<open>INADDR_NONE\<close> for a text that is not an address; \<open>gethostbyname\<close> gives the bytes at \<^verbatim>\<open>h_addr\<close>.\<close>

record resolver =
  inet_addr :: "string \<Rightarrow> u32"
  gethostbyname :: "string \<Rightarrow> byte list option"

abbreviation INADDR_NONE :: u32 where "INADDR_NONE \<equiv> 0xffffffff"
abbreviation AF_INET :: u16 where "AF_INET \<equiv> 2"

text \<open>\<^verbatim>\<open>htons\<close> on a little-endian machine, and \<^verbatim>\<open>atoi\<close>: blanks, a sign, digits.\<close>

definition htons :: "u16 \<Rightarrow> u16" where
  "htons w = push_bit 8 w OR drop_bit 8 w"

definition atoi :: "string \<Rightarrow> int" where
  "atoi s =
     (case dropWhile isspace s of
        [] \<Rightarrow> 0
      | c # r \<Rightarrow> if c = CHR ''-'' then - int (read_nat (takeWhile isdigit r))
                 else if c = CHR ''+'' then int (read_nat (takeWhile isdigit r))
                 else int (read_nat (takeWhile isdigit (c # r))))"

definition make_sockaddr_hp :: "resolver \<Rightarrow> string \<Rightarrow> string \<Rightarrow> sockaddr_in res" where
  "make_sockaddr_hp rs host port =
     (let p = htons (word_of_int (atoi port)); a = inet_addr rs host
      in if a \<noteq> INADDR_NONE then Inr \<lparr>sin_family = AF_INET, sin_port = p, s_addr = a\<rparr>
         else case gethostbyname rs host of
             None \<Rightarrow> Inl No_Return
           | Some bs \<Rightarrow> if length bs \<noteq> 4 then Inl No_Return
                        else Inr \<lparr>sin_family = AF_INET, sin_port = p, s_addr = of_le32 bs\<rparr>)"

text \<open>\<^verbatim>\<open>host\<close> has room for 200 characters, the final zero included; the argument is a C string.\<close>

definition make_sockaddr :: "resolver \<Rightarrow> string \<Rightarrow> sockaddr_in res" where
  "make_sockaddr rs s =
     (let s = takeWhile (\<lambda>c. c \<noteq> CHR 0x00) s
      in case find_char CHR '':'' s of
           None \<Rightarrow> make_sockaddr_hp rs ''127.0.0.1'' s
         | Some n \<Rightarrow> if 200 \<le> n then Inl Out_Of_Bounds else make_sockaddr_hp rs (take n s) (drop (Suc n) s))"

definition sockaddr_less :: "sockaddr_in \<Rightarrow> sockaddr_in \<Rightarrow> bool" where
  "sockaddr_less a b \<longleftrightarrow> s_addr a < s_addr b \<or> s_addr a = s_addr b \<and> sin_port a < sin_port b"

section \<open>Parsing\<close>

lemma atoi_show_nat: "atoi (show_nat n) = int n"
proof -
  have d: "\<forall>c \<in> set (show_nat n). isdigit c" using show_nat_digits by blast
  obtain c r where cr: "show_nat n = c # r" by (cases "show_nat n") auto
  have c: "isdigit c" using d cr by simp
  then have "\<not> isspace c" "c \<noteq> CHR ''-''" "c \<noteq> CHR ''+''" by (auto simp: isspace_def isdigit_def)
  moreover have "takeWhile isdigit (c # r) = c # r" using d cr by (simp add: takeWhile_eq_all_conv)
  ultimately show ?thesis using cr read_show_nat [of n] by (simp add: atoi_def)
qed

lemma htons_inj: "htons a = htons b \<longleftrightarrow> a = b"
proof
  have "htons (htons w) = w" for w unfolding htons_def by (rule bit_word_eqI) (auto simp: bit_simps)
  then show "htons a = htons b \<Longrightarrow> a = b" by metis
qed simp

lemma make_sockaddr_host_port:
  assumes "CHR '':'' \<notin> set host" "CHR 0x00 \<notin> set host" "CHR 0x00 \<notin> set port"
  shows "make_sockaddr rs (host @ '':'' @ port) = (if 200 \<le> length host then Inl Out_Of_Bounds else make_sockaddr_hp rs host port)"
proof -
  have t: "takeWhile (\<lambda>c. c \<noteq> CHR 0x00) (host @ '':'' @ port) = host @ '':'' @ port" using assms(2,3) by (auto simp: takeWhile_eq_all_conv)
  have "find_char CHR '':'' (host @ '':'' @ port) = Some (length host)" using assms(1) by (simp add: find_char_append)
  then show ?thesis unfolding make_sockaddr_def Let_def t by simp
qed

section \<open>Properties\<close>

text \<open>
  C38. \<^verbatim>\<open>host:port\<close> gives the address of the host and the port in network order, and a port alone the local
  host; different ports give different addresses, which the order on addresses tells apart.  A host of 200
  characters or more is written beyond the end of \<^verbatim>\<open>host\<close>.
\<close>

theorem make_sockaddr_correct:
  assumes "p < 65536" "CHR '':'' \<notin> set host" "CHR 0x00 \<notin> set host" "inet_addr rs host = a" "a \<noteq> INADDR_NONE"
  shows "make_sockaddr rs (host @ '':'' @ show_nat p) =
      (if 200 \<le> length host then Inl Out_Of_Bounds else Inr \<lparr>sin_family = AF_INET, sin_port = htons (of_nat p), s_addr = a\<rparr>) \<and>
    make_sockaddr rs (show_nat p) = make_sockaddr rs (''127.0.0.1:'' @ show_nat p) \<and>
    (\<forall>q < 65536. sockaddr_less \<lparr>sin_family = AF_INET, sin_port = htons (of_nat p), s_addr = a\<rparr> \<lparr>sin_family = AF_INET, sin_port = htons (of_nat q), s_addr = a\<rparr> \<or>
      sockaddr_less \<lparr>sin_family = AF_INET, sin_port = htons (of_nat q), s_addr = a\<rparr> \<lparr>sin_family = AF_INET, sin_port = htons (of_nat p), s_addr = a\<rparr> \<or> p = q)"
proof -
  have w: "word_of_int (int n) = (of_nat n :: u16)" for n by simp
  have d: "CHR 0x00 \<notin> set (show_nat p)" "CHR '':'' \<notin> set (show_nat p)" using show_nat_digits [of _ p] by (force simp: isdigit_def)+
  have t: "takeWhile (\<lambda>c. c \<noteq> CHR 0x00) (show_nat p) = show_nat p" "find_char CHR '':'' (show_nat p) = None"
    using d by (auto simp: takeWhile_eq_all_conv find_char_None_iff)
  have l: "''127.0.0.1:'' @ show_nat p = ''127.0.0.1'' @ '':'' @ show_nat p" by simp
  have "make_sockaddr rs (''127.0.0.1'' @ '':'' @ show_nat p) = make_sockaddr_hp rs ''127.0.0.1'' (show_nat p)"
    by (subst make_sockaddr_host_port) (use d(1) in simp_all)
  then have "make_sockaddr rs (show_nat p) = make_sockaddr rs (''127.0.0.1:'' @ show_nat p)"
    unfolding l by (simp add: make_sockaddr_def [of rs "show_nat p"] t)
  moreover have inj: "p = q" if "q < 65536" "(of_nat p :: u16) = of_nat q" for q
    using arg_cong [OF that(2), of unat] that(1) assms(1) by (simp add: unsigned_of_nat take_bit_eq_mod)
  moreover have "htons (of_nat p) < htons (of_nat q) \<or> htons (of_nat q) < htons (of_nat p) \<or> p = q" if "q < 65536" for q
    using inj [OF that] linorder_less_linear [of "htons (of_nat p)" "htons (of_nat q)"] by (auto simp: htons_inj)
  ultimately show ?thesis
    using make_sockaddr_host_port [OF assms(2,3) d(1), of rs] assms(4,5) by (auto simp: make_sockaddr_hp_def atoi_show_nat w sockaddr_less_def)
qed


theorem make_sockaddr_correct_witness:
  "make_sockaddr \<lparr>inet_addr = (\<lambda>_. 0x0100007f), gethostbyname = (\<lambda>_. None)\<rparr> ''127.0.0.1:5021'' =
     Inr \<lparr>sin_family = AF_INET, sin_port = 0x9d13, s_addr = 0x0100007f\<rparr>"
proof -
  let ?rs = "\<lparr>inet_addr = (\<lambda>_. 0x0100007f), gethostbyname = (\<lambda>_. None)\<rparr>"
  have h: "htons (of_nat 5021) = 0x9d13" by (simp add: htons_def)
  have s: "show_nat 5021 = ''5021''" by (simp add: show_nat.simps digit_simps)
  have "make_sockaddr ?rs (''127.0.0.1'' @ '':'' @ show_nat 5021) = Inr \<lparr>sin_family = AF_INET, sin_port = htons (of_nat 5021), s_addr = 0x0100007f\<rparr>"
    using make_sockaddr_correct [of 5021 "''127.0.0.1''" ?rs] by simp
  then show ?thesis unfolding h s by simp
qed

text \<open>The identity of a lock client is the address at which it listens.\<close>

lemma client_address:
  assumes "inet_addr rs ''127.0.0.1'' = a" "a \<noteq> INADDR_NONE"
  shows "make_sockaddr rs (lcc_id (lock_client_cache_init rand now last_port)) =
    Inr \<lparr>sin_family = AF_INET, sin_port = htons (word_of_int (rlock_port (lock_client_cache_init rand now last_port))), s_addr = a\<rparr>"
proof -
  let ?c = "lock_client_cache_init rand now last_port"
  have id: "lcc_id ?c = ''127.0.0.1'' @ '':'' @ show_nat (nat (rlock_port ?c))" by (simp add: lock_client_cache_init_def Let_def)
  have d: "CHR 0x00 \<notin> set (show_nat n)" for n using show_nat_digits [of _ n] by (force simp: isdigit_def)
  show ?thesis
    unfolding id by (subst make_sockaddr_host_port) (use assms d client_port [of rand now last_port] in \<open>simp_all add: make_sockaddr_hp_def atoi_show_nat\<close>)
qed


end
