(* ===== verification/Lock_Rpc.thy ===== *)
theory Lock_Rpc
  imports Lock_Client Extent_Rpc
begin

unbundle bit_operations_syntax

text \<open>
  The lock service over RPC: the calls that \<^verbatim>\<open>src/lock_client_cache.cc\<close> makes to the process of
  \<^verbatim>\<open>src/lock_smain.cc\<close>.  Over a link that delivers, each is the method of \<^verbatim>\<open>lock_server_cache\<close>, which is what
  the protocol of \<open>Lock_Protocol\<close> takes a call to be.  The calls of the older \<^verbatim>\<open>src/lock_client.cc\<close> do not
  fit the methods of that process.
\<close>

section \<open>The calls\<close>

definition lcc_call_acquire :: "'s transport \<Rightarrow> (nat \<Rightarrow> byte) \<Rightarrow> string \<Rightarrow> int \<Rightarrow> u64 \<Rightarrow> ('s, int \<times> int) op" where
  "lcc_call_acquire cl junk cid r lid = rpc_call2 cl junk (put_ull junk) (put_string junk) get_int lock_acquire_num lid cid r to_max"

definition lcc_call_release :: "'s transport \<Rightarrow> (nat \<Rightarrow> byte) \<Rightarrow> string \<Rightarrow> int \<Rightarrow> u64 \<Rightarrow> ('s, int \<times> int) op" where
  "lcc_call_release cl junk cid r lid = rpc_call2 cl junk (put_ull junk) (put_string junk) get_int lock_release_num lid cid r to_max"

lemma lock_smain_procs:
  assumes "lock_smain call junk nonce count r = Inr srv"
  shows "procs srv lock_stat_num = Some (handler1 get_ull (put_int junk) lsc_stat r)"
    "procs srv lock_release_num = Some (handler1 (get_pair get_ull get_string) (put_int junk) (\<lambda>(lid, cid). lsc_release call lid cid) r)"
    "procs srv lock_acquire_num = Some (handler1 (get_pair get_ull get_string) (put_int junk) (\<lambda>(lid, cid). lsc_acquire call lid cid) r)"
  using assms by (auto simp: lock_smain_def rpcs_init_def reg1_def handler_tuple [abs_def] fun_eq_iff)

lemma lock_smain_starts: "\<exists>srv. lock_smain call junk nonce count r = Inr srv \<and> srv_nonce srv = nonce \<and> reply_window srv = Map.empty"
  by (simp add: lock_smain_def rpcs_init_def reg1_def)

section \<open>Transparency\<close>

lemma acquire_lock_status: "acquire_lock cid lock = Inr ((b, n), lock') \<Longrightarrow> b \<in> {L_OK, L_RETRY}"
  by (auto simp: acquire_lock_def Let_def split: sstate.splits if_splits)

lemma acquire_status: "lsc_acquire call lid cid r0 ls = Inr ((b, r'), ls') \<Longrightarrow> b \<in> {L_OK, L_RETRY}"
  by (auto simp: lsc_acquire_def acquire_section_def andthen_def ret_def rbind_Inr_iff split: prod.splits if_splits dest!: acquire_lock_status)

lemma release_status: "lsc_release call lid cid r0 ls = Inr ((b, r'), ls') \<Longrightarrow> b \<in> {L_OK, L_NOENT}"
  by (auto simp: lsc_release_def andthen_def ret_def rbind_Inr_iff split: prod.splits if_splits)

lemma lock_wire_call:
  assumes "procs srv proc = Some (handler1 (get_pair get_ull get_string) (put_int junk) (\<lambda>(lid, cid). meth lid cid) r0)" "proc \<noteq> bind_proc"
    "link_good (Suc n) (c, srv, ls)" "length cid < 1000000" "meth lid cid r0 ls = Inr ((b, r'), ls')" "b \<in> {0..4}" "int32 r'"
  shows "\<exists>c' srv'. rpc_call2 (wire junk cmp k t) junk (put_ull junk) (put_string junk) get_int proc lid cid r to_max (c, srv, ls) =
      Inr ((b, r'), (c', srv', ls')) \<and> link_good n (c', srv', ls') \<and> procs srv' = procs srv"
proof -
  have len: "length ((\<lambda>(a, b). be64 a @ enc_string b) (lid, cid)) < 2147483000" "length (be32 (word_of_int r')) < 2147483000"
    using assms(4) by (simp_all add: enc_string_def be64_def)
  have b: "0 \<le> b" "int32 b" using assms(6) by (simp_all add: int32_def)
  obtain s' where "rpc_call1 (wire junk cmp k t) junk (put_pair (put_ull junk) (put_string junk)) get_int proc (lid, cid) r to_max (c, srv, ls) =
      Inr ((b, r'), s')" "link_good n s'" "procs (fst (snd s')) = procs srv" "snd (snd s') = ls'"
    using loop.remote_call [where s = "(c, srv, ls)" and r = r and junk = junk and cmp = cmp and k = k and t = t and ?r0.0 = r0 and o' = ls' and to = to_max and meth = "\<lambda>(lid, cid). meth lid cid",
      OF codec_pair [OF ull_codec.codec_axioms [of junk] string_codec.codec_axioms [of junk]] int_codec.codec_axioms [of junk] _ assms(2,3) _ _ len(1) _ assms(7) len(2) b]
      assms(1,4,5) by auto
  then show ?thesis unfolding rpc_call_tuple by (cases s') auto
qed

text \<open>
  C13. A call of the caching lock client to the lock server process, over a link that delivers, returns the
  status and the result of the method \<^verbatim>\<open>acquire\<close> or \<^verbatim>\<open>release\<close> of \<^verbatim>\<open>lock_server_cache\<close> for this lock and this
  client, and leaves the server's table as the method does.
\<close>

theorem lock_calls_transparent:
  assumes "lock_smain call junk nonce count r0 = Inr srv0" "procs srv = procs srv0" "link_good (Suc n) (c, srv, ls)" "length cid < 1000000"
  shows "(\<forall>b r' ls'. lsc_acquire call lid cid r0 ls = Inr ((b, r'), ls') \<and> int32 r' \<longrightarrow>
      (\<exists>c' srv'. lcc_call_acquire (wire junk cmp k t) junk cid r lid (c, srv, ls) = Inr ((b, r'), (c', srv', ls')) \<and>
        link_good n (c', srv', ls') \<and> procs srv' = procs srv0)) \<and>
    (\<forall>b r' ls'. lsc_release call lid cid r0 ls = Inr ((b, r'), ls') \<and> int32 r' \<longrightarrow>
      (\<exists>c' srv'. lcc_call_release (wire junk cmp k t) junk cid r lid (c, srv, ls) = Inr ((b, r'), (c', srv', ls')) \<and>
        link_good n (c', srv', ls') \<and> procs srv' = procs srv0))"
proof -
  note p = lock_smain_procs [OF assms(1), folded assms(2)]
  have ne: "lock_acquire_num \<noteq> bind_proc" "lock_release_num \<noteq> bind_proc" by simp_all
  have "0 \<le> b \<and> b \<le> 4" if "lsc_acquire call lid cid r0 ls = Inr ((b, r'), ls')" for b r' ls' using acquire_status [OF that] by auto
  moreover have "0 \<le> b \<and> b \<le> 4" if "lsc_release call lid cid r0 ls = Inr ((b, r'), ls')" for b r' ls' using release_status [OF that] by auto
  ultimately show ?thesis
    using lock_wire_call [OF p(3) ne(1) assms(3,4)] lock_wire_call [OF p(2) ne(2) assms(3,4)] assms(2)
    unfolding lcc_call_acquire_def lcc_call_release_def by auto
qed

lemma fresh_link:
  assumes "srv_nonce srv = 7" "reply_window srv = Map.empty"
  shows "link_good (Suc 0) ((rpcc_init 3 0 True)\<lparr>bind_done := True\<rparr>, srv, obj)"
  using rpcc_inv_init [of 3 0 True] assms
  by (auto simp: link_good_def link_ready_def rpcc_inv_def settled_def rpcc_init_def window_of_def isvalid_def request_clear_def)

theorem lock_calls_transparent_witness:
  "\<exists>srv c' srv'. lock_smain (\<lambda>cid f lid r ls. Inr ((0, r), ls)) demo_junk 7 0 0 = Inr srv \<and>
     lcc_call_acquire (wire demo_junk (\<lambda>_ _. 0) 0 5) demo_junk ''a'' 0 1 ((rpcc_init 3 0 True)\<lparr>bind_done := True\<rparr>, srv, lock_server_cache_init) =
       Inr ((L_OK, 0), (c', srv', \<lparr>nacquire = 0, s_pool = [1 \<mapsto> slock_new\<lparr>sl_state := LOCKED, holder := ''a''\<rparr>]\<rparr>))"
proof -
  let ?call = "\<lambda>cid f lid r (ls :: lock_server_cache). Inr ((0 :: int, r :: int), ls)"
  obtain srv where srv: "lock_smain ?call demo_junk 7 0 0 = Inr srv" "srv_nonce srv = 7" "reply_window srv = Map.empty"
    using lock_smain_starts [of ?call demo_junk 7 0 0] by blast
  have m: "lsc_acquire ?call 1 ''a'' 0 lock_server_cache_init = Inr ((L_OK, 0), \<lparr>nacquire = 0, s_pool = [1 \<mapsto> slock_new\<lparr>sl_state := LOCKED, holder := ''a''\<rparr>]\<rparr>)"
    by (simp add: lsc_acquire_def acquire_section_def acquire_lock_def srv_lock_def lock_server_cache_init_def slock_new_def andthen_def ret_def)
  from lock_calls_transparent [OF srv(1) refl fresh_link [OF srv(2,3)], where cid = "''a''" and ls = lock_server_cache_init and lid = 1 and cmp = "\<lambda>_ _. 0" and k = 0 and t = 5 and r = 0] m srv(1) show ?thesis by (auto simp: int32_def)
qed


section \<open>The older client\<close>

lemma be64_join: "\<exists>x. be64 x = be32 a @ be32 b"
proof -
  let ?x = "push_bit 32 (ucast a) OR ucast b :: u64"
  have "ucast (drop_bit 32 ?x) = a" by (rule bit_word_eqI) (auto simp: bit_simps dest: bit_imp_le_length)
  moreover have "ucast ?x = b" by (rule bit_word_eqI) (auto simp: bit_simps dest: bit_imp_le_length)
  ultimately show ?thesis unfolding be64_def by metis
qed

text \<open>A handler that reports a failure stops the server.\<close>

lemma loopback_abort:
  assumes "link_good (Suc n) (c, srv, obj)" "proc \<noteq> bind_proc" "procs srv proc = Some f" "message m"
    "\<And>u. u_good u \<Longrightarrow> u_rest u = drop 24 (take_buf m) \<Longrightarrow> f u (marshall_init junk) obj = Inr ((st, rep), obj')" "st < 0"
  shows "wire junk cmp k t proc m to (c, srv, obj) = Inl Verify_Failed"
proof -
  have r: "clt_nonce c \<noteq> 0" "c_srv_nonce c \<in> {0, srv_nonce srv}" "\<not> destroy_wait c" "bind_done c" "\<forall>r \<in> set (window_of srv (clt_nonce c)). r_xid r < next_xid c"
    using assms(1) by (simp_all add: link_good_def link_ready_def)
  let ?h = "\<lparr>rq_xid = next_xid c, rq_proc = proc, rq_clt_nonce = clt_nonce c, rq_srv_nonce = c_srv_nonce c, rq_xid_rep = hd (xid_rep_window c)\<rparr>"
  obtain req' where q: "pack_req_header junk ?h m = Inr req'" "length (take_buf req') = m_ind m" "drop 24 (take_buf req') = drop 24 (take_buf m)"
    using req_header_read [OF assms(4), of junk ?h] by blast
  obtain c1 where b: "call1_begin junk proc m c = Inr (Inr (next_xid c, req', hd (xid_rep_window c)), c1)"
    using q(1) assms(2) r(3,4) by (simp add: call1_begin_def Let_def)
  note pr = proper_request [OF assms(4) b]
  have len: "24 \<le> length (take_buf req')" "length (take_buf req') < 2147483648" using q(2) assms(4) by (simp_all add: message_def)
  note g = take_in_good [OF len]
  have f: "f (take_in (unmarshall_of (take_buf req'))) (marshall_init junk) obj = Inr ((st, rep), obj')"
    using assms(5) [OF g(1)] g(2) q(3) by simp
  have "u_ok (take_in (unmarshall_of (take_buf req')))" using g(1) by (simp add: u_good_def)
  then obtain srv1 where e: "dispatch_begin junk \<lparr>isdead = \<lambda>_. False, conn_compare = cmp\<rparr> k (take_buf req') srv =
      Inr (Execute ?h (take_in (unmarshall_of (take_buf req'))) f, srv1)"
    using dispatch_prompt [where f = f and junk = junk and srv = srv and k = k and cmp = cmp and st = 0 and rep = "marshall_init junk", OF pr] r assms(3)
    by (auto simp: int32_def)
  show ?thesis using b e f assms(6) by (simp add: loopback_def dispatch_def dispatch_end_def)
qed

text \<open>
  C22. The calls of \<^verbatim>\<open>lock_client\<close> do not fit the process of \<^verbatim>\<open>lock_smain\<close>: \<^verbatim>\<open>lock_client::stat\<close> sends its nonce and
  the lock, \<^verbatim>\<open>lock_server_cache::stat\<close> reads only a lock, so the handler reports that it cannot read its
  arguments and the server aborts.
\<close>

theorem lock_stat_aborts:
  assumes "lock_smain call junk nonce count r0 = Inr srv0" "procs srv = procs srv0" "link_good (Suc n) (c, srv, ls)"
  shows "lc_stat (wire junk cmp k t) junk clt r lid (c, srv, ls) = Inl Verify_Failed"
proof -
  note pair = codec_pair [OF uint_codec.codec_axioms [of junk] ull_codec.codec_axioms [of junk]]
  obtain m where m: "put_pair (put_uint junk) (put_ull junk) (clt, lid) (marshall_init junk) = Inr m" "message m" "drop 24 (take_buf m) = be32 clt @ be64 lid"
    using codec.put_message [OF pair, of "(clt, lid)" junk] by (auto simp: message_def be64_def)
  have h: "handler1 get_ull (put_int junk) lsc_stat r0 u (marshall_init junk) ls = Inr ((unmarshal_args_failure, marshall_init junk), ls)"
    if u: "u_good u" "u_rest u = drop 24 (take_buf m)" for u
  proof -
    obtain lid' where "be64 lid' = be32 clt @ be32 (ucast (drop_bit 32 lid))" using be64_join by metis
    then have "u_rest u = be64 lid' @ be32 (ucast lid)" using u(2) m(3) by (simp add: be64_def [of lid])
    then obtain u' where g: "get_ull u = Inr (lid', u')" "u_good u'" "u_rest u' = be32 (ucast lid)" using ull_codec.get_law [OF u(1)] by blast
    then have "\<not> okdone u'" using okdone_iff [OF g(2)] by (auto simp: be32_def)
    then show ?thesis using g(1) by (simp add: handler1_def)
  qed
  have "wire junk cmp k t lock_stat_num m 120000 (c, srv, ls) = Inl Verify_Failed"
    by (rule loopback_abort [OF assms(3) _ _ m(2), where f = "handler1 get_ull (put_int junk) lsc_stat r0" and st = unmarshal_args_failure, OF _ _ h]) (use lock_smain_procs(1) [OF assms(1)] assms(2) in simp_all)
  then show ?thesis
    using m(1) by (simp add: lc_stat_def lock_client_call_def rpc_call_tuple rpc_call1_def call_m_def andthen_def)
qed


theorem lock_stat_aborts_witness:
  "\<exists>srv. lock_smain (\<lambda>cid f lid r ls. Inr ((0, r), ls)) demo_junk 7 0 0 = Inr srv \<and>
     lc_stat (wire demo_junk (\<lambda>_ _. 0) 0 5) demo_junk 3 0 1 ((rpcc_init 3 0 True)\<lparr>bind_done := True\<rparr>, srv, lock_server_cache_init) = Inl Verify_Failed"
proof -
  let ?call = "\<lambda>cid f lid r (ls :: lock_server_cache). Inr ((0 :: int, r :: int), ls)"
  obtain srv where srv: "lock_smain ?call demo_junk 7 0 0 = Inr srv" "srv_nonce srv = 7" "reply_window srv = Map.empty"
    using lock_smain_starts [of ?call demo_junk 7 0 0] by blast
  from lock_stat_aborts [OF srv(1) refl fresh_link [OF srv(2,3)], where clt = 3 and lid = 1 and cmp = "\<lambda>_ _. 0" and k = 0 and t = 5 and r = 0] srv(1) show ?thesis by blast
qed


end
