(* ===== verification/Connect.thy ===== *)
theory Connect
  imports Sockaddr Lock_Rpc
begin

text \<open>
  How clients and servers meet: \<^verbatim>\<open>rpcc::bind\<close> of \<^verbatim>\<open>src/rpc/rpc.cc\<close> and the constructors of \<^verbatim>\<open>extent_client\<close>
  (\<^verbatim>\<open>src/extent_client.cc\<close>) and \<^verbatim>\<open>lock_client\<close> (\<^verbatim>\<open>src/lock_client.cc\<close>), which resolve an address, make an
  RPC client and bind it.  Bound to a server process that has just started, the client is in the state from
  which the theorems on remote calls start.
\<close>

section \<open>Binding\<close>

text \<open>\<open>r\<close> is the uninitialised local variable of \<^verbatim>\<open>bind\<close>.\<close>

definition rpcc_bind :: "(rpcc \<times> 'b) transport \<Rightarrow> (nat \<Rightarrow> byte) \<Rightarrow> int \<Rightarrow> int \<Rightarrow> (rpcc \<times> 'b, int) op" where
  "rpcc_bind cl junk r to s =
     rbind (rpc_call1 cl junk (put_int junk) get_int bind_proc 0 r to s) (\<lambda>((st, r), (c, w)).
     Inr (st, (bind_result r st c, w)))"

text \<open>\<open>net a\<close> is the transport to address \<open>a\<close>; a failure of \<^verbatim>\<open>bind\<close> is only printed.\<close>

definition extent_client_init :: "resolver \<Rightarrow> (sockaddr_in \<Rightarrow> (rpcc \<times> 'b) transport) \<Rightarrow> (nat \<Rightarrow> byte) \<Rightarrow> int \<Rightarrow> u32 \<Rightarrow> int \<Rightarrow> string \<Rightarrow> 'b \<Rightarrow> (rpcc \<times> 'b) res" where
  "extent_client_init rs net junk r nonce lossy dst w =
     rbind (make_sockaddr rs dst) (\<lambda>a.
     rbind (rpcc_bind (net a) junk r to_max (rpcc_init nonce lossy True, w)) (\<lambda>(st, s). Inr s))"

definition lock_client_init :: "resolver \<Rightarrow> (sockaddr_in \<Rightarrow> (rpcc \<times> 'b) transport) \<Rightarrow> (nat \<Rightarrow> byte) \<Rightarrow> int \<Rightarrow> u32 \<Rightarrow> int \<Rightarrow> string \<Rightarrow> 'b \<Rightarrow> (rpcc \<times> 'b) res" where
  "lock_client_init rs net junk r nonce lossy dst w =
     rbind (make_sockaddr rs dst) (\<lambda>a.
     rbind (rpcc_bind (net a) junk r to_max (rpcc_init nonce lossy True, w)) (\<lambda>(st, s). Inr s))"

section \<open>A link is ready once it is bound\<close>

definition binds :: "(nat \<Rightarrow> byte) \<Rightarrow> int \<Rightarrow> 'o rpcs \<Rightarrow> bool" where
  "binds junk r srv \<longleftrightarrow> procs srv bind_proc = Some (handler1 get_int (put_int junk) (rpcbind (srv_nonce srv)) r)"

lemma bind_ready:
  assumes "link_ready (Suc n) (c, srv, obj)" "\<not> bind_done c" "binds junk r0 srv"
  shows "\<exists>c' srv'. rpcc_bind (wire junk cmp k t) junk r to_max (c, srv, obj) = Inr (0, (c', srv', obj)) \<and>
    link_good n (c', srv', obj) \<and> procs srv' = procs srv"
proof -
  let ?f = "handler1 get_int (put_int junk) (rpcbind (srv_nonce srv)) r0" and ?v = "sint (srv_nonce srv)"
  have v: "int32 ?v" "int32 0" using sint_ge [of "srv_nonce srv"] sint_lt [of "srv_nonce srv"] by (simp_all add: int32_def)
  obtain m where m: "put_int junk 0 (marshall_init junk) = Inr m" "message m" "drop 24 (take_buf m) = be32 (word_of_int 0)"
    using int_codec.put_message [OF v(2), of junk junk] by (auto simp: message_def)
  obtain rep where rep: "put_int junk ?v (marshall_init junk) = Inr rep" "message rep" "drop 24 (take_buf rep) = be32 (word_of_int ?v)"
    using int_codec.put_message [OF v(1), of junk junk] by (auto simp: message_def)
  have h: "?f u (marshall_init junk) obj = Inr ((0, rep), obj)" if u: "u_good u" "u_rest u = drop 24 (take_buf m)" for u
  proof -
    obtain u' where g: "get_int u = Inr (0, u')" "u_good u'" "u_rest u' = []" using int_codec.get_law [OF u(1) v(2), of "[]"] u(2) m(3) by auto
    then show ?thesis using okdone_iff [OF g(2)] rep(1) by (simp add: handler1_def rpcbind_def)
  qed
  have pre: "bind_done c \<longleftrightarrow> bind_proc \<noteq> bind_proc" "0 \<le> to_max" "procs srv bind_proc = Some ?f" "0 \<le> (0 :: int)"
    using assms(2,3) by (simp_all add: binds_def)
  obtain c' srv' b where l: "wire junk cmp k t bind_proc m to_max (c, srv, obj) = Inr ((0, take_in (unmarshall_of b)), (c', srv', obj))"
    "link_ready n (c', srv', obj)" "procs srv' = procs srv" "srv_nonce srv' = srv_nonce srv" "reply_is b (next_xid c) 0" "drop 24 b = drop 24 (take_buf rep)"
    using loopback_call [where f = ?f and st = 0 and cmp = cmp and k = k and t = t, OF assms(1) pre(1-3) m(2) h pre(4) v(2) rep(2)] by blast
  have "24 \<le> length b" "length b < 2147483648" using l(5) by (simp_all add: reply_is_def)
  note g = take_in_good [OF this]
  obtain u' where u': "get_int (take_in (unmarshall_of b)) = Inr (?v, u')" "u_good u'" "u_rest u' = []"
    using int_codec.get_law [OF g(1) v(1), of "[]"] g(2) l(6) rep(3) by auto
  have "rpcc_bind (wire junk cmp k t) junk r to_max (c, srv, obj) = Inr (0, (bind_result ?v 0 c', srv', obj))"
    using m(1) l(1) u' okdone_iff [OF u'(2)] by (simp add: rpcc_bind_def rpc_call1_def call_m_def)
  moreover have "link_good n (bind_result ?v 0 c', srv', obj)"
  proof -
    have "rpcc_inv (bind_result ?v 0 c') = rpcc_inv c'" by (simp add: bind_result_def rpcc_inv_def settled_def)
    then show ?thesis using l(2,4) by (simp add: link_good_def link_ready_def bind_result_def)
  qed
  ultimately show ?thesis using l(3) by blast
qed

lemma fresh_ready:
  assumes "nonce \<noteq> 0" "reply_window srv = Map.empty"
  shows "link_ready 4294967294 (rpcc_init nonce 0 True, srv, obj)" "\<not> bind_done (rpcc_init nonce 0 True)"
  using rpcc_inv_init [of nonce 0 True] assms
  by (auto simp: link_ready_def rpcc_inv_def settled_def rpcc_init_def window_of_def isvalid_def request_clear_def)

lemma smain_binds:
  "extent_smain junk nonce count ui = Inr srv \<Longrightarrow> \<exists>r. binds junk r srv" "extent_smain junk nonce count ui = Inr srv \<Longrightarrow> reply_window srv = Map.empty"
  "lock_smain call junk nonce count r0 = Inr lsrv \<Longrightarrow> \<exists>r. binds junk r lsrv" "lock_smain call junk nonce count r0 = Inr lsrv \<Longrightarrow> reply_window lsrv = Map.empty"
  by (auto simp: extent_smain_def lock_smain_def rpcs_init_def reg1_def binds_def)

lemma connects:
  assumes "nonce \<noteq> 0" "binds junk r0 srv" "reply_window srv = Map.empty"
  shows "\<exists>c' srv'. rpcc_bind (wire junk cmp k t) junk r to_max (rpcc_init nonce 0 True, srv, obj) = Inr (0, (c', srv', obj)) \<and>
    link_good 4294967293 (c', srv', obj) \<and> procs srv' = procs srv"
  using bind_ready [of 4294967293 "rpcc_init nonce 0 True" srv obj junk r0] fresh_ready(1) [OF assms(1,3), of obj] fresh_ready(2) [OF assms(1,3)] assms(2) by simp

text \<open>
  C16. The constructors of the two clients, given an address that resolves to a server process that has just
  started, leave an RPC client that is bound to it and ready for more than four billion calls; the objects
  of the servers are untouched.
\<close>

theorem clients_connect:
  assumes "make_sockaddr rs dst = Inr a" "nonce \<noteq> 0" "extent_smain junk n1 count ui = Inr srv" "lock_smain call junk n2 count r0 = Inr lsrv"
  shows "(\<exists>c srv'. extent_client_init rs (\<lambda>_. wire junk cmp k t) junk r nonce 0 dst (srv, es) = Inr (c, srv', es) \<and>
      link_good 4294967293 (c, srv', es) \<and> procs srv' = procs srv) \<and>
    (\<exists>c srv'. lock_client_init rs (\<lambda>_. wire junk cmp k t) junk r nonce 0 dst (lsrv, ls) = Inr (c, srv', ls) \<and>
      link_good 4294967293 (c, srv', ls) \<and> procs srv' = procs lsrv)"
proof
  obtain r1 where "binds junk r1 srv" using smain_binds(1) [OF assms(3)] by blast
  from connects [OF assms(2) this smain_binds(2) [OF assms(3)], of cmp k t r es]
  show "\<exists>c srv'. extent_client_init rs (\<lambda>_. wire junk cmp k t) junk r nonce 0 dst (srv, es) = Inr (c, srv', es) \<and>
      link_good 4294967293 (c, srv', es) \<and> procs srv' = procs srv"
    using assms(1) by (auto simp: extent_client_init_def)
  obtain r2 where "binds junk r2 lsrv" using smain_binds(3) [OF assms(4)] by blast
  from connects [OF assms(2) this smain_binds(4) [OF assms(4)], of cmp k t r ls]
  show "\<exists>c srv'. lock_client_init rs (\<lambda>_. wire junk cmp k t) junk r nonce 0 dst (lsrv, ls) = Inr (c, srv', ls) \<and>
      link_good 4294967293 (c, srv', ls) \<and> procs srv' = procs lsrv"
    using assms(1) by (auto simp: lock_client_init_def)
qed


theorem clients_connect_witness:
  "\<exists>srv c srv'. lock_smain (\<lambda>cid f lid r ls. Inr ((0, r), ls)) demo_junk 7 0 0 = Inr srv \<and>
     lock_client_init \<lparr>inet_addr = (\<lambda>_. 0x0100007f), gethostbyname = (\<lambda>_. None)\<rparr> (\<lambda>_. wire demo_junk (\<lambda>_ _. 0) 0 5) demo_junk 9 3 0 ''5021'' (srv, lock_server_cache_init) =
       Inr (c, srv', lock_server_cache_init) \<and> bind_done c"
proof -
  let ?call = "\<lambda>cid f lid r (ls :: lock_server_cache). Inr ((0 :: int, r :: int), ls)"
  let ?rs = "\<lparr>inet_addr = (\<lambda>_. 0x0100007f), gethostbyname = (\<lambda>_. None)\<rparr>"
  let ?ui = "\<lparr>ui_id = 0, ui_buf = [], ui_attr = \<lparr>a_type = 0, a_atime = 0, a_mtime = 0, a_ctime = 0, a_size = 0\<rparr>, ui_r = 0\<rparr>"
  obtain srv where srv: "lock_smain ?call demo_junk 7 0 0 = Inr srv" using lock_smain_starts [of ?call demo_junk 7 0 0] by blast
  obtain esrv where es: "extent_smain demo_junk 8 0 ?ui = Inr esrv" using extent_smain_procs [of demo_junk 8 0 ?ui] by blast
  have a: "make_sockaddr ?rs ''5021'' = Inr \<lparr>sin_family = AF_INET, sin_port = htons (word_of_int (atoi ''5021'')), s_addr = 0x0100007f\<rparr>"
    by (simp add: make_sockaddr_def make_sockaddr_hp_def)
  have "(3 :: u32) \<noteq> 0" by simp
  from clients_connect [OF a this es srv, where cmp = "\<lambda>_ _. 0" and k = 0 and t = 5 and r = 9 and ls = lock_server_cache_init, THEN conjunct2] srv
  show ?thesis by (auto simp: link_good_def)
qed


end
