(* ===== verification/Handle.thy ===== *)
theory Handle
  imports Lock_Server
begin

text \<open>
  The cache of RPC connections (\<^verbatim>\<open>src/handle.cc\<close>, \<^verbatim>\<open>src/handle.h\<close>) that the lock server calls its clients
  through.  Entries (\<^verbatim>\<open>struct hinfo\<close>) and connections (\<^verbatim>\<open>rpcc\<close>) are heap objects: pointers are numbers, and
  using a pointer to an object that has been deleted is a fault.  Each method runs under the mutex of the
  manager or of one entry; a step relation interleaves them over any number of \<^verbatim>\<open>handle\<close> objects.
\<close>

section \<open>Entries and operations\<close>

record hinfo =
  h_cl :: "nat option"
  refcnt :: int
  del :: bool
  h_m :: string

record handle_mgr =
  hmap :: "string \<rightharpoonup> nat"
  hinfos :: "nat \<rightharpoonup> hinfo"
  rpccs :: "nat set"

definition handle_mgr_init :: handle_mgr where
  "handle_mgr_init = \<lparr>hmap = Map.empty, hinfos = Map.empty, rpccs = {}\<rparr>"

text \<open>\<^verbatim>\<open>*h\<close>.\<close>

definition deref :: "nat \<Rightarrow> (handle_mgr, hinfo) op" where
  "deref p s = (case hinfos s p of None \<Rightarrow> Inl Null_Deref | Some h \<Rightarrow> Inr (h, s))"

definition store :: "nat \<Rightarrow> hinfo \<Rightarrow> (handle_mgr, unit) op" where
  "store p h s = Inr ((), s\<lparr>hinfos := (hinfos s)(p \<mapsto> h)\<rparr>)"

text \<open>\<open>new\<close> is the address that \<^verbatim>\<open>new hinfo\<close> returns.\<close>

definition get_handle :: "nat \<Rightarrow> string \<Rightarrow> (handle_mgr, nat option) op" where
  "get_handle new m s =
     (case hmap s m of
        None \<Rightarrow> Inr (Some new, s\<lparr>hinfos := (hinfos s)(new \<mapsto> \<lparr>h_cl = None, refcnt = 1, del = False, h_m = m\<rparr>),
                                hmap := (hmap s)(m \<mapsto> new)\<rparr>)
      | Some p \<Rightarrow> andthen (deref p) (\<lambda>h.
          if \<not> del h then andthen (store p (h\<lparr>refcnt := refcnt h + 1\<rparr>)) (\<lambda>_. ret (Some p)) else ret None) s)"

definition delete_handle_wo :: "string \<Rightarrow> (handle_mgr, unit) op" where
  "delete_handle_wo m s =
     (case hmap s m of
        None \<Rightarrow> Inr ((), s)
      | Some p \<Rightarrow> andthen (deref p) (\<lambda>h.
          if refcnt h = 0 then
            (\<lambda>s. Inr ((), s\<lparr>rpccs := (case h_cl h of None \<Rightarrow> rpccs s | Some c \<Rightarrow> rpccs s - {c}),
                            hmap := (hmap s)(m := None), hinfos := (hinfos s)(p := None)\<rparr>))
          else store p (h\<lparr>del := True\<rparr>)) s)"

definition done_handle :: "nat \<Rightarrow> (handle_mgr, unit) op" where
  "done_handle p =
     andthen (deref p) (\<lambda>h.
     andthen (store p (h\<lparr>refcnt := refcnt h - 1\<rparr>)) (\<lambda>_.
     if refcnt h - 1 = 0 \<and> del h then delete_handle_wo (h_m h) else ret ()))"

definition delete_handle :: "string \<Rightarrow> (handle_mgr, unit) op" where
  "delete_handle m = delete_handle_wo m"

text \<open>
  \<^verbatim>\<open>safebind\<close> up to the call of \<^verbatim>\<open>bind\<close> (\<open>None\<close>: it has to be called) and from there; \<open>c\<close> is the address of the new
  \<^verbatim>\<open>rpcc\<close> and \<open>r\<close> what its \<^verbatim>\<open>bind\<close> returns.
\<close>

definition safebind_check :: "nat \<Rightarrow> (handle_mgr, nat option option) op" where
  "safebind_check p =
     andthen (deref p) (\<lambda>h.
     if del h then ret (Some None)
     else if h_cl h \<noteq> None then ret (Some (h_cl h))
     else ret None)"

definition safebind_bound :: "nat \<Rightarrow> int \<Rightarrow> nat \<Rightarrow> (handle_mgr, nat option) op" where
  "safebind_bound c r p =
     andthen (deref p) (\<lambda>h.
     if r < 0 then andthen (store p (h\<lparr>del := True\<rparr>)) (\<lambda>_. ret (h_cl h))
     else andthen (store p (h\<lparr>h_cl := Some c\<rparr>)) (\<lambda>_ s. Inr (Some c, s\<lparr>rpccs := insert c (rpccs s)\<rparr>)))"

definition safebind :: "nat \<Rightarrow> int \<Rightarrow> nat option \<Rightarrow> (handle_mgr, nat option) op" where
  "safebind c r ho =
     (case ho of
        None \<Rightarrow> ret None
      | Some p \<Rightarrow> andthen (safebind_check p) (\<lambda>x. case x of Some cl \<Rightarrow> ret cl | None \<Rightarrow> safebind_bound c r p))"

definition handle_destroy :: "nat option \<Rightarrow> (handle_mgr, unit) op" where
  "handle_destroy ho = (case ho of None \<Rightarrow> ret () | Some p \<Rightarrow> done_handle p)"

text \<open>
  \<^verbatim>\<open>lock_server_cache::call_client\<close>: \<open>call\<close> is \<^verbatim>\<open>cl->call(func, lid, r)\<close> on a connection; the destructor of the
  handle runs on both ways out.
\<close>

definition call_client :: "(nat \<Rightarrow> u32 \<Rightarrow> u64 \<Rightarrow> int \<Rightarrow> int \<times> int) \<Rightarrow> nat \<Rightarrow> nat \<Rightarrow> int \<Rightarrow> string \<Rightarrow> u32 \<Rightarrow> u64 \<Rightarrow> int \<Rightarrow>
    (handle_mgr, int \<times> int) op" where
  "call_client call new c b cid func lid r =
     andthen (get_handle new cid) (\<lambda>ho.
     andthen (safebind c b ho) (\<lambda>cl.
     if cl \<noteq> None then
       andthen (safebind c b ho) (\<lambda>cl.
       case cl of
         None \<Rightarrow> (\<lambda>s. Inl Null_Deref)
       | Some k \<Rightarrow> andthen (handle_destroy ho) (\<lambda>_. ret (call k func lid r)))
     else andthen (handle_destroy ho) (\<lambda>_. ret (L_RPCERR, r))))"

section \<open>Handles in use\<close>

text \<open>
  The manager, the \<^verbatim>\<open>handle\<close> objects that exist, each with its pointer, and for an entry whose \<^verbatim>\<open>cl_mutex\<close> is held
  during a call of \<^verbatim>\<open>bind\<close> the handle that makes the call.  A handle is not destroyed while it is used.
\<close>

record hsys =
  h_mgr :: handle_mgr
  handles :: "nat \<rightharpoonup> nat option"
  binding :: "nat \<rightharpoonup> nat"

definition hsys_init :: hsys where
  "hsys_init = \<lparr>h_mgr = handle_mgr_init, handles = Map.empty, binding = Map.empty\<rparr>"

inductive h_step :: "hsys \<Rightarrow> hsys \<Rightarrow> bool" where
  construct: "handles S k = None \<Longrightarrow> hinfos (h_mgr S) new = None \<Longrightarrow> get_handle new m (h_mgr S) = Inr (ho, s) \<Longrightarrow>
    h_step S (S\<lparr>h_mgr := s, handles := (handles S)(k \<mapsto> ho)\<rparr>)"
| destroy: "handles S k = Some ho \<Longrightarrow> k \<notin> ran (binding S) \<Longrightarrow> handle_destroy ho (h_mgr S) = Inr (x, s) \<Longrightarrow>
    h_step S (S\<lparr>h_mgr := s, handles := (handles S)(k := None)\<rparr>)"
| bind_begin: "handles S k = Some (Some p) \<Longrightarrow> binding S p = None \<Longrightarrow> safebind_check p (h_mgr S) = Inr (None, s) \<Longrightarrow>
    h_step S (S\<lparr>h_mgr := s, binding := (binding S)(p \<mapsto> k)\<rparr>)"
| bind_end: "binding S p = Some k \<Longrightarrow> c \<notin> rpccs (h_mgr S) \<Longrightarrow> safebind_bound c r p (h_mgr S) = Inr (cl, s) \<Longrightarrow>
    h_step S (S\<lparr>h_mgr := s, binding := (binding S)(p := None)\<rparr>)"
| delete: "delete_handle m (h_mgr S) = Inr (x, s) \<Longrightarrow> h_step S (S\<lparr>h_mgr := s\<rparr>)"

text \<open>
  The invariant: the table and the entries match, connections are alive and not shared, the count of an
  entry is the number of handles on it, an entry marked for deletion still has one, and an entry that is
  being bound has no connection.
\<close>

definition users :: "hsys \<Rightarrow> nat \<Rightarrow> nat set" where
  "users S p = {k. handles S k = Some (Some p)}"

definition table_ok :: "handle_mgr \<Rightarrow> bool" where
  "table_ok s \<longleftrightarrow> (\<forall>m p. hmap s m = Some p \<longleftrightarrow> (\<exists>h. hinfos s p = Some h \<and> h_m h = m)) \<and>
     (\<forall>p h c. hinfos s p = Some h \<longrightarrow> h_cl h = Some c \<longrightarrow> c \<in> rpccs s) \<and>
     (\<forall>p q g h c. hinfos s p = Some g \<longrightarrow> hinfos s q = Some h \<longrightarrow> h_cl g = Some c \<longrightarrow> h_cl h = Some c \<longrightarrow> p = q)"

definition h_inv :: "hsys \<Rightarrow> bool" where
  "h_inv S \<longleftrightarrow> table_ok (h_mgr S) \<and> finite (dom (handles S)) \<and>
     (\<forall>p h. hinfos (h_mgr S) p = Some h \<longrightarrow> refcnt h = int (card (users S p)) \<and> (del h \<longrightarrow> users S p \<noteq> {})) \<and>
     (\<forall>p k. handles S k = Some (Some p) \<longrightarrow> hinfos (h_mgr S) p \<noteq> None) \<and>
     (\<forall>p k. binding S p = Some k \<longrightarrow> handles S k = Some (Some p) \<and> (\<forall>h. hinfos (h_mgr S) p = Some h \<longrightarrow> h_cl h = None))"

lemma hsys_order: "S\<lparr>handles := a, h_mgr := b\<rparr> = S\<lparr>h_mgr := b, handles := a\<rparr>" for S :: hsys
  by (cases S) simp

lemma users_upd:
  "users (S\<lparr>h_mgr := s, handles := (handles S)(k \<mapsto> ho)\<rparr>) p = (if ho = Some p then insert k (users S p) else users S p - {k})"
  "users (S\<lparr>h_mgr := s, handles := (handles S)(k := None)\<rparr>) p = users S p - {k}"
  "users (S\<lparr>h_mgr := s, binding := b\<rparr>) p = users S p" "users (S\<lparr>h_mgr := s\<rparr>) p = users S p"
  by (auto simp: users_def)

lemma users_finite_dom: "finite (dom (handles S)) \<Longrightarrow> finite (users S p)"
  by (rule finite_subset [of _ "dom (handles S)"]) (auto simp: users_def)

lemma users_finite: "h_inv S \<Longrightarrow> finite (users S p)"
  by (rule users_finite_dom) (simp add: h_inv_def)

lemma users_card:
  assumes "h_inv S" "hinfos (h_mgr S) p = Some h"
  shows "refcnt h = int (card (users S p))" "refcnt h = 0 \<longleftrightarrow> users S p = {}" "del h \<Longrightarrow> users S p \<noteq> {}"
proof -
  show c: "refcnt h = int (card (users S p))" and "del h \<Longrightarrow> users S p \<noteq> {}" using assms by (auto simp: h_inv_def)
  show "refcnt h = 0 \<longleftrightarrow> users S p = {}" using c users_finite [OF assms(1), of p] by simp
qed

lemma hmap_entry:
  assumes "h_inv S" "hmap (h_mgr S) m = Some p"
  obtains h where "hinfos (h_mgr S) p = Some h" "h_m h = m"
  using assms by (auto simp: h_inv_def table_ok_def)

lemmas h_ops = andthen_def deref_def store_def ret_def

lemma table_okI:
  assumes "\<And>m p. hmap s m = Some p \<longleftrightarrow> (\<exists>h. hinfos s p = Some h \<and> h_m h = m)"
    "\<And>p h c. hinfos s p = Some h \<Longrightarrow> h_cl h = Some c \<Longrightarrow> c \<in> rpccs s"
    "\<And>p q g h c. hinfos s p = Some g \<Longrightarrow> hinfos s q = Some h \<Longrightarrow> h_cl g = Some c \<Longrightarrow> h_cl h = Some c \<Longrightarrow> p = q"
  shows "table_ok s"
  unfolding table_ok_def by (intro conjI allI impI) (fact assms)+

lemma table_okD:
  assumes "table_ok s"
  shows "hmap s m = Some p \<longleftrightarrow> (\<exists>h. hinfos s p = Some h \<and> h_m h = m)" "hinfos s p = Some h \<Longrightarrow> h_cl h = Some c \<Longrightarrow> c \<in> rpccs s"
    "hinfos s p = Some g \<Longrightarrow> hinfos s q = Some h \<Longrightarrow> h_cl g = Some c \<Longrightarrow> h_cl h = Some c \<Longrightarrow> p = q"
proof -
  note t = assms [unfolded table_ok_def]
  show "hmap s m = Some p \<longleftrightarrow> (\<exists>h. hinfos s p = Some h \<and> h_m h = m)" by (rule t [THEN conjunct1, rule_format])
  show "hinfos s p = Some h \<Longrightarrow> h_cl h = Some c \<Longrightarrow> c \<in> rpccs s" by (rule t [THEN conjunct2, THEN conjunct1, rule_format])
  show "hinfos s p = Some g \<Longrightarrow> hinfos s q = Some h \<Longrightarrow> h_cl g = Some c \<Longrightarrow> h_cl h = Some c \<Longrightarrow> p = q"
    by (rule t [THEN conjunct2, THEN conjunct2, rule_format])
qed

lemma table_ok_store:
  assumes "table_ok s" "hinfos s p = Some h" "h_m h' = h_m h" "h_cl h' = h_cl h"
  shows "table_ok (s\<lparr>hinfos := (hinfos s)(p \<mapsto> h')\<rparr>)"
proof (rule table_okI)
  let ?s = "s\<lparr>hinfos := (hinfos s)(p \<mapsto> h')\<rparr>"
  note t = table_okD [OF assms(1)]
  have old: "\<exists>g'. hinfos s q = Some g' \<and> h_cl g' = h_cl g" if "hinfos ?s q = Some g" for q g
    using that assms(2,4) by (cases "q = p") auto
  show "hmap ?s m = Some q \<longleftrightarrow> (\<exists>g. hinfos ?s q = Some g \<and> h_m g = m)" for m q
    using t(1) [of m q] assms(2,3) by (cases "q = p") auto
  show "c \<in> rpccs ?s" if a: "hinfos ?s q = Some g" "h_cl g = Some c" for q g c
  proof -
    obtain g' where "hinfos s q = Some g'" "h_cl g' = Some c" using old [OF a(1)] a(2) by auto
    then show ?thesis using t(2) by simp
  qed
  show "p' = q" if a: "hinfos ?s p' = Some g" "hinfos ?s q = Some k" "h_cl g = Some c" "h_cl k = Some c" for p' q g k c
  proof -
    obtain g' k' where "hinfos s p' = Some g'" "h_cl g' = Some c" "hinfos s q = Some k'" "h_cl k' = Some c"
      using old [OF a(1)] old [OF a(2)] a(3,4) by auto
    then show ?thesis using t(3) by blast
  qed
qed

lemma table_ok_bound:
  assumes "table_ok s" "hinfos s p = Some h" "h_m h' = h_m h" "h_cl h' = Some c" "c \<notin> rpccs s"
  shows "table_ok (s\<lparr>hinfos := (hinfos s)(p \<mapsto> h'), rpccs := insert c (rpccs s)\<rparr>)"
proof (rule table_okI)
  let ?s = "s\<lparr>hinfos := (hinfos s)(p \<mapsto> h'), rpccs := insert c (rpccs s)\<rparr>"
  note t = table_okD [OF assms(1)]
  show "hmap ?s m = Some q \<longleftrightarrow> (\<exists>g. hinfos ?s q = Some g \<and> h_m g = m)" for m q using t(1) [of m q] assms(2,3) by auto
  show "hinfos ?s q = Some g \<Longrightarrow> h_cl g = Some d \<Longrightarrow> d \<in> rpccs ?s" for q g d
    using t(2) [of q g d] assms(4) by (auto split: if_splits)
  show "hinfos ?s p' = Some g \<Longrightarrow> hinfos ?s q = Some k \<Longrightarrow> h_cl g = Some d \<Longrightarrow> h_cl k = Some d \<Longrightarrow> p' = q" for p' q g k d
    using t(3) [of p' g q k d] t(2) [of q k c] t(2) [of p' g c] assms(4,5) by (auto split: if_splits)
qed

lemma table_ok_new:
  assumes "table_ok s" "hmap s m = None" "hinfos s p = None" "h_m h = m" "h_cl h = None"
  shows "table_ok (s\<lparr>hinfos := (hinfos s)(p \<mapsto> h), hmap := (hmap s)(m \<mapsto> p)\<rparr>)"
proof (rule table_okI)
  let ?s = "s\<lparr>hinfos := (hinfos s)(p \<mapsto> h), hmap := (hmap s)(m \<mapsto> p)\<rparr>"
  note t = table_okD [OF assms(1)]
  show "hmap ?s n = Some q \<longleftrightarrow> (\<exists>g. hinfos ?s q = Some g \<and> h_m g = n)" for n q
    using t(1) [of n q] t(1) [of m q] t(1) [of n p] assms(2-4) by auto
  show "hinfos ?s q = Some g \<Longrightarrow> h_cl g = Some c \<Longrightarrow> c \<in> rpccs ?s" for q g c
    using t(2) [of q g c] assms(5) by (auto split: if_splits)
  show "hinfos ?s p' = Some g \<Longrightarrow> hinfos ?s q = Some k \<Longrightarrow> h_cl g = Some d \<Longrightarrow> h_cl k = Some d \<Longrightarrow> p' = q" for p' q g k d
    using t(3) [of p' g q k d] assms(5) by (auto split: if_splits)
qed

lemma table_ok_free:
  assumes "table_ok s" "hinfos s p = Some h"
  shows "table_ok (s\<lparr>rpccs := (case h_cl h of None \<Rightarrow> rpccs s | Some c \<Rightarrow> rpccs s - {c}),
    hmap := (hmap s)(h_m h := None), hinfos := (hinfos s)(p := None)\<rparr>)"
proof -
  let ?s = "s\<lparr>rpccs := (case h_cl h of None \<Rightarrow> rpccs s | Some c \<Rightarrow> rpccs s - {c}), hmap := (hmap s)(h_m h := None), hinfos := (hinfos s)(p := None)\<rparr>"
  note t = table_okD [OF assms(1)]
  have "hmap ?s m = Some q \<longleftrightarrow> (\<exists>g. hinfos ?s q = Some g \<and> h_m g = m)" for m q
  proof (cases "q = p")
    case True
    then show ?thesis using t(1) [of m p] assms(2) by auto
  next
    case False
    then have "hmap s (h_m h) \<noteq> Some q" using t(1) [of "h_m h" p] assms(2) by auto
    then show ?thesis using False t(1) [of m q] t(1) [of "h_m h" q] by auto
  qed
  moreover have "c \<in> rpccs ?s"
    if "hinfos ?s q = Some g" "h_cl g = Some c" for q g c
  proof -
    have "q \<noteq> p" "hinfos s q = Some g" using that(1) by (auto split: if_splits)
    then show ?thesis using t(2) [of q g c] t(3) [OF assms(2), of q g c] that(2) by (auto split: option.splits)
  qed
  moreover have "p' = q" if "hinfos ?s p' = Some g" "hinfos ?s q = Some h'" "h_cl g = Some c" "h_cl h' = Some c" for p' q g h' c
    using that t(3) by (auto split: if_splits)
  ultimately show ?thesis by (rule table_okI)
qed

lemma h_invI:
  assumes "table_ok (h_mgr S)" "finite (dom (handles S))"
    "\<And>p h. hinfos (h_mgr S) p = Some h \<Longrightarrow> refcnt h = int (card (users S p)) \<and> (del h \<longrightarrow> users S p \<noteq> {})"
    "\<And>p k. handles S k = Some (Some p) \<Longrightarrow> hinfos (h_mgr S) p \<noteq> None"
    "\<And>p k. binding S p = Some k \<Longrightarrow> handles S k = Some (Some p)"
    "\<And>p k h. binding S p = Some k \<Longrightarrow> hinfos (h_mgr S) p = Some h \<Longrightarrow> h_cl h = None"
  shows "h_inv S"
  unfolding h_inv_def using assms by blast

lemma h_invD:
  assumes "h_inv S"
  shows "table_ok (h_mgr S)" "finite (dom (handles S))" "handles S k = Some (Some p) \<Longrightarrow> \<exists>h. hinfos (h_mgr S) p = Some h"
    "binding S p = Some k \<Longrightarrow> handles S k = Some (Some p)" "binding S p = Some k \<Longrightarrow> hinfos (h_mgr S) p = Some h \<Longrightarrow> h_cl h = None"
  using assms unfolding h_inv_def by blast+

lemma h_inv_init: "h_inv hsys_init"
  by (rule h_invI) (auto simp: hsys_init_def handle_mgr_init_def table_ok_def)

text \<open>A new entry, and one more handle on an old one.\<close>

lemma construct_new:
  assumes "h_inv S" "handles S k = None" "hinfos (h_mgr S) new = None" "hmap (h_mgr S) m = None"
  shows "h_inv (S\<lparr>h_mgr := (h_mgr S)\<lparr>hinfos := (hinfos (h_mgr S))(new \<mapsto> \<lparr>h_cl = None, refcnt = 1, del = False, h_m = m\<rparr>),
    hmap := (hmap (h_mgr S))(m \<mapsto> new)\<rparr>, handles := (handles S)(k \<mapsto> Some new)\<rparr>)" (is "h_inv ?S")
proof (rule h_invI)
  note inv = h_invD [OF assms(1)]
  have none: "handles S j \<noteq> Some (Some new)" for j using inv(3) [of j new] assms(3) by auto
  then have u: "users S new = {}" by (auto simp: users_def)
  have k: "k \<notin> users S p" for p using assms(2) by (simp add: users_def)
  show "table_ok (h_mgr ?S)" using table_ok_new [OF inv(1) assms(4,3)] by simp
  show "finite (dom (handles ?S))" using inv(2) by simp
  show "refcnt h = int (card (users ?S p)) \<and> (del h \<longrightarrow> users ?S p \<noteq> {})" if "hinfos (h_mgr ?S) p = Some h" for p h
    using that u k [of p] users_card [OF assms(1), of p h] by (cases "p = new") (auto simp: users_upd)
  show "hinfos (h_mgr ?S) p \<noteq> None" if "handles ?S j = Some (Some p)" for p j using that inv(3) [of j p] by (auto split: if_splits)
  show "handles ?S j = Some (Some p)" if "binding ?S p = Some j" for p j using that inv(4) [of p j] assms(2) by auto
  show "h_cl h = None" if "binding ?S p = Some j" "hinfos (h_mgr ?S) p = Some h" for p j h
    using that inv(4) [of p j] inv(5) [of p j h] by (auto split: if_splits)
qed

lemma construct_old:
  assumes "h_inv S" "handles S k = None" "hinfos (h_mgr S) p = Some h"
  shows "h_inv (S\<lparr>h_mgr := (h_mgr S)\<lparr>hinfos := (hinfos (h_mgr S))(p \<mapsto> h\<lparr>refcnt := refcnt h + 1\<rparr>)\<rparr>, handles := (handles S)(k \<mapsto> Some p)\<rparr>)" (is "h_inv ?S")
proof (rule h_invI)
  note inv = h_invD [OF assms(1)]
  have k: "k \<notin> users S q" for q using assms(2) by (simp add: users_def)
  show "table_ok (h_mgr ?S)" using table_ok_store [OF inv(1) assms(3), of "h\<lparr>refcnt := refcnt h + 1\<rparr>"] by simp
  show "finite (dom (handles ?S))" using inv(2) by simp
  show "refcnt g = int (card (users ?S q)) \<and> (del g \<longrightarrow> users ?S q \<noteq> {})" if "hinfos (h_mgr ?S) q = Some g" for q g
    using that k [of q] users_card [OF assms(1), of q] assms(3) users_finite [OF assms(1), of p] by (cases "q = p") (auto simp: users_upd)
  show "hinfos (h_mgr ?S) q \<noteq> None" if "handles ?S j = Some (Some q)" for q j using that inv(3) [of j q] by (auto split: if_splits)
  show "handles ?S j = Some (Some q)" if "binding ?S q = Some j" for q j using that inv(4) [of q j] assms(2) by auto
  show "h_cl g = None" if "binding ?S q = Some j" "hinfos (h_mgr ?S) q = Some g" for q j g
    using that inv(5) [of q j] assms(3) by (auto split: if_splits)
qed

text \<open>A handle without an entry.\<close>

lemma construct_null:
  assumes "h_inv S" "handles S k = None"
  shows "h_inv (S\<lparr>handles := (handles S)(k \<mapsto> None)\<rparr>)" (is "h_inv ?S")
proof (rule h_invI)
  note inv = h_invD [OF assms(1)]
  have u: "users ?S p = users S p" for p using assms(2) by (auto simp: users_def)
  show "refcnt h = int (card (users ?S p)) \<and> (del h \<longrightarrow> users ?S p \<noteq> {})" if "hinfos (h_mgr ?S) p = Some h" for p h
    using that users_card [OF assms(1), of p h] by (simp add: u)
  show "hinfos (h_mgr ?S) p \<noteq> None" if "handles ?S j = Some (Some p)" for p j using that inv(3) [of j p] by (auto split: if_splits)
  show "handles ?S j = Some (Some p)" if "binding ?S p = Some j" for p j using that inv(4) [of p j] assms(2) by auto
qed (use h_invD [OF assms(1)] in auto)

lemma construct_ok:
  assumes "h_inv S" "handles S k = None" "hinfos (h_mgr S) new = None"
  shows "\<exists>ho s. get_handle new m (h_mgr S) = Inr (ho, s) \<and> h_inv (S\<lparr>h_mgr := s, handles := (handles S)(k \<mapsto> ho)\<rparr>)"
proof (cases "hmap (h_mgr S) m")
  case None
  then show ?thesis using construct_new [OF assms None] by (simp add: get_handle_def)
next
  case (Some p)
  then obtain h where h: "hinfos (h_mgr S) p = Some h" using hmap_entry [OF assms(1)] by blast
  show ?thesis
  proof (cases "del h")
    case True
    have "S\<lparr>h_mgr := h_mgr S, handles := (handles S)(k \<mapsto> None)\<rparr> = S\<lparr>handles := (handles S)(k \<mapsto> None)\<rparr>" by simp
    then show ?thesis using Some h True construct_null [OF assms(1,2)] by (simp add: get_handle_def h_ops)
  next
    case False
    then show ?thesis using Some h construct_old [OF assms(1,2) h] by (simp add: get_handle_def h_ops)
  qed
qed


text \<open>The invariant, with entry \<open>p\<close> possibly marked for deletion and without a handle.\<close>

definition h_pre :: "nat \<Rightarrow> hsys \<Rightarrow> bool" where
  "h_pre p S \<longleftrightarrow> table_ok (h_mgr S) \<and> finite (dom (handles S)) \<and>
     (\<forall>q h. hinfos (h_mgr S) q = Some h \<longrightarrow> refcnt h = int (card (users S q)) \<and> (del h \<longrightarrow> q = p \<or> users S q \<noteq> {})) \<and>
     (\<forall>q k. handles S k = Some (Some q) \<longrightarrow> hinfos (h_mgr S) q \<noteq> None) \<and>
     (\<forall>q k. binding S q = Some k \<longrightarrow> handles S k = Some (Some q) \<and> (\<forall>h. hinfos (h_mgr S) q = Some h \<longrightarrow> h_cl h = None))"

lemma h_pre_inv: "h_inv S \<Longrightarrow> h_pre p S"
  by (simp add: h_inv_def h_pre_def)

lemma h_preD:
  assumes "h_pre p S"
  shows "table_ok (h_mgr S)" "finite (dom (handles S))" "hinfos (h_mgr S) q = Some h \<Longrightarrow> refcnt h = int (card (users S q))"
    "hinfos (h_mgr S) q = Some h \<Longrightarrow> del h \<Longrightarrow> q \<noteq> p \<Longrightarrow> users S q \<noteq> {}" "handles S k = Some (Some q) \<Longrightarrow> hinfos (h_mgr S) q \<noteq> None"
    "binding S q = Some k \<Longrightarrow> handles S k = Some (Some q)" "binding S q = Some k \<Longrightarrow> hinfos (h_mgr S) q = Some h \<Longrightarrow> h_cl h = None"
  using assms unfolding h_pre_def by blast+

lemma h_pre_live:
  assumes "h_pre p S" "hinfos (h_mgr S) p = Some h" "del h \<longrightarrow> users S p \<noteq> {}"
  shows "h_inv S"
proof (rule h_invI)
  note pre = h_preD [OF assms(1)]
  show "refcnt g = int (card (users S q)) \<and> (del g \<longrightarrow> users S q \<noteq> {})" if "hinfos (h_mgr S) q = Some g" for q g
    using pre(3) [OF that] pre(4) [OF that] assms(2,3) that by (cases "q = p") auto
qed (fact h_preD [OF assms(1)])+

definition freed :: "nat \<Rightarrow> hinfo \<Rightarrow> handle_mgr \<Rightarrow> handle_mgr" where
  "freed p h s = s\<lparr>rpccs := (case h_cl h of None \<Rightarrow> rpccs s | Some c \<Rightarrow> rpccs s - {c}), hmap := (hmap s)(h_m h := None), hinfos := (hinfos s)(p := None)\<rparr>"

lemma h_pre_free:
  assumes "h_pre p S" "hinfos (h_mgr S) p = Some h" "users S p = {}"
  shows "h_inv (S\<lparr>h_mgr := freed p h (h_mgr S)\<rparr>)" (is "h_inv ?S")
proof (rule h_invI)
  have i: "hinfos (freed p h (h_mgr S)) = (hinfos (h_mgr S))(p := None)" by (simp add: freed_def)
  have n: "handles S k \<noteq> Some (Some p)" for k using assms(3) by (auto simp: users_def)
  show "table_ok (h_mgr ?S)" using table_ok_free [of "h_mgr S" p h] assms(1,2) by (simp add: freed_def h_pre_def)
  show "finite (dom (handles ?S))" using assms(1) by (simp add: h_pre_def)
  show "refcnt g = int (card (users ?S q)) \<and> (del g \<longrightarrow> users ?S q \<noteq> {})" if "hinfos (h_mgr ?S) q = Some g" for q g
  proof -
    have "q \<noteq> p" "hinfos (h_mgr S) q = Some g" using that by (auto simp: i split: if_splits)
    then show ?thesis using h_preD(3,4) [OF assms(1)] by (simp add: users_upd)
  qed
  show "hinfos (h_mgr ?S) q \<noteq> None" if "handles ?S j = Some (Some q)" for q j
    using that assms(1) n [of j] by (cases "q = p") (auto simp: i h_pre_def)
  show "handles ?S j = Some (Some q)" if "binding ?S q = Some j" for q j using that assms(1) by (simp add: h_pre_def)
  show "h_cl g = None" if "binding ?S q = Some j" "hinfos (h_mgr ?S) q = Some g" for q j g
    using that assms(1) by (cases "q = p") (auto simp: i h_pre_def)
qed


text \<open>An entry in use is changed in what the invariant leaves open.\<close>

lemma h_inv_store:
  assumes "h_inv S" "hinfos (h_mgr S) p = Some h" "users S p \<noteq> {}" "h_m h' = h_m h" "h_cl h' = h_cl h" "refcnt h' = refcnt h"
  shows "h_inv (S\<lparr>h_mgr := (h_mgr S)\<lparr>hinfos := (hinfos (h_mgr S))(p \<mapsto> h')\<rparr>\<rparr>)" (is "h_inv ?S")
proof (rule h_invI)
  note inv = h_invD [OF assms(1)]
  show "table_ok (h_mgr ?S)" using table_ok_store [OF inv(1) assms(2,4,5)] by simp
  show "refcnt g = int (card (users ?S q)) \<and> (del g \<longrightarrow> users ?S q \<noteq> {})" if "hinfos (h_mgr ?S) q = Some g" for q g
    using that users_card [OF assms(1), of q] assms(2,3,6) by (cases "q = p") (auto simp: users_upd)
  show "hinfos (h_mgr ?S) q \<noteq> None" if "handles ?S j = Some (Some q)" for q j using that inv(3) [of j q] by auto
  show "h_cl g = None" if "binding ?S q = Some j" "hinfos (h_mgr ?S) q = Some g" for q j g
    using that inv(5) [of q j] assms(2,5) by (cases "q = p") auto
qed (use h_invD [OF assms(1)] in auto)

lemma delete_handle_wo_entry:
  assumes "hmap s (h_m h) = Some p" "hinfos s p = Some h"
  shows "delete_handle_wo (h_m h) s =
    Inr ((), if refcnt h = 0 then freed p h s else s\<lparr>hinfos := (hinfos s)(p \<mapsto> h\<lparr>del := True\<rparr>)\<rparr>)"
  using assms by (simp add: delete_handle_wo_def h_ops freed_def)

lemma delete_ok:
  assumes "h_inv S"
  shows "\<exists>s. delete_handle m (h_mgr S) = Inr ((), s) \<and> h_inv (S\<lparr>h_mgr := s\<rparr>)"
proof (cases "hmap (h_mgr S) m")
  case None
  then show ?thesis using assms by (simp add: delete_handle_def delete_handle_wo_def)
next
  case (Some p)
  then obtain h where h: "hinfos (h_mgr S) p = Some h" "h_m h = m" using hmap_entry [OF assms] by blast
  note d = delete_handle_wo_entry [of "h_mgr S" h p]
  show ?thesis
  proof (cases "users S p = {}")
    case True
    then have "refcnt h = 0" using users_card(2) [OF assms h(1)] by simp
    then show ?thesis using d h Some h_pre_free [OF h_pre_inv [OF assms] h(1) True] by (simp add: delete_handle_def)
  next
    case False
    then have "refcnt h \<noteq> 0" using users_card(2) [OF assms h(1)] by simp
    then show ?thesis using d h Some h_inv_store [OF assms h(1) False, of "h\<lparr>del := True\<rparr>"] by (simp add: delete_handle_def)
  qed
qed

lemma unuse:
  assumes "h_inv S" "handles S k = Some (Some p)" "k \<notin> ran (binding S)" "hinfos (h_mgr S) p = Some h"
  shows "h_pre p (S\<lparr>h_mgr := (h_mgr S)\<lparr>hinfos := (hinfos (h_mgr S))(p \<mapsto> h\<lparr>refcnt := refcnt h - 1\<rparr>)\<rparr>, handles := (handles S)(k := None)\<rparr>)" (is "h_pre p ?S")
proof -
  note inv = h_invD [OF assms(1)]
  have k: "k \<in> users S p" "\<And>q. q \<noteq> p \<Longrightarrow> k \<notin> users S q" using assms(2) by (auto simp: users_def)
  have "0 < card (users S p)" using k(1) users_finite [OF assms(1), of p] by (auto simp: card_gt_0_iff)
  then have c: "int (card (users S p - {k})) = int (card (users S p)) - 1" using k(1) by (simp add: of_nat_diff)
  have "table_ok (h_mgr ?S)" using table_ok_store [OF inv(1) assms(4), of "h\<lparr>refcnt := refcnt h - 1\<rparr>"] by simp
  moreover have "finite (dom (handles ?S))" using inv(2) by simp
  moreover have "refcnt g = int (card (users ?S q)) \<and> (del g \<longrightarrow> q = p \<or> users ?S q \<noteq> {})" if "hinfos (h_mgr ?S) q = Some g" for q g
    using that users_card [OF assms(1), of q] assms(4) c k(2) [of q] by (cases "q = p") (auto simp: users_upd)
  moreover have "hinfos (h_mgr ?S) q \<noteq> None" if "handles ?S j = Some (Some q)" for q j using that inv(3) [of j q] by (auto split: if_splits)
  moreover have "handles ?S j = Some (Some q) \<and> (\<forall>g. hinfos (h_mgr ?S) q = Some g \<longrightarrow> h_cl g = None)" if "binding ?S q = Some j" for q j
  proof -
    have "binding S q = Some j" "j \<noteq> k" using that assms(3) by (auto simp: ran_def)
    then show ?thesis using inv(4) [of q j] inv(5) [of q j] assms(4) by auto
  qed
  ultimately show ?thesis unfolding h_pre_def by blast
qed

lemma destroy_ok:
  assumes "h_inv S" "handles S k = Some ho" "k \<notin> ran (binding S)"
  shows "\<exists>s. handle_destroy ho (h_mgr S) = Inr ((), s) \<and> h_inv (S\<lparr>h_mgr := s, handles := (handles S)(k := None)\<rparr>)"
proof (cases ho)
  case None
  have "h_inv (S\<lparr>handles := (handles S)(k := None)\<rparr>)" (is "h_inv ?S")
  proof (rule h_invI)
    note inv = h_invD [OF assms(1)]
    have u: "users ?S p = users S p" for p using assms(2) None by (auto simp: users_def)
    show "refcnt h = int (card (users ?S p)) \<and> (del h \<longrightarrow> users ?S p \<noteq> {})" if "hinfos (h_mgr ?S) p = Some h" for p h
      using that users_card [OF assms(1), of p h] by (simp add: u)
    show "hinfos (h_mgr ?S) p \<noteq> None" if "handles ?S j = Some (Some p)" for p j using that inv(3) [of j p] by (auto split: if_splits)
    show "handles ?S j = Some (Some p)" if "binding ?S p = Some j" for p j using that inv(4) [of p j] assms(2) None by auto
  qed (use h_invD [OF assms(1)] in auto)
  then show ?thesis using None by (simp add: handle_destroy_def ret_def)
next
  case (Some p)
  note inv = h_invD [OF assms(1)]
  obtain h where h: "hinfos (h_mgr S) p = Some h" using inv(3) [of k p] assms(2) Some by auto
  let ?h = "h\<lparr>refcnt := refcnt h - 1\<rparr>" and ?s = "(h_mgr S)\<lparr>hinfos := (hinfos (h_mgr S))(p \<mapsto> h\<lparr>refcnt := refcnt h - 1\<rparr>)\<rparr>"
  let ?S = "S\<lparr>h_mgr := ?s, handles := (handles S)(k := None)\<rparr>"
  have pre: "h_pre p ?S" using unuse [OF assms(1) _ assms(3) h] assms(2) Some by simp
  have e: "hinfos (h_mgr ?S) p = Some ?h" by simp
  have c: "refcnt h - 1 = int (card (users ?S p))" using h_preD(3) [OF pre e] by simp
  have f: "finite (users ?S p)" by (rule users_finite_dom [OF h_preD(2) [OF pre]])
  have d: "handle_destroy ho (h_mgr S) = (if refcnt h - 1 = 0 \<and> del h then delete_handle_wo (h_m h) ?s else Inr ((), ?s))"
    using Some h by (simp add: handle_destroy_def done_handle_def h_ops)
  show ?thesis
  proof (cases "refcnt h - 1 = 0 \<and> del h")
    case True
    have u: "users ?S p = {}" using c f True by simp
    have "hmap ?s (h_m ?h) = Some p" "hinfos ?s p = Some ?h" using table_okD(1) [OF inv(1), of "h_m h" p] h by simp_all
    from delete_handle_wo_entry [OF this] have "delete_handle_wo (h_m h) ?s = Inr ((), freed p ?h ?s)" using True by simp
    moreover have "h_inv (S\<lparr>h_mgr := freed p ?h ?s, handles := (handles S)(k := None)\<rparr>)" using h_pre_free [OF pre e u] by (simp add: hsys_order)
    ultimately show ?thesis unfolding d if_P [OF True] by blast
  next
    case False
    then have "del ?h \<longrightarrow> users ?S p \<noteq> {}" using c by auto
    from h_pre_live [OF pre e this] show ?thesis unfolding d if_not_P [OF False] by blast
  qed
qed


section \<open>Binding\<close>

lemma safebind_check_ok:
  assumes "hinfos s p = Some h"
  shows "safebind_check p s = Inr (if del h then Some None else map_option Some (h_cl h), s)"
  using assms by (cases "h_cl h") (simp_all add: safebind_check_def h_ops)

lemma bind_begin_ok:
  assumes "h_inv S" "handles S k = Some (Some p)" "safebind_check p (h_mgr S) = Inr (None, s)"
  shows "s = h_mgr S \<and> h_inv (S\<lparr>binding := (binding S)(p \<mapsto> k)\<rparr>)" (is "_ \<and> h_inv ?S")
proof -
  note inv = h_invD [OF assms(1)]
  obtain h where h: "hinfos (h_mgr S) p = Some h" using inv(3) [OF assms(2)] by blast
  have cl: "s = h_mgr S" "h_cl h = None" using assms(3) safebind_check_ok [OF h] by (auto split: if_splits)
  have "h_inv ?S"
  proof (rule h_invI)
    have u: "users ?S q = users S q" for q by (simp add: users_def)
    show "refcnt g = int (card (users ?S q)) \<and> (del g \<longrightarrow> users ?S q \<noteq> {})" if "hinfos (h_mgr ?S) q = Some g" for q g
      using that users_card [OF assms(1), of q g] by (simp add: u)
    show "handles ?S j = Some (Some q)" if "binding ?S q = Some j" for q j using that inv(4) [of q j] assms(2) by (auto split: if_splits)
    show "h_cl g = None" if "binding ?S q = Some j" "hinfos (h_mgr ?S) q = Some g" for q j g
      using that inv(5) [of q j g] h cl(2) by (auto split: if_splits)
    show "hinfos (h_mgr ?S) q \<noteq> None" if "handles ?S j = Some (Some q)" for q j using that inv(3) [of j q] by auto
  qed (use inv in simp_all)
  then show ?thesis using cl(1) by simp
qed

text \<open>What the end of a call of \<^verbatim>\<open>bind\<close> stores.\<close>

definition bound :: "nat \<Rightarrow> int \<Rightarrow> hinfo \<Rightarrow> hinfo" where
  "bound c r h = (if r < 0 then h\<lparr>del := True\<rparr> else h\<lparr>h_cl := Some c\<rparr>)"

lemma bound_sel [simp]: "refcnt (bound c r h) = refcnt h" "h_m (bound c r h) = h_m h"
  by (simp_all add: bound_def)

lemma safebind_bound_ok:
  assumes "hinfos s p = Some h"
  shows "safebind_bound c r p s = Inr (if r < 0 then h_cl h else Some c,
    s\<lparr>hinfos := (hinfos s)(p \<mapsto> bound c r h), rpccs := (if r < 0 then rpccs s else insert c (rpccs s))\<rparr>)"
  using assms by (simp add: safebind_bound_def bound_def h_ops)

lemma bind_end_ok:
  assumes "h_inv S" "binding S p = Some k" "c \<notin> rpccs (h_mgr S)" "hinfos (h_mgr S) p = Some h"
  shows "h_inv (S\<lparr>h_mgr := (h_mgr S)\<lparr>hinfos := (hinfos (h_mgr S))(p \<mapsto> bound c r h), rpccs := (if r < 0 then rpccs (h_mgr S) else insert c (rpccs (h_mgr S)))\<rparr>,
    binding := (binding S)(p := None)\<rparr>)" (is "h_inv ?S")
proof (rule h_invI)
  note inv = h_invD [OF assms(1)]
  have k: "users S p \<noteq> {}" using inv(4) [OF assms(2)] by (auto simp: users_def)
  show "table_ok (h_mgr ?S)"
  proof (cases "r < 0")
    case True
    then show ?thesis using table_ok_store [OF inv(1) assms(4), of "bound c r h"] by (simp add: bound_def)
  next
    case False
    then show ?thesis using table_ok_bound [OF inv(1) assms(4) _ _ assms(3), of "bound c r h"] by (simp add: bound_def)
  qed
  show "refcnt g = int (card (users ?S q)) \<and> (del g \<longrightarrow> users ?S q \<noteq> {})" if "hinfos (h_mgr ?S) q = Some g" for q g
    using that users_card [OF assms(1), of q] assms(4) k by (cases "q = p") (auto simp: users_upd)
  show "hinfos (h_mgr ?S) q \<noteq> None" if "handles ?S j = Some (Some q)" for q j using that inv(3) [of j q] by auto
  show "handles ?S j = Some (Some q)" if "binding ?S q = Some j" for q j using that inv(4) [of q j] by (auto split: if_splits)
  show "h_cl g = None" if "binding ?S q = Some j" "hinfos (h_mgr ?S) q = Some g" for q j g
    using that inv(5) [of q j g] by (auto split: if_splits)
qed (use h_invD [OF assms(1)] in simp_all)

lemma h_step_inv:
  assumes "h_step S S'" "h_inv S"
  shows "h_inv S'"
  using assms(1)
proof cases
  case (construct k new m ho s)
  then show ?thesis using construct_ok [OF assms(2), of k new m] by auto
next
  case (destroy k ho x s)
  then show ?thesis using destroy_ok [OF assms(2), of k ho] by auto
next
  case (bind_begin k p s)
  then show ?thesis using bind_begin_ok [OF assms(2), of k p s] by simp
next
  case (bind_end p k c r cl s)
  obtain h where h: "hinfos (h_mgr S) p = Some h" using h_invD(3,4) [OF assms(2)] bind_end(2) by blast
  then show ?thesis using bind_end bind_end_ok [OF assms(2) bind_end(2,3) h, of r] safebind_bound_ok [OF h, of c r] by simp
next
  case (delete m x s)
  then show ?thesis using delete_ok [OF assms(2), of m] by auto
qed

lemma reachable_h_inv: "h_step\<^sup>*\<^sup>* hsys_init S \<Longrightarrow> h_inv S"
  by (induction rule: rtranclp_induct) (simp_all add: h_inv_init h_step_inv)


section \<open>Properties\<close>

text \<open>C14. The connection cache never uses a deleted entry or a deleted connection: in every reachable state each operation of
  each handle, of a thread in \<^verbatim>\<open>bind\<close> and of the manager returns, the connection that \<^verbatim>\<open>safebind\<close> returns is alive, and the
  reference count of an entry is the number of handles on it.\<close>

theorem handle_safe:
  assumes "h_step\<^sup>*\<^sup>* hsys_init S"
  shows "(\<forall>new m. hinfos (h_mgr S) new = None \<longrightarrow> (\<exists>x. get_handle new m (h_mgr S) = Inr x)) \<and>
    (\<forall>m. \<exists>x. delete_handle m (h_mgr S) = Inr x) \<and>
    (\<forall>k ho. handles S k = Some ho \<longrightarrow> k \<notin> ran (binding S) \<longrightarrow> (\<exists>x. handle_destroy ho (h_mgr S) = Inr x)) \<and>
    (\<forall>k p. handles S k = Some (Some p) \<longrightarrow> (\<exists>h. hinfos (h_mgr S) p = Some h \<and> refcnt h = int (card {j. handles S j = Some (Some p)})) \<and>
       (\<exists>x. safebind_check p (h_mgr S) = Inr (x, h_mgr S) \<and> (\<forall>c. x = Some (Some c) \<longrightarrow> c \<in> rpccs (h_mgr S)))) \<and>
    (\<forall>k p c r. binding S p = Some k \<longrightarrow> (\<exists>x. safebind_bound c r p (h_mgr S) = Inr x))"
proof -
  have i: "h_inv S" by (rule reachable_h_inv [OF assms])
  note inv = h_invD [OF i]
  have k: "\<exists>k. handles S k = None" using ex_new_if_finite [OF _ inv(2)] by (auto simp: dom_def)
  have "\<exists>x. get_handle new m (h_mgr S) = Inr x" if "hinfos (h_mgr S) new = None" for new m
    using k construct_ok [OF i _ that, of _ m] by blast
  moreover have "\<exists>x. delete_handle m (h_mgr S) = Inr x" for m using delete_ok [OF i, of m] by blast
  moreover have "\<exists>x. handle_destroy ho (h_mgr S) = Inr x" if "handles S k = Some ho" "k \<notin> ran (binding S)" for k ho
    using destroy_ok [OF i that] by blast
  moreover have "(\<exists>h. hinfos (h_mgr S) p = Some h \<and> refcnt h = int (card {j. handles S j = Some (Some p)})) \<and>
      (\<exists>x. safebind_check p (h_mgr S) = Inr (x, h_mgr S) \<and> (\<forall>c. x = Some (Some c) \<longrightarrow> c \<in> rpccs (h_mgr S)))" if u: "handles S k = Some (Some p)" for k p
  proof -
    obtain h where h: "hinfos (h_mgr S) p = Some h" using inv(3) [OF u] by blast
    have "refcnt h = int (card {j. handles S j = Some (Some p)})" using users_card(1) [OF i h] by (simp add: users_def)
    then show ?thesis using h safebind_check_ok [OF h] table_okD(2) [OF inv(1) h] by (auto split: if_splits)
  qed
  moreover have "\<exists>x. safebind_bound c r p (h_mgr S) = Inr x" if "binding S p = Some k" for k p c r
    using inv(3) [OF inv(4) [OF that]] safebind_bound_ok [of "h_mgr S" p _ c r] by blast
  ultimately show ?thesis by blast
qed


text \<open>Steps during which handle \<open>k\<close> exists, without a call of \<^verbatim>\<open>delete_handle\<close> in the second case.\<close>

definition keeps :: "nat \<Rightarrow> hsys \<Rightarrow> hsys \<Rightarrow> bool" where
  "keeps k S S' \<longleftrightarrow> h_step S S' \<and> handles S' k = handles S k"

text \<open>What a step can do to an entry in use.\<close>

lemma h_step_entry:
  assumes "h_step S S'" "h_inv S" "hinfos (h_mgr S) p = Some h" "handles S k = Some (Some p)" "handles S' k = Some (Some p)"
  shows "\<exists>h'. hinfos (h_mgr S') p = Some h' \<and> (del h \<longrightarrow> del h') \<and> (h_cl h \<noteq> None \<longrightarrow> h_cl h' = h_cl h)"
  using assms(1)
proof cases
  case (construct j new m ho s)
  show ?thesis
  proof (cases "hmap (h_mgr S) m")
    case None
    then show ?thesis using construct assms(3) by (auto simp: get_handle_def)
  next
    case (Some q)
    then obtain g where g: "hinfos (h_mgr S) q = Some g" using hmap_entry [OF assms(2)] by blast
    then show ?thesis using Some construct assms(3) by (cases "del g") (auto simp: get_handle_def h_ops)
  qed
next
  case (destroy j ho x s)
  show ?thesis
  proof (cases ho)
    case None
    then show ?thesis using destroy assms(3) by (simp add: handle_destroy_def ret_def)
  next
    case (Some q)
    then obtain g where g: "hinfos (h_mgr S) q = Some g" using h_invD(3) [OF assms(2)] destroy(2) by blast
    let ?g = "g\<lparr>refcnt := refcnt g - 1\<rparr>" and ?s = "(h_mgr S)\<lparr>hinfos := (hinfos (h_mgr S))(q \<mapsto> g\<lparr>refcnt := refcnt g - 1\<rparr>)\<rparr>"
    have "s = (if refcnt g - 1 = 0 \<and> del g then freed q ?g ?s else ?s)"
    proof -
      have "hmap ?s (h_m ?g) = Some q" "hinfos ?s q = Some ?g" using table_okD(1) [OF h_invD(1) [OF assms(2)], of "h_m g" q] g by simp_all
      from delete_handle_wo_entry [OF this] destroy(4) Some g show ?thesis
        by (simp add: handle_destroy_def done_handle_def h_ops split: if_splits)
    qed
    moreover have "q \<noteq> p" if "refcnt g - 1 = 0"
    proof
      assume "q = p"
      have "{j, k} \<subseteq> users S p" using destroy(2) Some \<open>q = p\<close> assms(4) by (simp add: users_def)
      moreover have "j \<noteq> k" using destroy(1) assms(5) by auto
      ultimately have "2 \<le> card (users S p)" using card_mono [OF users_finite [OF assms(2)], of "{j, k}" p] by simp
      then show False using that users_card(1) [OF assms(2) g] \<open>q = p\<close> by simp
    qed
    ultimately show ?thesis using destroy(1) assms(3) g by (cases "q = p") (auto simp: freed_def)
  qed
next
  case (bind_begin j q s)
  obtain g where "hinfos (h_mgr S) q = Some g" using h_invD(3) [OF assms(2) bind_begin(2)] by blast
  then show ?thesis using bind_begin assms(3) safebind_check_ok by auto
next
  case (bind_end q j c r cl s)
  obtain g where g: "hinfos (h_mgr S) q = Some g" using h_invD(3,4) [OF assms(2)] bind_end(2) by blast
  have "h_cl g = None" using h_invD(5) [OF assms(2) bind_end(2) g] .
  then show ?thesis using bind_end safebind_bound_ok [OF g, of c r] assms(3) g by (auto simp: bound_def)
next
  case (delete m x s)
  show ?thesis
  proof (cases "hmap (h_mgr S) m")
    case None
    then show ?thesis using delete assms(3) by (simp add: delete_handle_def delete_handle_wo_def)
  next
    case (Some q)
    then obtain g where g: "hinfos (h_mgr S) q = Some g" "h_m g = m" using hmap_entry [OF assms(2)] by blast
    have "q \<noteq> p" if "refcnt g = 0" using users_card(2) [OF assms(2) g(1)] that assms(4) by (auto simp: users_def)
    then show ?thesis using delete delete_handle_wo_entry [of "h_mgr S" g q] Some g assms(3)
      by (cases "refcnt g = 0") (auto simp: delete_handle_def freed_def)
  qed
qed



text \<open>The connection that a call to \<open>m\<close> uses: the cached one, or a new one if binding succeeds.\<close>

definition connection :: "handle_mgr \<Rightarrow> nat \<Rightarrow> int \<Rightarrow> string \<Rightarrow> nat option" where
  "connection s c b m =
     (case hmap s m of
        None \<Rightarrow> if b < 0 then None else Some c
      | Some p \<Rightarrow> (case hinfos s p of
          None \<Rightarrow> None
        | Some h \<Rightarrow> if del h then None else if h_cl h \<noteq> None then h_cl h else if b < 0 then None else Some c))"

lemma get_handle_entry:
  assumes "h_inv S" "hinfos (h_mgr S) new = None" "get_handle new m (h_mgr S) = Inr (ho, s)"
  shows "ho = None \<and> connection (h_mgr S) c b m = None \<or>
    (\<exists>p h. ho = Some p \<and> hinfos s p = Some h \<and> rpccs s = rpccs (h_mgr S) \<and>
       \<not> del h \<and> connection (h_mgr S) c b m = (if h_cl h \<noteq> None then h_cl h else if b < 0 then None else Some c))"
proof (cases "hmap (h_mgr S) m")
  case None
  then show ?thesis using assms(3)
    by (intro disjI2 exI [of _ new] exI [of _ "\<lparr>h_cl = None, refcnt = 1, del = False, h_m = m\<rparr>"]) (auto simp: get_handle_def connection_def)
next
  case (Some p)
  then obtain h where h: "hinfos (h_mgr S) p = Some h" using hmap_entry [OF assms(1)] by blast
  show ?thesis
  proof (cases "del h")
    case True
    then show ?thesis using assms(3) Some h by (simp add: get_handle_def connection_def h_ops)
  next
    case False
    then have g: "ho = Some p" "s = (h_mgr S)\<lparr>hinfos := (hinfos (h_mgr S))(p \<mapsto> h\<lparr>refcnt := refcnt h + 1\<rparr>)\<rparr>"
      using assms(3) Some h by (auto simp: get_handle_def h_ops)
    have "connection (h_mgr S) c b m = (if h_cl h \<noteq> None then h_cl h else if b < 0 then None else Some c)"
      using Some h False by (simp add: connection_def)
    then show ?thesis unfolding g using False
      by (intro disjI2 exI [of _ p] exI [of _ "h\<lparr>refcnt := refcnt h + 1\<rparr>"]) simp
  qed
qed

lemma safebind_twice:
  assumes "h_inv S" "handles S k = Some (Some p)" "hinfos (h_mgr S) p = Some h" "\<not> del h" "c \<notin> rpccs (h_mgr S)"
    "cl = (if h_cl h \<noteq> None then h_cl h else if b < 0 then None else Some c)" "binding S p = None"
  shows "\<exists>s. safebind c b (Some p) (h_mgr S) = Inr (cl, s) \<and> h_inv (S\<lparr>h_mgr := s\<rparr>) \<and> (cl \<noteq> None \<longrightarrow> safebind c b (Some p) s = Inr (cl, s))"
proof (cases "h_cl h")
  case None
  let ?s = "(h_mgr S)\<lparr>hinfos := (hinfos (h_mgr S))(p \<mapsto> bound c b h), rpccs := (if b < 0 then rpccs (h_mgr S) else insert c (rpccs (h_mgr S)))\<rparr>"
  let ?S = "S\<lparr>binding := (binding S)(p \<mapsto> k)\<rparr>"
  have ck: "safebind_check p (h_mgr S) = Inr (None, h_mgr S)" using safebind_check_ok [OF assms(3)] assms(4) None by simp
  have b: "safebind_bound c b p (h_mgr S) = Inr (cl, ?s)" using safebind_bound_ok [OF assms(3), of c b] None assms(6) by simp
  have "h_inv ?S" using bind_begin_ok [OF assms(1,2) ck] by simp
  from bind_end_ok [OF this, of p k c h b] assms(3,5) have "h_inv (?S\<lparr>h_mgr := ?s, binding := (binding ?S)(p := None)\<rparr>)"
    by (cases "b < 0") simp_all
  moreover have "?S\<lparr>h_mgr := ?s, binding := (binding ?S)(p := None)\<rparr> = S\<lparr>h_mgr := ?s\<rparr>" using assms(7) by (cases S) (simp add: fun_upd_idem)
  moreover have "safebind_check p ?s = Inr (Some (Some c), ?s)" if "\<not> b < 0"
    using safebind_check_ok [of ?s p "bound c b h"] that assms(4) by (simp add: bound_def)
  ultimately show ?thesis using ck b None assms(6) by (intro exI [of _ ?s]) (auto simp: safebind_def andthen_def ret_def)
next
  case (Some d)
  then have "safebind c b (Some p) (h_mgr S) = Inr (cl, h_mgr S)" using safebind_check_ok [OF assms(3)] assms(4,6) by (simp add: safebind_def andthen_def ret_def)
  then show ?thesis using assms(1) by auto
qed



section \<open>A bound connection\<close>

lemma bound_state:
  "\<exists>S. h_step\<^sup>*\<^sup>* hsys_init S \<and> handles S = [0 \<mapsto> Some 5] \<and> binding S = Map.empty \<and>
     h_mgr S = \<lparr>hmap = [''a:1'' \<mapsto> 5], hinfos = [5 \<mapsto> \<lparr>h_cl = Some 9, refcnt = 1, del = False, h_m = ''a:1''\<rparr>], rpccs = {9}\<rparr>"
proof -
  let ?h = "\<lambda>cl. \<lparr>h_cl = cl, refcnt = 1, del = False, h_m = ''a:1''\<rparr>"
  let ?s = "\<lambda>cl r. \<lparr>hmap = [''a:1'' \<mapsto> 5], hinfos = [5 \<mapsto> ?h cl], rpccs = r\<rparr>"
  let ?S1 = "\<lparr>h_mgr = ?s None {}, handles = [0 \<mapsto> Some 5], binding = Map.empty\<rparr>"
  let ?S2 = "\<lparr>h_mgr = ?s None {}, handles = [0 \<mapsto> Some 5], binding = [5 \<mapsto> 0]\<rparr>"
  let ?S3 = "\<lparr>h_mgr = ?s (Some 9) {9}, handles = [0 \<mapsto> Some 5], binding = Map.empty\<rparr>"
  have 1: "h_step hsys_init ?S1" using h_step.construct [of hsys_init 0 5 "''a:1''" "Some 5" "?s None {}"]
    by (simp add: hsys_init_def handle_mgr_init_def get_handle_def)
  have 2: "h_step ?S1 ?S2" using h_step.bind_begin [of ?S1 0 5 "?s None {}"] by (simp add: safebind_check_def h_ops)
  have 3: "h_step ?S2 ?S3" using h_step.bind_end [of ?S2 5 0 9 0 "Some 9" "?s (Some 9) {9}"] by (simp add: safebind_bound_def h_ops)
  have "h_step\<^sup>*\<^sup>* hsys_init ?S3" using 1 2 3 by (meson rtranclp.rtrancl_into_rtrancl rtranclp.rtrancl_refl)
  then show ?thesis by (intro exI [of _ ?S3]) simp
qed

theorem handle_safe_witness:
  "\<exists>S x y. h_step\<^sup>*\<^sup>* hsys_init S \<and> handles S 0 = Some (Some 5) \<and> handle_destroy (Some 5) (h_mgr S) = Inr x \<and> delete_handle ''a:1'' (h_mgr S) = Inr y"
proof -
  obtain S where S: "h_step\<^sup>*\<^sup>* hsys_init S" "handles S = [0 \<mapsto> Some 5]" "binding S = Map.empty" using bound_state by blast
  have "handles S 0 = Some (Some 5)" "0 \<notin> ran (binding S)" using S by simp_all
  then show ?thesis using handle_safe [OF S(1)] S(1) by blast
qed




end
