(* ===== verification/Fifo.thy ===== *)
theory Fifo
  imports Prelude
begin

text \<open>
  The bounded queue of \<^verbatim>\<open>src/rpc/fifo.h\<close>, through which the RPC library hands jobs to its threads.  \<^verbatim>\<open>enq\<close> and
  \<^verbatim>\<open>deq\<close> hold the mutex of the queue (\<^verbatim>\<open>src/rpc/slock.h\<close>) except while they wait, so a definition below is one
  turn of their loops.  The step relation interleaves the turns of any number of threads; a signal wakes a
  thread that waits, if there is one, and a thread may also wake without a signal, against which the loops
  guard.
\<close>

section \<open>The queue\<close>

text \<open>\<open>f_max\<close> is the capacity \<^verbatim>\<open>max_\<close>, 0 for none.\<close>

record 'a fifo =
  f_q :: "'a list"
  f_max :: u32

definition fifo_init :: "int \<Rightarrow> 'a fifo" where
  "fifo_init limit = \<lparr>f_q = [], f_max = word_of_int limit\<rparr>"

text \<open>\<^verbatim>\<open>size\<close> returns the length as a \<^verbatim>\<open>bool\<close>.\<close>

definition fifo_size :: "'a fifo \<Rightarrow> bool" where
  "fifo_size f \<longleftrightarrow> length (f_q f) \<noteq> 0"

text \<open>
  A turn of the loop of \<^verbatim>\<open>enq\<close>: the element is stored and \<^verbatim>\<open>non_empty_c_\<close> signalled, or the thread waits for
  \<^verbatim>\<open>has_space_c_\<close>, or the call returns \<^verbatim>\<open>false\<close>.
\<close>

datatype enq_out = Stored | Await_Space | Refused

definition enq_turn :: "'a \<Rightarrow> bool \<Rightarrow> 'a fifo \<Rightarrow> enq_out \<times> 'a fifo" where
  "enq_turn e blocking f =
     (if f_max f = 0 \<or> length (f_q f) < unat (f_max f) then (Stored, f\<lparr>f_q := f_q f @ [e]\<rparr>)
      else if blocking then (Await_Space, f)
      else (Refused, f))"

text \<open>
  A turn of the loop of \<^verbatim>\<open>deq\<close>: the thread waits for \<^verbatim>\<open>non_empty_c_\<close>, or it gets the first element; the flag
  tells whether it signals \<^verbatim>\<open>has_space_c_\<close>.
\<close>

datatype 'a deq_out = Await_Element | Got 'a bool

definition deq_turn :: "'a fifo \<Rightarrow> 'a deq_out \<times> 'a fifo" where
  "deq_turn f =
     (case f_q f of
        [] \<Rightarrow> (Await_Element, f)
      | e # q \<Rightarrow> (Got e (f_max f \<noteq> 0 \<and> length q < unat (f_max f)), f\<lparr>f_q := q\<rparr>))"

section \<open>Threads\<close>

datatype 'a fpc = Outside | Enq_Asleep 'a | Enq_Awake 'a | Deq_Asleep | Deq_Awake

record 'a fsys =
  fq :: "'a fifo"
  fpcs :: "nat \<Rightarrow> 'a fpc"
  put_in :: "'a list"
  taken :: "'a list"

definition fsys_init :: "int \<Rightarrow> 'a fsys" where
  "fsys_init limit = \<lparr>fq = fifo_init limit, fpcs = (\<lambda>_. Outside), put_in = [], taken = []\<rparr>"

text \<open>A thread that waits and the same thread once it is awake.\<close>

fun wakes :: "'a fpc \<Rightarrow> 'a fpc option" where
  "wakes (Enq_Asleep e) = Some (Enq_Awake e)"
| "wakes Deq_Asleep = Some Deq_Awake"
| "wakes p = None"

definition signal :: "('a fpc \<Rightarrow> bool) \<Rightarrow> (nat \<Rightarrow> 'a fpc) \<Rightarrow> (nat \<Rightarrow> 'a fpc) \<Rightarrow> bool" where
  "signal on pcs pcs' \<longleftrightarrow> (if \<exists>t. on (pcs t) then \<exists>t p. on (pcs t) \<and> wakes (pcs t) = Some p \<and> pcs' = pcs(t := p) else pcs' = pcs)"

abbreviation enq_asleep :: "'a fpc \<Rightarrow> bool" where "enq_asleep p \<equiv> \<exists>e. p = Enq_Asleep e"
abbreviation enq_awake :: "'a fpc \<Rightarrow> bool" where "enq_awake p \<equiv> \<exists>e. p = Enq_Awake e"

inductive f_step :: "'a fsys \<Rightarrow> 'a fsys \<Rightarrow> bool" where
  stored: "fpcs s t = Outside \<or> b \<and> fpcs s t = Enq_Awake e \<Longrightarrow> enq_turn e b (fq s) = (Stored, f) \<Longrightarrow>
     signal (\<lambda>p. p = Deq_Asleep) ((fpcs s)(t := Outside)) pcs \<Longrightarrow> f_step s (s\<lparr>fq := f, fpcs := pcs, put_in := put_in s @ [e]\<rparr>)"
| full: "fpcs s t = Outside \<or> fpcs s t = Enq_Awake e \<Longrightarrow> enq_turn e True (fq s) = (Await_Space, f) \<Longrightarrow>
     f_step s (s\<lparr>fq := f, fpcs := (fpcs s)(t := Enq_Asleep e)\<rparr>)"
| refused: "fpcs s t = Outside \<Longrightarrow> enq_turn e False (fq s) = (Refused, f) \<Longrightarrow> f_step s (s\<lparr>fq := f\<rparr>)"
| got: "fpcs s t = Outside \<or> fpcs s t = Deq_Awake \<Longrightarrow> deq_turn (fq s) = (Got e True, f) \<Longrightarrow>
     signal enq_asleep ((fpcs s)(t := Outside)) pcs \<Longrightarrow> f_step s (s\<lparr>fq := f, fpcs := pcs, taken := taken s @ [e]\<rparr>)"
| got_quietly: "fpcs s t = Outside \<or> fpcs s t = Deq_Awake \<Longrightarrow> deq_turn (fq s) = (Got e False, f) \<Longrightarrow>
     f_step s (s\<lparr>fq := f, fpcs := (fpcs s)(t := Outside), taken := taken s @ [e]\<rparr>)"
| empty: "fpcs s t = Outside \<or> fpcs s t = Deq_Awake \<Longrightarrow> deq_turn (fq s) = (Await_Element, f) \<Longrightarrow>
     f_step s (s\<lparr>fq := f, fpcs := (fpcs s)(t := Deq_Asleep)\<rparr>)"
| spurious: "wakes (fpcs s t) = Some p \<Longrightarrow> f_step s (s\<lparr>fpcs := (fpcs s)(t := p)\<rparr>)"

inductive f_reachable :: "int \<Rightarrow> 'a fsys \<Rightarrow> bool" for limit where
  init: "f_reachable limit (fsys_init limit)"
| step: "f_reachable limit s \<Longrightarrow> f_step s s' \<Longrightarrow> f_reachable limit s'"

section \<open>Invariant\<close>

text \<open>How many threads are at a place.\<close>

definition count_at :: "('a fpc \<Rightarrow> bool) \<Rightarrow> (nat \<Rightarrow> 'a fpc) \<Rightarrow> nat" where
  "count_at P pcs = card {t. P (pcs t)}"

definition f_inv :: "u32 \<Rightarrow> 'a fsys \<Rightarrow> bool" where
  "f_inv m s \<longleftrightarrow> f_max (fq s) = m \<and> finite {t. fpcs s t \<noteq> Outside} \<and> put_in s = taken s @ f_q (fq s) \<and>
     (m \<noteq> 0 \<longrightarrow> length (f_q (fq s)) \<le> unat m) \<and> (m = 0 \<longrightarrow> \<not> (\<exists>t. enq_asleep (fpcs s t))) \<and>
     ((\<exists>t. fpcs s t = Deq_Asleep) \<longrightarrow> length (f_q (fq s)) \<le> count_at (\<lambda>p. p = Deq_Awake) (fpcs s)) \<and>
     ((\<exists>t. enq_asleep (fpcs s t)) \<longrightarrow> unat m \<le> length (f_q (fq s)) + count_at enq_awake (fpcs s))"

lemma finite_at: "finite {t. pcs t \<noteq> Outside} \<Longrightarrow> \<not> P Outside \<Longrightarrow> finite {t. P (pcs t)}"
  by (rule finite_subset [of _ "{t. pcs t \<noteq> Outside}"]) auto

lemma count_upd:
  assumes "finite {t. pcs t \<noteq> Outside}" "\<not> P Outside"
  shows "count_at P (pcs(t := p)) = count_at P pcs - (if P (pcs t) then 1 else 0) + (if P p then 1 else 0)"
proof -
  have s: "{u. P ((pcs(t := p)) u)} = (if P p then insert t else id) ({u. P (pcs u)} - {t})" by auto
  have f: "finite {u. P (pcs u)}" using assms by (rule finite_at [where pcs = pcs and P = P])
  have d: "card ({u. P (pcs u)} - {t}) = card {u. P (pcs u)} - (if P (pcs t) then 1 else 0)" by (simp add: card_Diff_singleton_if)
  have "card (insert t ({u. P (pcs u)} - {t})) = Suc (card ({u. P (pcs u)} - {t}))" using f by (intro card_insert_disjoint) auto
  then show ?thesis unfolding count_at_def s by (simp only: d split: if_split) (simp add: d)
qed

lemma count_pos: "finite {t. pcs t \<noteq> Outside} \<Longrightarrow> \<not> P Outside \<Longrightarrow> P (pcs t) \<Longrightarrow> 1 \<le> count_at P pcs"
  unfolding count_at_def using finite_at [of pcs P] by (metis (mono_tags, lifting) One_nat_def Suc_leI card_gt_0_iff empty_iff mem_Collect_eq)

lemma finite_upd: "finite {t. pcs t \<noteq> Outside} \<Longrightarrow> finite {u. (pcs(t := p)) u \<noteq> Outside}"
  by (rule finite_subset [of _ "insert t {t. pcs t \<noteq> Outside}"]) auto

lemma f_inv_init: "f_inv (word_of_int limit) (fsys_init limit)"
  by (simp add: f_inv_def fsys_init_def fifo_init_def)

lemma f_invD:
  assumes "f_inv m s"
  shows "f_max (fq s) = m" "finite {t. fpcs s t \<noteq> Outside}" "put_in s = taken s @ f_q (fq s)" "m \<noteq> 0 \<Longrightarrow> length (f_q (fq s)) \<le> unat m"
    "m = 0 \<Longrightarrow> fpcs s t \<noteq> Enq_Asleep e" "fpcs s t = Deq_Asleep \<Longrightarrow> length (f_q (fq s)) \<le> count_at (\<lambda>p. p = Deq_Awake) (fpcs s)"
    "fpcs s t = Enq_Asleep e \<Longrightarrow> unat m \<le> length (f_q (fq s)) + count_at enq_awake (fpcs s)"
  using assms unfolding f_inv_def by blast+

text \<open>What a signal does to the numbers of threads.\<close>

lemma signal_deq:
  assumes "signal (\<lambda>p. p = Deq_Asleep) pcs pcs'" "finite {t. pcs t \<noteq> Outside}"
  shows "finite {t. pcs' t \<noteq> Outside}" "count_at enq_awake pcs' = count_at enq_awake pcs" "enq_asleep (pcs' t) = enq_asleep (pcs t)"
    "pcs' t = Deq_Asleep \<Longrightarrow> pcs t = Deq_Asleep \<and> count_at (\<lambda>p. p = Deq_Awake) pcs' = Suc (count_at (\<lambda>p. p = Deq_Awake) pcs)"
proof -
  consider "pcs' = pcs" "\<forall>t. pcs t \<noteq> Deq_Asleep" | u where "pcs u = Deq_Asleep" "pcs' = pcs(u := Deq_Awake)"
    using assms(1) by (auto simp: signal_def split: if_splits)
  then show "finite {t. pcs' t \<noteq> Outside}" "count_at enq_awake pcs' = count_at enq_awake pcs" "enq_asleep (pcs' t) = enq_asleep (pcs t)"
    "pcs' t = Deq_Asleep \<Longrightarrow> pcs t = Deq_Asleep \<and> count_at (\<lambda>p. p = Deq_Awake) pcs' = Suc (count_at (\<lambda>p. p = Deq_Awake) pcs)"
    using finite_upd [OF assms(2)] by (cases; auto simp: count_upd [OF assms(2)] assms(2) split: if_splits)+
qed

lemma signal_enq:
  assumes "signal enq_asleep pcs pcs'" "finite {t. pcs t \<noteq> Outside}"
  shows "finite {t. pcs' t \<noteq> Outside}" "count_at (\<lambda>p. p = Deq_Awake) pcs' = count_at (\<lambda>p. p = Deq_Awake) pcs" "pcs' t = Deq_Asleep \<longleftrightarrow> pcs t = Deq_Asleep"
    "enq_asleep (pcs' t) \<Longrightarrow> enq_asleep (pcs t) \<and> count_at enq_awake pcs' = Suc (count_at enq_awake pcs)"
proof -
  consider "pcs' = pcs" "\<forall>t. \<not> enq_asleep (pcs t)" | u e where "pcs u = Enq_Asleep e" "pcs' = pcs(u := Enq_Awake e)"
    using assms(1) by (auto simp: signal_def split: if_splits)
  then show "finite {t. pcs' t \<noteq> Outside}" "count_at (\<lambda>p. p = Deq_Awake) pcs' = count_at (\<lambda>p. p = Deq_Awake) pcs" "pcs' t = Deq_Asleep \<longleftrightarrow> pcs t = Deq_Asleep"
    "enq_asleep (pcs' t) \<Longrightarrow> enq_asleep (pcs t) \<and> count_at enq_awake pcs' = Suc (count_at enq_awake pcs)"
    using finite_upd [OF assms(2)] by (cases; auto simp: count_upd [OF assms(2)] assms(2) split: if_splits)+
qed


lemma f_invI:
  assumes "f_max (fq s) = m" "finite {t. fpcs s t \<noteq> Outside}" "put_in s = taken s @ f_q (fq s)" "m \<noteq> 0 \<Longrightarrow> length (f_q (fq s)) \<le> unat m"
    "\<And>t e. m = 0 \<Longrightarrow> fpcs s t \<noteq> Enq_Asleep e" "\<And>t. fpcs s t = Deq_Asleep \<Longrightarrow> length (f_q (fq s)) \<le> count_at (\<lambda>p. p = Deq_Awake) (fpcs s)"
    "\<And>t e. fpcs s t = Enq_Asleep e \<Longrightarrow> unat m \<le> length (f_q (fq s)) + count_at enq_awake (fpcs s)"
  shows "f_inv m s"
  unfolding f_inv_def using assms by blast

lemma enq_turn_cases:
  assumes "enq_turn e b f = (x, f')"
  shows "x = Stored \<Longrightarrow> (f_max f \<noteq> 0 \<longrightarrow> length (f_q f) < unat (f_max f)) \<and> f' = f\<lparr>f_q := f_q f @ [e]\<rparr>"
    "x = Await_Space \<Longrightarrow> f_max f \<noteq> 0 \<and> unat (f_max f) \<le> length (f_q f) \<and> f' = f" "x = Refused \<Longrightarrow> f' = f"
  using assms by (auto simp: enq_turn_def split: if_splits)

lemma deq_turn_cases:
  assumes "deq_turn f = (x, f')"
  shows "x = Got e b \<Longrightarrow> f_q f = e # f_q f' \<and> f_max f' = f_max f \<and> (b \<longleftrightarrow> f_max f \<noteq> 0 \<and> length (f_q f') < unat (f_max f))"
    "x = Await_Element \<Longrightarrow> f_q f = [] \<and> f' = f"
  using assms by (auto simp: deq_turn_def split: list.splits)

lemma f_step_inv:
  assumes "f_step s s'" "f_inv m s"
  shows "f_inv m s'"
  using assms
proof (cases rule: f_step.cases)
  case (stored t b e f pcs)
  note D = f_invD [OF assms(2)]
  note q = enq_turn_cases(1) [OF stored(3) refl]
  have fin: "finite {u. ((fpcs s)(t := Outside)) u \<noteq> Outside}" by (rule finite_upd [OF D(2)])
  note S = signal_deq [OF stored(4) fin]
  have aw: "count_at enq_awake (fpcs s) \<le> Suc (count_at enq_awake ((fpcs s)(t := Outside)))"
    "count_at (\<lambda>p. p = Deq_Awake) ((fpcs s)(t := Outside)) = count_at (\<lambda>p. p = Deq_Awake) (fpcs s)"
    using stored(2) by (auto simp: count_upd [OF D(2)])
  show ?thesis unfolding stored(1)
  proof (rule f_invI, goal_cases)
    case 1 then show ?case using q D(1) by simp
  next
    case 2 then show ?case using S(1) by simp
  next
    case 3 then show ?case using q D(3) by simp
  next
    case 4 then show ?case using q D(1) by simp
  next
    case (5 u e') then show ?case using S(3) [of u] D(5) [of u] by (auto split: if_splits)
  next
    case (6 u)
    then have u: "pcs u = Deq_Asleep" by simp
    then have "fpcs s u = Deq_Asleep" using S(4) [OF u] by (auto split: if_splits)
    then show ?case using S(4) [OF u] D(6) [of u] q aw(2) by (simp del: fun_upd_apply)
  next
    case (7 u e')
    then obtain e'' where "fpcs s u = Enq_Asleep e''" using S(3) [of u] by (auto split: if_splits)
    then show ?case using D(7) [of u e''] q aw(1) S(2) by (simp del: fun_upd_apply)
  qed
next
  case (full t e f)
  note D = f_invD [OF assms(2)]
  note q = enq_turn_cases(2) [OF full(3) refl]
  have c: "count_at (\<lambda>p. p = Deq_Awake) ((fpcs s)(t := Enq_Asleep e)) = count_at (\<lambda>p. p = Deq_Awake) (fpcs s)"
    using full(2) by (auto simp: count_upd [OF D(2)])
  show ?thesis unfolding full(1)
    by (rule f_invI) (use finite_upd [OF D(2), of t "Enq_Asleep e"] q D(1,3,4) c D(6) in \<open>auto split: if_splits\<close>)
next
  case (refused t e f)
  then show ?thesis using assms(2) enq_turn_cases(3) [OF refused(3) refl] by (simp add: f_inv_def)
next
  case (got t e f pcs)
  note D = f_invD [OF assms(2)]
  note q = deq_turn_cases(1) [OF got(3) refl]
  have fin: "finite {u. ((fpcs s)(t := Outside)) u \<noteq> Outside}" by (rule finite_upd [OF D(2)])
  note S = signal_enq [OF got(4) fin]
  have aw: "count_at (\<lambda>p. p = Deq_Awake) (fpcs s) \<le> Suc (count_at (\<lambda>p. p = Deq_Awake) ((fpcs s)(t := Outside)))"
    "count_at enq_awake ((fpcs s)(t := Outside)) = count_at enq_awake (fpcs s)"
    using got(2) by (auto simp: count_upd [OF D(2)])
  show ?thesis unfolding got(1)
  proof (rule f_invI, goal_cases)
    case 1 then show ?case using q D(1) by simp
  next
    case 2 then show ?case using S(1) by simp
  next
    case 3 then show ?case using q D(3) by simp
  next
    case 4 then show ?case using q D(1) by simp
  next
    case (5 u e') then show ?case using S(4) [of u] D(5) [of u] by (auto split: if_splits)
  next
    case (6 u)
    then have "fpcs s u = Deq_Asleep" using S(3) [of u] by (auto split: if_splits)
    then show ?case using D(6) [of u] q aw(1) S(2) by (simp del: fun_upd_apply)
  next
    case (7 u e')
    then have u: "enq_asleep (pcs u)" by simp
    then obtain e'' where "fpcs s u = Enq_Asleep e''" using S(4) [OF u] by (auto split: if_splits)
    then show ?case using S(4) [OF u] D(7) [of u e''] q aw(2) by (simp del: fun_upd_apply)
  qed
next
  case (got_quietly t e f)
  note D = f_invD [OF assms(2)]
  note q = deq_turn_cases(1) [OF got_quietly(3) refl]
  have z: "m = 0" using q D(1) D(4) by (cases "m = 0") auto
  have c: "count_at (\<lambda>p. p = Deq_Awake) (fpcs s) \<le> Suc (count_at (\<lambda>p. p = Deq_Awake) ((fpcs s)(t := Outside)))"
    using got_quietly(2) by (auto simp: count_upd [OF D(2)])
  show ?thesis unfolding got_quietly(1)
  proof (rule f_invI, goal_cases)
    case (6 u) then show ?case using D(6) [of u] c q by (auto split: if_splits)
  qed (use finite_upd [OF D(2), of t Outside] q D(1,3,5) z in \<open>auto split: if_splits\<close>)
next
  case (empty t f)
  note D = f_invD [OF assms(2)]
  note q = deq_turn_cases(2) [OF empty(3) refl]
  have c: "count_at enq_awake ((fpcs s)(t := Deq_Asleep)) = count_at enq_awake (fpcs s)"
    using empty(2) by (auto simp: count_upd [OF D(2)])
  show ?thesis unfolding empty(1)
    by (rule f_invI) (use finite_upd [OF D(2), of t Deq_Asleep] q D(1,3,4,5) c D(7) in \<open>auto split: if_splits\<close>)
next
  case (spurious t p)
  note D = f_invD [OF assms(2)]
  have c: "count_at (\<lambda>p. p = Deq_Awake) (fpcs s) \<le> count_at (\<lambda>p. p = Deq_Awake) ((fpcs s)(t := p))" "count_at enq_awake (fpcs s) \<le> count_at enq_awake ((fpcs s)(t := p))"
    using spurious(2) by (cases "fpcs s t"; auto simp: count_upd [OF D(2)])+
  have n: "fpcs s u = (if u = t then fpcs s t else fpcs (s\<lparr>fpcs := (fpcs s)(t := p)\<rparr>) u)" "p \<noteq> Deq_Asleep" "\<not> enq_asleep p" for u
    using spurious(2) by (cases "fpcs s t"; auto)+
  show ?thesis unfolding spurious(1)
  proof (rule f_invI, goal_cases)
    case (6 u) then show ?case using D(6) [of u] c(1) n(2) by (auto split: if_splits)
  next
    case (7 u e) then show ?case using D(7) [of u e] c(2) n(3) by (auto split: if_splits)
  qed (use finite_upd [OF D(2), of t p] D(1,3,4,5) n(3) in \<open>auto split: if_splits\<close>)
qed

lemma f_reachable_inv: "f_reachable limit s \<Longrightarrow> f_inv (word_of_int limit) s"
  by (induction rule: f_reachable.induct) (auto intro: f_inv_init f_step_inv)


section \<open>Properties\<close>

lemma count_ex: "0 < count_at P pcs \<Longrightarrow> \<exists>t. P (pcs t)"
  unfolding count_at_def by (metis (mono_tags, lifting) card_gt_0_iff ex_in_conv mem_Collect_eq)

lemma signal_ex:
  assumes "\<And>p. on p \<Longrightarrow> wakes p \<noteq> None"
  shows "\<exists>pcs'. signal on pcs pcs'"
  using assms by (cases "\<exists>t. on (pcs t)") (auto simp: signal_def, blast)

text \<open>An awake consumer of a queue with elements takes the first; an awake producer of a queue with space stores its element.\<close>

lemma awake_deq:
  assumes "fpcs s t = Deq_Awake" "f_q (fq s) = e # q"
  shows "\<exists>s'. f_step s s' \<and> taken s' = taken s @ [e]"
proof -
  let ?b = "f_max (fq s) \<noteq> 0 \<and> length q < unat (f_max (fq s))"
  have d: "deq_turn (fq s) = (Got e ?b, (fq s)\<lparr>f_q := q\<rparr>)" using assms(2) by (simp add: deq_turn_def)
  obtain pcs where "signal enq_asleep ((fpcs s)(t := Outside)) pcs" using signal_ex [of enq_asleep] by fastforce
  then show ?thesis
    using f_step.got [of s t e] f_step.got_quietly [of s t e] assms(1) d by (cases ?b) fastforce+
qed

lemma awake_enq:
  assumes "fpcs s t = Enq_Awake e" "f_max (fq s) = 0 \<or> length (f_q (fq s)) < unat (f_max (fq s))"
  shows "\<exists>s'. f_step s s' \<and> put_in s' = put_in s @ [e]"
proof -
  have d: "enq_turn e True (fq s) = (Stored, (fq s)\<lparr>f_q := f_q (fq s) @ [e]\<rparr>)" using assms(2) by (simp add: enq_turn_def)
  obtain pcs where "signal (\<lambda>p. p = Deq_Asleep) ((fpcs s)(t := Outside)) pcs" using signal_ex [of "\<lambda>p. p = Deq_Asleep"] by fastforce
  then show ?thesis using f_step.stored [of s t True e] assms(1) d by fastforce
qed

text \<open>
  C15. The queue hands out exactly what was put in, in the order in which it was put in, and never holds more
  than its capacity.  No wakeup is lost: while the queue has elements and a consumer sleeps, another consumer
  is awake and can take the first element; while it has space and a producer sleeps, another producer is
  awake and can store its element.
\<close>

theorem fifo_correct:
  assumes "f_reachable limit s"
  shows "put_in s = taken s @ f_q (fq s) \<and>
    (f_max (fq s) \<noteq> 0 \<longrightarrow> length (f_q (fq s)) \<le> unat (f_max (fq s))) \<and>
    (\<forall>t e q. fpcs s t = Deq_Asleep \<and> f_q (fq s) = e # q \<longrightarrow>
       (\<exists>u s'. fpcs s u = Deq_Awake \<and> f_step s s' \<and> taken s' = taken s @ [e])) \<and>
    (\<forall>t e. fpcs s t = Enq_Asleep e \<and> length (f_q (fq s)) < unat (f_max (fq s)) \<longrightarrow>
       (\<exists>u e' s'. fpcs s u = Enq_Awake e' \<and> f_step s s' \<and> put_in s' = put_in s @ [e']))"
proof -
  note D = f_invD [OF f_reachable_inv [OF assms]]
  have "\<exists>u s'. fpcs s u = Deq_Awake \<and> f_step s s' \<and> taken s' = taken s @ [e]" if "fpcs s t = Deq_Asleep" "f_q (fq s) = e # q" for t e q
    using D(6) [OF that(1)] that(2) count_ex [of "\<lambda>p. p = Deq_Awake" "fpcs s"] awake_deq [OF _ that(2)] by fastforce
  moreover have "\<exists>u e' s'. fpcs s u = Enq_Awake e' \<and> f_step s s' \<and> put_in s' = put_in s @ [e']"
    if "fpcs s t = Enq_Asleep e" "length (f_q (fq s)) < unat (f_max (fq s))" for t e
    using D(7) [OF that(1)] D(1) that(2) count_ex [of enq_awake "fpcs s"] awake_enq [of s] by fastforce
  moreover have "f_max (fq s) \<noteq> 0 \<Longrightarrow> length (f_q (fq s)) \<le> unat (f_max (fq s))" using D(1) D(4) by simp
  ultimately show ?thesis using D(3) by (intro conjI allI impI) (blast | simp)+
qed

theorem fifo_correct_witness:
  "\<exists>s s'. fpcs s 1 = Deq_Asleep \<and> f_q (fq s) = [5 :: nat] \<and> f_step s s' \<and> taken s' = [5]"
proof -
  let ?f = "\<lambda>q. \<lparr>f_q = q, f_max = 2\<rparr> :: nat fifo"
  let ?p1 = "(\<lambda>_. Outside)(0 := Deq_Asleep) :: nat \<Rightarrow> nat fpc"
  let ?p2 = "(\<lambda>_. Outside)(0 := Deq_Asleep, 1 := Deq_Asleep) :: nat \<Rightarrow> nat fpc"
  let ?p3 = "(\<lambda>_. Outside)(0 := Deq_Awake, 1 := Deq_Asleep) :: nat \<Rightarrow> nat fpc"
  let ?s3 = "\<lparr>fq = ?f [5], fpcs = ?p3, put_in = [5], taken = []\<rparr>"
  have r0: "f_reachable 2 \<lparr>fq = ?f [], fpcs = \<lambda>_. Outside, put_in = [], taken = []\<rparr>"
    using f_reachable.init [of 2] by (simp add: fsys_init_def fifo_init_def)
  have r1: "f_reachable 2 \<lparr>fq = ?f [], fpcs = ?p1, put_in = [], taken = []\<rparr>"
    using f_reachable.step [OF r0 f_step.empty [of _ 0 "?f []"]] by (simp add: deq_turn_def)
  have r2: "f_reachable 2 \<lparr>fq = ?f [], fpcs = ?p2, put_in = [], taken = []\<rparr>"
    using f_reachable.step [OF r1 f_step.empty [of _ 1 "?f []"]] by (simp add: deq_turn_def)
  have "signal (\<lambda>p. p = Deq_Asleep) (?p2(2 := Outside)) ?p3"
    unfolding signal_def by (auto simp: fun_eq_iff intro!: exI [of _ 0])
  then have r: "f_reachable 2 ?s3"
    using f_reachable.step [OF r2 f_step.stored [of _ 2 True 5 "?f [5]" ?p3]] by (simp add: enq_turn_def)
  have "fpcs ?s3 1 = Deq_Asleep \<and> f_q (fq ?s3) = [5]" by simp
  then obtain u s' where "f_step ?s3 s'" "taken s' = taken ?s3 @ [5]" using fifo_correct [OF r] by blast
  then show ?thesis by (intro exI [of _ ?s3] exI [of _ s']) simp
qed

end
